(* ===== verification/Xv6_Prelude.thy ===== *)
theory Xv6_Prelude
  imports Main "HOL-Library.Word"
begin

text \<open>
  Shared vocabulary of the development.

  \<^item> \<open>kres\<close>: the outcome of a kernel function.  Besides returning (\<open>Ok\<close>) a C function of
    the kernel may call \<^verbatim>\<open>panic\<close> (\<open>Panic\<close> with the message of the source), run into
    undefined behaviour of C such as an array index out of range or a null pointer
    (\<open>Fault\<close>), not return because it spins on a lock or in a loop (\<open>Spin\<close>) or give up the processor
    before it returns (\<open>Blocked\<close>).
  \<^item> \<open>kbind\<close> sequences such functions, \<open>foldk\<close> is a \<^verbatim>\<open>for\<close> loop over a list.
  \<^item> \<open>aread\<close> and \<open>awrite\<close> are C array accesses with the bounds made explicit.
  \<^item> The constants of \<^verbatim>\<open>param.h\<close>.
  \<^item> Generic lemmas on lists and words used by several components.
\<close>

section \<open>Outcomes of kernel functions\<close>

datatype 'a kres = Ok 'a | Panic string | Fault string | Spin | Blocked

named_theorems kres_iff

primrec kbind :: "'a kres \<Rightarrow> ('a \<Rightarrow> 'b kres) \<Rightarrow> 'b kres" where
  "kbind (Ok x) f = f x"
| "kbind (Panic m) f = Panic m"
| "kbind (Fault m) f = Fault m"
| "kbind Spin f = Spin"
| "kbind Blocked f = Blocked"

primrec is_ok :: "'a kres \<Rightarrow> bool" where
  "is_ok (Ok x) = True"
| "is_ok (Panic m) = False"
| "is_ok (Fault m) = False"
| "is_ok Spin = False"
| "is_ok Blocked = False"

text \<open>
  A loop that may not end is a \<^theory_text>\<open>partial_function (option)\<close> with \<open>kobind\<close> in its body.  If
  it does not end, \<open>krun\<close> gives the outcome \<open>Spin\<close>.
\<close>

definition kobind :: "'a kres \<Rightarrow> ('a \<Rightarrow> 'b kres option) \<Rightarrow> 'b kres option" where
  "kobind m f = (case m of Ok x \<Rightarrow> f x | Panic e \<Rightarrow> Some (Panic e) | Fault e \<Rightarrow> Some (Fault e)
     | Spin \<Rightarrow> Some Spin | Blocked \<Rightarrow> Some Blocked)"

definition krun :: "'a kres option \<Rightarrow> 'a kres" where
  "krun r = (case r of None \<Rightarrow> Spin | Some x \<Rightarrow> x)"

definition panic_if :: "bool \<Rightarrow> string \<Rightarrow> unit kres" where
  "panic_if c m = (if c then Panic m else Ok ())"

primrec foldk :: "('i \<Rightarrow> 's \<Rightarrow> 's kres) \<Rightarrow> 'i list \<Rightarrow> 's \<Rightarrow> 's kres" where
  "foldk f [] s = Ok s"
| "foldk f (i # is) s = kbind (f i s) (foldk f is)"

definition aread :: "'a list \<Rightarrow> int \<Rightarrow> 'a kres" where
  "aread xs i = (if 0 \<le> i \<and> nat i < length xs then Ok (xs ! nat i)
                 else Fault ''array index out of range'')"

definition awrite :: "'a list \<Rightarrow> int \<Rightarrow> 'a \<Rightarrow> 'a list kres" where
  "awrite xs i v = (if 0 \<le> i \<and> nat i < length xs then Ok (xs[nat i := v])
                    else Fault ''array index out of range'')"

definition deref :: "'a option \<Rightarrow> 'a kres" where
  "deref p = (case p of None \<Rightarrow> Fault ''null pointer'' | Some x \<Rightarrow> Ok x)"

section \<open>Constants\<close>

text \<open>\<^verbatim>\<open>param.h\<close>\<close>

definition NPROC :: nat where "NPROC = 64"
definition KSTACKSIZE :: nat where "KSTACKSIZE = 4096"
definition NCPU :: nat where "NCPU = 8"
definition NOFILE :: nat where "NOFILE = 16"
definition NFILE :: nat where "NFILE = 100"
definition NINODE :: nat where "NINODE = 50"
definition NDEV :: nat where "NDEV = 10"
definition ROOTDEV :: nat where "ROOTDEV = 1"
definition MAXARG :: nat where "MAXARG = 32"
definition MAXOPBLOCKS :: nat where "MAXOPBLOCKS = 10"
definition LOGSIZE :: nat where "LOGSIZE = MAXOPBLOCKS * 3"
definition NBUF :: nat where "NBUF = MAXOPBLOCKS * 3"
definition FSSIZE :: nat where "FSSIZE = 1000"

lemmas param_defs = NPROC_def KSTACKSIZE_def NCPU_def NOFILE_def NFILE_def NINODE_def NDEV_def
  ROOTDEV_def MAXARG_def MAXOPBLOCKS_def LOGSIZE_def NBUF_def FSSIZE_def

section \<open>The outcome monad\<close>

lemma kbind_Ok_right [simp]: "kbind m Ok = m"
  by (cases m) auto

lemma kbind_assoc [simp]: "kbind (kbind m f) g = kbind m (\<lambda>x. kbind (f x) g)"
  by (cases m) auto

lemma kbind_cong [fundef_cong]:
  "m = m' \<Longrightarrow> (\<And>x. m' = Ok x \<Longrightarrow> f x = f' x) \<Longrightarrow> kbind m f = kbind m' f'"
  by (cases m') auto

lemma kbind_eq_Ok [kres_iff]: "kbind m f = Ok y \<longleftrightarrow> (\<exists>x. m = Ok x \<and> f x = Ok y)"
  by (cases m) auto

lemma kbind_eq_Fault: "kbind m f = Fault e \<longleftrightarrow> m = Fault e \<or> (\<exists>x. m = Ok x \<and> f x = Fault e)"
  by (cases m) auto

lemma kbind_eq_Panic: "kbind m f = Panic e \<longleftrightarrow> m = Panic e \<or> (\<exists>x. m = Ok x \<and> f x = Panic e)"
  by (cases m) auto

lemma kbindE:
  assumes "kbind m f = Ok y"
  obtains x where "m = Ok x" and "f x = Ok y"
  using assms by (auto simp: kres_iff)

lemma kobind_simps [simp]:
  "kobind (Ok x) f = f x" "kobind (Panic e) f = Some (Panic e)" "kobind (Fault e) f = Some (Fault e)"
  "kobind Spin f = Some Spin" "kobind Blocked f = Some Blocked"
  by (simp_all add: kobind_def)

lemma krun_simps [simp]: "krun (Some r) = r" "krun None = Spin"
  by (simp_all add: krun_def)

lemma kobind_mono [partial_function_mono]:
  "(\<And>x. mono_option (\<lambda>f. g x f)) \<Longrightarrow> mono_option (\<lambda>f. kobind m (\<lambda>x. g x f))"
  by (cases m) (simp_all add: monotone_def option.leq_refl)

lemma krun_kobind: "krun (kobind m f) = kbind m (\<lambda>x. krun (f x))"
  by (cases m) auto

lemma is_ok_iff [simp]: "is_ok m \<longleftrightarrow> (\<exists>x. m = Ok x)"
  by (cases m) auto

lemma panic_if_eq_Ok [kres_iff]: "panic_if c m = Ok u \<longleftrightarrow> \<not> c"
  by (auto simp: panic_if_def)

lemma panic_if_simps [simp]:
  "panic_if True m = Panic m"
  "panic_if False m = Ok ()"
  by (simp_all add: panic_if_def)

lemma deref_simps [simp]:
  "deref None = Fault ''null pointer''"
  "deref (Some x) = Ok x"
  by (simp_all add: deref_def)

lemma deref_eq_Ok [kres_iff]: "deref p = Ok x \<longleftrightarrow> p = Some x"
  by (cases p) auto

lemma aread_eq_Ok [kres_iff]:
  "aread xs i = Ok x \<longleftrightarrow> 0 \<le> i \<and> nat i < length xs \<and> x = xs ! nat i"
  by (auto simp: aread_def)

lemma awrite_eq_Ok [kres_iff]:
  "awrite xs i v = Ok ys \<longleftrightarrow> 0 \<le> i \<and> nat i < length xs \<and> ys = xs[nat i := v]"
  by (auto simp: awrite_def)

lemma aread_nat [simp]: "i < length xs \<Longrightarrow> aread xs (int i) = Ok (xs ! i)"
  by (simp add: aread_def)

lemma awrite_nat [simp]: "i < length xs \<Longrightarrow> awrite xs (int i) v = Ok (xs[i := v])"
  by (simp add: awrite_def)

lemma foldk_append: "foldk f (xs @ ys) s = kbind (foldk f xs s) (foldk f ys)"
proof (induction xs arbitrary: s)
  case Nil
  then show ?case by simp
next
  case (Cons i xs)
  then have "foldk f (xs @ ys) = (\<lambda>u. kbind (foldk f xs u) (foldk f ys))" by (intro ext)
  then show ?case by simp
qed

text \<open>The invariant rule for loops: a property every iteration keeps holds at the end.\<close>

lemma foldk_invariant:
  assumes "foldk f xs s = Ok t" and "P s"
    and "\<And>i s t. i \<in> set xs \<Longrightarrow> P s \<Longrightarrow> f i s = Ok t \<Longrightarrow> P t"
  shows "P t"
  using assms
proof (induction xs arbitrary: s)
  case Nil
  then show ?case by simp
next
  case (Cons i xs)
  from Cons.prems(1) obtain u where u: "f i s = Ok u" and rest: "foldk f xs u = Ok t"
    by (auto simp: kres_iff)
  have "P u" by (rule Cons.prems(3) [OF _ Cons.prems(2) u]) simp
  then show ?case using Cons.IH [OF rest] Cons.prems(3) by (meson list.set_intros(2))
qed

text \<open>A loop all of whose iterations return, returns.\<close>

lemma foldk_total:
  assumes "P s" and "\<And>i s. i \<in> set xs \<Longrightarrow> P s \<Longrightarrow> \<exists>t. f i s = Ok t \<and> P t"
  shows "\<exists>t. foldk f xs s = Ok t \<and> P t"
  using assms
proof (induction xs arbitrary: s)
  case Nil
  then show ?case by simp
next
  case (Cons i xs)
  from Cons.prems obtain u where u: "f i s = Ok u" "P u" by fastforce
  obtain t where "foldk f xs u = Ok t" "P t"
    using Cons.IH [OF u(2)] Cons.prems(2) by auto
  with u show ?case by auto
qed

section \<open>Lists\<close>

lemma nth_take_in_set: "i < n \<Longrightarrow> n \<le> length xs \<Longrightarrow> xs ! i \<in> set (take n xs)"
  by (metis in_set_conv_nth length_take min.absorb2 nth_take)

lemma take_update_beyond: "n \<le> i \<Longrightarrow> take n (xs[i := v]) = take n xs"
  by (simp add: take_update_swap list_update_beyond)

lemma take_Suc_update: "n < length xs \<Longrightarrow> take (Suc n) (xs[n := v]) = take n xs @ [v]"
  by (simp add: take_Suc_conv_app_nth take_update_beyond)

lemma remove1_split: "x \<notin> set xs \<Longrightarrow> remove1 x (xs @ x # ys) = xs @ ys"
  by (simp add: remove1_append)

end
