(* ===== verification/Spinlock.thy ===== *)
theory Spinlock
  imports Xv6_Prelude
begin

text \<open>
  Spin locks and interrupt disabling: \<^verbatim>\<open>spinlock.h\<close>, \<^verbatim>\<open>spinlock.c\<close> and \<^verbatim>\<open>mycpu\<close>/\<^verbatim>\<open>cpuid\<close> of
  \<^verbatim>\<open>proc.c\<close>.

  The record \<open>kcore\<close> is the root of the kernel state: the processors, the interrupt flag of
  each, the processor that executes (\<open>me\<close>, its APIC id) and every spin lock of the kernel by
  name.  Each further component extends this record, so the operations here apply to the
  state of every component.  The call-stack trace \<^verbatim>\<open>pcs\<close> a lock records for debugging is not
  part of the model.

  The first part models the operations as one processor runs them.  The second part is
  the protocol of several processors on one lock as a step relation, at the granularity
  of the single memory accesses of \<^verbatim>\<open>acquire\<close> and \<^verbatim>\<open>release\<close>.
\<close>

section \<open>State\<close>

record spinlock =
  lk_locked :: bool
  lk_name :: string
  lk_cpu :: "nat option"

text \<open>\<^verbatim>\<open>struct cpu\<close>: the fields the modelled code uses.\<close>

record cpu =
  apicid :: "8 word"
  ncli :: int
  intena :: bool
  cpu_proc :: "nat option"

text \<open>The spin locks of the kernel.  \<open>BufLk\<close> and \<open>InodeLk\<close> are the spin locks inside the sleep locks of buffers and inodes.\<close>

datatype lockid =
    PtableLock | KmemLock | FtableLock | IcacheLock | BcacheLock | LogLock
  | ConsLock | TicksLock | IdeLock | PipeLock "32 word" | BufLk nat | InodeLk nat

record kcore =
  cpus :: "cpu list"
  ncpu :: nat
  me :: "8 word"
  iflag :: "8 word \<Rightarrow> bool"
  locks :: "lockid \<Rightarrow> spinlock"

section \<open>Operations\<close>

definition cpu_index :: "'z kcore_scheme \<Rightarrow> nat option" where
  "cpu_index s = find (\<lambda>i. apicid (cpus s ! i) = me s) [0..<ncpu s]"

definition mycpu :: "'z kcore_scheme \<Rightarrow> nat kres" where
  "mycpu s =
     (if iflag s (me s) then Panic ''mycpu called with interrupts enabled''
      else case cpu_index s of None \<Rightarrow> Panic ''unknown apicid'' | Some i \<Rightarrow> Ok i)"

definition cpuid :: "'z kcore_scheme \<Rightarrow> nat kres" where
  "cpuid s = mycpu s"

definition cli :: "'z kcore_scheme \<Rightarrow> 'z kcore_scheme" where
  "cli s = s\<lparr>iflag := (iflag s)(me s := False)\<rparr>"

definition sti :: "'z kcore_scheme \<Rightarrow> 'z kcore_scheme" where
  "sti s = s\<lparr>iflag := (iflag s)(me s := True)\<rparr>"

definition pushcli :: "'z kcore_scheme \<Rightarrow> 'z kcore_scheme kres" where
  "pushcli s =
     (let eflags = iflag s (me s); s1 = cli s in
      kbind (mycpu s1) (\<lambda>i.
        let c = cpus s1 ! i;
            c1 = (if ncli c = 0 then c\<lparr>intena := eflags\<rparr> else c)
        in Ok (s1\<lparr>cpus := (cpus s1)[i := c1\<lparr>ncli := ncli c1 + 1\<rparr>]\<rparr>)))"

definition popcli :: "'z kcore_scheme \<Rightarrow> 'z kcore_scheme kres" where
  "popcli s =
     (if iflag s (me s) then Panic ''popcli - interruptible''
      else kbind (mycpu s) (\<lambda>i.
        let c = (cpus s ! i)\<lparr>ncli := ncli (cpus s ! i) - 1\<rparr>;
            s1 = s\<lparr>cpus := (cpus s)[i := c]\<rparr>
        in if ncli c < 0 then Panic ''popcli''
           else if ncli c = 0 \<and> intena c then Ok (sti s1) else Ok s1))"

definition lk_held_by :: "spinlock \<Rightarrow> nat \<Rightarrow> bool" where
  "lk_held_by lk i \<longleftrightarrow> lk_locked lk \<and> lk_cpu lk = Some i"

definition holding :: "lockid \<Rightarrow> 'z kcore_scheme \<Rightarrow> (bool \<times> 'z kcore_scheme) kres" where
  "holding l s =
     kbind (pushcli s) (\<lambda>s1.
     kbind (if lk_locked (locks s1 l)
            then kbind (mycpu s1) (\<lambda>i. Ok (lk_held_by (locks s1 l) i)) else Ok False) (\<lambda>r.
     kbind (popcli s1) (\<lambda>s2. Ok (r, s2))))"

definition initlock :: "lockid \<Rightarrow> string \<Rightarrow> 'z kcore_scheme \<Rightarrow> 'z kcore_scheme" where
  "initlock l nm s =
     s\<lparr>locks := (locks s)(l := \<lparr>lk_locked = False, lk_name = nm, lk_cpu = None\<rparr>)\<rparr>"

definition acquire :: "lockid \<Rightarrow> 'z kcore_scheme \<Rightarrow> 'z kcore_scheme kres" where
  "acquire l s =
     kbind (pushcli s) (\<lambda>s1.
     kbind (holding l s1) (\<lambda>(h, s2).
     kbind (panic_if h ''acquire'') (\<lambda>_.
     if lk_locked (locks s2 l) then Spin
     else let s3 = s2\<lparr>locks := (locks s2)(l := (locks s2 l)\<lparr>lk_locked := True\<rparr>)\<rparr> in
       kbind (mycpu s3) (\<lambda>i.
       Ok (s3\<lparr>locks := (locks s3)(l := (locks s3 l)\<lparr>lk_cpu := Some i\<rparr>)\<rparr>)))))"

definition release :: "lockid \<Rightarrow> 'z kcore_scheme \<Rightarrow> 'z kcore_scheme kres" where
  "release l s =
     kbind (holding l s) (\<lambda>(h, s1).
     kbind (panic_if (\<not> h) ''release'') (\<lambda>_.
     let s2 = s1\<lparr>locks := (locks s1)(l := (locks s1 l)\<lparr>lk_cpu := None\<rparr>)\<rparr>;
         s3 = s2\<lparr>locks := (locks s2)(l := (locks s2 l)\<lparr>lk_locked := False\<rparr>)\<rparr>
     in popcli s3))"

section \<open>The protocol of several processors on one lock\<close>

text \<open>
  Where a processor is in \<^verbatim>\<open>acquire\<close>/\<^verbatim>\<open>release\<close>: outside; past the \<^verbatim>\<open>holding\<close> test and
  spinning on \<^verbatim>\<open>xchg\<close>; past a successful \<^verbatim>\<open>xchg\<close>; in the critical section (\<^verbatim>\<open>lk->cpu\<close>
  recorded); past \<^verbatim>\<open>lk->cpu = 0\<close> of \<^verbatim>\<open>release\<close>; stopped in \<^verbatim>\<open>panic\<close>.
\<close>

datatype lock_pc = Outside | Spinning | Won | Inside | Clearing | Panicked

record lock_sys =
  lpc :: "nat \<Rightarrow> lock_pc"
  lval :: spinlock

definition lock_sys_init :: lock_sys where
  "lock_sys_init =
     \<lparr>lpc = (\<lambda>_. Outside), lval = \<lparr>lk_locked = False, lk_name = [], lk_cpu = None\<rparr>\<rparr>"

inductive lock_step :: "lock_sys \<Rightarrow> lock_sys \<Rightarrow> bool" where
  acquire_check: "lpc t i = Outside \<Longrightarrow>
     lock_step t (t\<lparr>lpc := (lpc t)(i := if lk_held_by (lval t) i then Panicked else Spinning)\<rparr>)"
| acquire_xchg_busy: "lpc t i = Spinning \<Longrightarrow> lk_locked (lval t) \<Longrightarrow> lock_step t t"
| acquire_xchg_free: "lpc t i = Spinning \<Longrightarrow> \<not> lk_locked (lval t) \<Longrightarrow>
     lock_step t (t\<lparr>lpc := (lpc t)(i := Won), lval := (lval t)\<lparr>lk_locked := True\<rparr>\<rparr>)"
| acquire_owner: "lpc t i = Won \<Longrightarrow>
     lock_step t (t\<lparr>lpc := (lpc t)(i := Inside), lval := (lval t)\<lparr>lk_cpu := Some i\<rparr>\<rparr>)"
| release_clear: "lpc t i = Inside \<Longrightarrow> lk_held_by (lval t) i \<Longrightarrow>
     lock_step t (t\<lparr>lpc := (lpc t)(i := Clearing), lval := (lval t)\<lparr>lk_cpu := None\<rparr>\<rparr>)"
| release_panic: "lpc t i = Inside \<Longrightarrow> \<not> lk_held_by (lval t) i \<Longrightarrow>
     lock_step t (t\<lparr>lpc := (lpc t)(i := Panicked)\<rparr>)"
| release_store: "lpc t i = Clearing \<Longrightarrow>
     lock_step t (t\<lparr>lpc := (lpc t)(i := Outside), lval := (lval t)\<lparr>lk_locked := False\<rparr>\<rparr>)"

inductive lock_reach :: "lock_sys \<Rightarrow> bool" where
  lock_start: "lock_reach lock_sys_init"
| lock_next: "lock_reach t \<Longrightarrow> lock_step t u \<Longrightarrow> lock_reach u"

definition in_section :: "lock_pc \<Rightarrow> bool" where
  "in_section p \<longleftrightarrow> p = Won \<or> p = Inside \<or> p = Clearing"

section \<open>What acquire and release do\<close>

text \<open>
  \<open>lock_ready l s\<close>: the running processor is known, its nesting depth is consistent with
  its interrupt flag, and the lock is free.  \<open>lock_held l s\<close>: it holds the lock.  Under
  these, \<^verbatim>\<open>acquire\<close> and \<^verbatim>\<open>release\<close> are the total functions \<open>acq\<close> and \<open>rel\<close>.
\<close>

definition my_index :: "'z kcore_scheme \<Rightarrow> nat" where
  "my_index s = the (cpu_index s)"

definition depth :: "'z kcore_scheme \<Rightarrow> int" where
  "depth s = ncli (cpus s ! my_index s)"

definition cpu_ready :: "'z kcore_scheme \<Rightarrow> bool" where
  "cpu_ready s \<longleftrightarrow> cpu_index s \<noteq> None \<and> ncpu s \<le> length (cpus s) \<and> 0 \<le> depth s \<and>
     (0 < depth s \<longrightarrow> \<not> iflag s (me s))"

definition lock_ready :: "lockid \<Rightarrow> 'z kcore_scheme \<Rightarrow> bool" where
  "lock_ready l s \<longleftrightarrow> cpu_ready s \<and> \<not> lk_locked (locks s l)"

definition lock_held :: "lockid \<Rightarrow> 'z kcore_scheme \<Rightarrow> bool" where
  "lock_held l s \<longleftrightarrow> cpu_ready s \<and> 0 < depth s \<and> lk_held_by (locks s l) (my_index s)"

definition push :: "'z kcore_scheme \<Rightarrow> 'z kcore_scheme" where
  "push s =
     (let i = my_index s; c = cpus s ! i in
      s\<lparr>iflag := (iflag s)(me s := False),
        cpus := (cpus s)[i := c\<lparr>intena := if ncli c = 0 then iflag s (me s) else intena c,
                                 ncli := ncli c + 1\<rparr>]\<rparr>)"

definition pop :: "'z kcore_scheme \<Rightarrow> 'z kcore_scheme" where
  "pop s =
     (let i = my_index s; c = cpus s ! i in
      s\<lparr>iflag := (if ncli c = 1 \<and> intena c then (iflag s)(me s := True) else iflag s),
        cpus := (cpus s)[i := c\<lparr>ncli := ncli c - 1\<rparr>]\<rparr>)"

definition acq :: "lockid \<Rightarrow> 'z kcore_scheme \<Rightarrow> 'z kcore_scheme" where
  "acq l s =
     (push s)\<lparr>locks := (locks s)(l := (locks s l)\<lparr>lk_locked := True, lk_cpu := Some (my_index s)\<rparr>)\<rparr>"

definition rel :: "lockid \<Rightarrow> 'z kcore_scheme \<Rightarrow> 'z kcore_scheme" where
  "rel l s =
     pop (s\<lparr>locks := (locks s)(l := (locks s l)\<lparr>lk_cpu := None, lk_locked := False\<rparr>)\<rparr>)"

text \<open>No lock held anywhere and no nesting: the state between two system calls.\<close>

definition quiet :: "'z kcore_scheme \<Rightarrow> bool" where
  "quiet s \<longleftrightarrow> cpu_ready s \<and> depth s = 0 \<and> (\<forall>l. \<not> lk_locked (locks s l))"

lemma find_upt_cong:
  "(\<And>i. i < n \<Longrightarrow> P i = Q i) \<Longrightarrow> find P [0..<n] = find Q [0..<n]"
  by (rule find_cong) auto

lemma cpu_index_bound: "cpu_index s = Some i \<Longrightarrow> i < ncpu s"
  by (auto simp: cpu_index_def find_Some_iff)

lemma map_update_same: "(map f xs)[i := f (xs ! i)] = map f xs"
  by (metis list_update_id map_update)

lemma cpu_index_cong:
  assumes "map apicid (cpus t) = map apicid (cpus s)"
    and "ncpu t = ncpu s" and "me t = me s" and "ncpu s \<le> length (cpus s)"
  shows "cpu_index t = cpu_index s"
proof -
  have "length (cpus t) = length (cpus s)" using assms(1) by (metis length_map)
  then have "apicid (cpus t ! j) = apicid (cpus s ! j)" if "j < ncpu s" for j
    using assms that by (metis (no_types) le_trans nth_map linorder_not_le)
  then show ?thesis
    unfolding cpu_index_def using assms by (metis (mono_tags, lifting) find_upt_cong)
qed

lemma cpu_index_frame [simp]:
  "cpu_index (s\<lparr>locks := x\<rparr>) = cpu_index s"
  "cpu_index (s\<lparr>iflag := y\<rparr>) = cpu_index s"
  by (simp_all add: cpu_index_def)

lemma cpu_ready_bound: "cpu_ready s \<Longrightarrow> my_index s < length (cpus s)"
  using cpu_index_bound [of s] by (auto simp: cpu_ready_def my_index_def)

lemma cpu_ready_index: "cpu_ready s \<Longrightarrow> cpu_index s = Some (my_index s)"
  by (auto simp: cpu_ready_def my_index_def)

lemma mycpu_ok: "cpu_ready s \<Longrightarrow> \<not> iflag s (me s) \<Longrightarrow> mycpu s = Ok (my_index s)"
  by (simp add: mycpu_def cpu_ready_index)

lemma push_props:
  assumes "cpu_ready s"
  shows "cpu_ready (push s)" and "my_index (push s) = my_index s" and "depth (push s) = depth s + 1"
    and "me (push s) = me s" and "locks (push s) = locks s" and "\<not> iflag (push s) (me s)"
    and "kcore.more (push s) = kcore.more s"
proof -
  have idx: "cpu_index (push s) = cpu_index s"
    using assms
    by (intro cpu_index_cong) (simp_all add: push_def Let_def cpu_ready_def map_update map_update_same)
  then show mi: "my_index (push s) = my_index s" by (simp add: my_index_def)
  have sz: "ncpu (push s) = ncpu s" "length (cpus (push s)) = length (cpus s)"
    by (simp_all add: push_def Let_def)
  show d: "depth (push s) = depth s + 1"
    using cpu_ready_bound [OF assms] by (simp add: depth_def mi) (simp add: push_def Let_def)
  show "me (push s) = me s" "locks (push s) = locks s" "\<not> iflag (push s) (me s)"
    "kcore.more (push s) = kcore.more s"
    by (simp_all add: push_def Let_def)
  then show "cpu_ready (push s)"
    using assms d by (auto simp: cpu_ready_def idx sz)
qed

lemma pop_props:
  assumes "cpu_ready s" and "0 < depth s"
  shows "cpu_ready (pop s)" and "my_index (pop s) = my_index s" and "depth (pop s) = depth s - 1"
    and "me (pop s) = me s" and "locks (pop s) = locks s"
    and "kcore.more (pop s) = kcore.more s"
proof -
  have idx: "cpu_index (pop s) = cpu_index s"
    using assms
    by (intro cpu_index_cong) (simp_all add: pop_def Let_def cpu_ready_def map_update map_update_same)
  then show mi: "my_index (pop s) = my_index s" by (simp add: my_index_def)
  have sz: "ncpu (pop s) = ncpu s" "length (cpus (pop s)) = length (cpus s)"
    by (simp_all add: pop_def Let_def)
  show d: "depth (pop s) = depth s - 1"
    using cpu_ready_bound [OF assms(1)] by (simp add: depth_def mi) (simp add: pop_def Let_def)
  show m: "me (pop s) = me s" and "locks (pop s) = locks s"
    "kcore.more (pop s) = kcore.more s"
    by (simp_all add: pop_def Let_def)
  have "depth s \<noteq> 1 \<Longrightarrow> iflag (pop s) = iflag s"
    by (simp add: pop_def Let_def depth_def)
  then show "cpu_ready (pop s)"
    using assms d m by (auto simp: cpu_ready_def idx sz)
qed

lemma pushcli_ok: "cpu_ready s \<Longrightarrow> pushcli s = Ok (push s)"
  by (simp add: pushcli_def cli_def mycpu_def cpu_ready_index Let_def push_def)

lemma popcli_ok:
  assumes "cpu_ready s" and "0 < depth s"
  shows "popcli s = Ok (pop s)"
proof -
  have "\<not> iflag s (me s)" using assms by (simp add: cpu_ready_def)
  then show ?thesis
    using assms cpu_ready_bound [OF assms(1)]
    by (simp add: popcli_def mycpu_ok Let_def sti_def depth_def pop_def)
qed

lemma pop_push:
  assumes "cpu_ready s" and "0 < depth s"
  shows "pop (push s) = s"
proof -
  have "\<not> iflag s (me s)" using assms by (simp add: cpu_ready_def)
  then have "(iflag s)(me s := False) = iflag s" by (simp add: fun_upd_idem)
  then show ?thesis
    using assms cpu_ready_bound [OF assms(1)] push_props(2) [OF assms(1)]
    by (simp add: pop_def Let_def) (simp add: push_def Let_def depth_def)
qed

lemma holding_ok:
  assumes "cpu_ready s" and "0 < depth s"
  shows "holding l s = Ok (lk_held_by (locks s l) (my_index s), s)"
proof -
  note p = push_props [OF assms(1)]
  have "0 < depth (push s)" using p(3) assms(2) by simp
  then show ?thesis
    using assms p pop_push [OF assms]
    by (auto simp: holding_def pushcli_ok popcli_ok mycpu_ok lk_held_by_def)
qed

lemma acquire_ok:
  assumes "lock_ready l s"
  shows "acquire l s = Ok (acq l s)"
proof -
  from assms have r: "cpu_ready s" and f: "\<not> lk_locked (locks s l)"
    by (auto simp: lock_ready_def)
  note p = push_props [OF r]
  have "0 < depth (push s)" using p(3) r by (simp add: cpu_ready_def)
  then show ?thesis
    using f p r
    by (simp add: acquire_def pushcli_ok holding_ok lk_held_by_def mycpu_def cpu_ready_index
        Let_def acq_def)
qed

lemma release_ok:
  assumes "lock_held l s"
  shows "release l s = Ok (rel l s)"
proof -
  from assms have r: "cpu_ready s" and d: "0 < depth s" and h: "lk_held_by (locks s l) (my_index s)"
    by (auto simp: lock_held_def)
  let ?t = "s\<lparr>locks := (locks s)(l := (locks s l)\<lparr>lk_cpu := None, lk_locked := False\<rparr>)\<rparr>"
  have t: "cpu_ready ?t" "0 < depth ?t"
    using r d by (simp_all add: cpu_ready_def depth_def my_index_def)
  show ?thesis
    using h holding_ok [OF r d, of l] popcli_ok [OF t] by (simp add: release_def Let_def rel_def)
qed

lemma acquire_held_panics: "lock_held l s \<Longrightarrow> acquire l s = Panic ''acquire''"
  using push_props [of s]
  by (simp add: lock_held_def acquire_def pushcli_ok holding_ok)

lemma release_not_held_panics:
  "cpu_ready s \<Longrightarrow> 0 < depth s \<Longrightarrow> \<not> lk_held_by (locks s l) (my_index s) \<Longrightarrow>
     release l s = Panic ''release''"
  by (simp add: release_def holding_ok)

text \<open>Two states agree on processors and locks.\<close>

definition same_core :: "'z kcore_scheme \<Rightarrow> 'y kcore_scheme \<Rightarrow> bool" where
  "same_core s t \<longleftrightarrow> cpus s = cpus t \<and> ncpu s = ncpu t \<and> me s = me t \<and> iflag s = iflag t \<and>
     locks s = locks t"

lemma same_core_refl [simp]: "same_core s s"
  by (simp add: same_core_def)

lemma same_core_sym: "same_core s t \<Longrightarrow> same_core t s"
  by (simp add: same_core_def)

lemma same_core_trans: "same_core s t \<Longrightarrow> same_core t u \<Longrightarrow> same_core s u"
  by (simp add: same_core_def)

lemma same_coreD:
  assumes "same_core s t"
  shows "cpu_index s = cpu_index t" and "my_index s = my_index t" and "depth s = depth t"
    and "cpu_ready s = cpu_ready t" and "lock_ready l s = lock_ready l t"
    and "lock_held l s = lock_held l t" and "quiet s = quiet t"
proof -
  show idx: "cpu_index s = cpu_index t"
    using assms by (simp add: same_core_def cpu_index_def)
  then show mi: "my_index s = my_index t" by (simp add: my_index_def)
  then show d: "depth s = depth t"
    using assms by (simp add: same_core_def depth_def)
  show r: "cpu_ready s = cpu_ready t"
    using assms by (simp add: cpu_ready_def idx d) (simp add: same_core_def)
  show "lock_ready l s = lock_ready l t" "lock_held l s = lock_held l t" "quiet s = quiet t"
    using assms by (simp_all add: lock_ready_def lock_held_def quiet_def r d mi)
      (simp_all add: same_core_def)
qed

lemma acq_props:
  assumes "lock_ready l s"
  shows "cpu_ready (acq l s)" and "my_index (acq l s) = my_index s"
    and "depth (acq l s) = depth s + 1" and "me (acq l s) = me s"
    and "lock_held l (acq l s)" and "l' \<noteq> l \<Longrightarrow> locks (acq l s) l' = locks s l'"
    and "kcore.more (acq l s) = kcore.more s"
proof -
  have r: "cpu_ready s" using assms by (simp add: lock_ready_def)
  have c: "cpu_index (acq l s) = cpu_index (push s)" "cpus (acq l s) = cpus (push s)"
    "ncpu (acq l s) = ncpu (push s)" "iflag (acq l s) = iflag (push s)" "me (acq l s) = me (push s)"
    by (simp_all add: acq_def)
  note p = push_props [OF r]
  show mi: "my_index (acq l s) = my_index s"
    using c p(2) by (simp add: my_index_def)
  show d: "depth (acq l s) = depth s + 1"
    using c mi p(2,3) by (simp add: depth_def)
  show "me (acq l s) = me s" using c p(4) by simp
  show cr: "cpu_ready (acq l s)"
    using p(1) d p(3) by (simp add: cpu_ready_def c)
  show "lock_held l (acq l s)"
    using cr d r mi by (simp add: lock_held_def cpu_ready_def lk_held_by_def) (simp add: acq_def)
  show "l' \<noteq> l \<Longrightarrow> locks (acq l s) l' = locks s l'" "kcore.more (acq l s) = kcore.more s"
    using p(7) by (simp_all add: acq_def)
qed

lemma rel_props:
  assumes "lock_held l s"
  shows "cpu_ready (rel l s)" and "my_index (rel l s) = my_index s"
    and "depth (rel l s) = depth s - 1" and "me (rel l s) = me s"
    and "lock_ready l (rel l s)" and "l' \<noteq> l \<Longrightarrow> locks (rel l s) l' = locks s l'"
    and "kcore.more (rel l s) = kcore.more s"
proof -
  let ?t = "s\<lparr>locks := (locks s)(l := (locks s l)\<lparr>lk_cpu := None, lk_locked := False\<rparr>)\<rparr>"
  have d: "depth ?t = depth s" and mi: "my_index ?t = my_index s"
    by (simp_all add: depth_def my_index_def)
  have t: "cpu_ready ?t" "0 < depth ?t"
    using assms d by (simp_all add: lock_held_def cpu_ready_def)
  note p = pop_props [OF t]
  show "cpu_ready (rel l s)" "my_index (rel l s) = my_index s" "depth (rel l s) = depth s - 1"
    "me (rel l s) = me s" "kcore.more (rel l s) = kcore.more s"
    using p d mi by (simp_all add: rel_def)
  show "lock_ready l (rel l s)" "l' \<noteq> l \<Longrightarrow> locks (rel l s) l' = locks s l'"
    using p(1,5) by (simp_all add: lock_ready_def rel_def)
qed

text \<open>Nested locks: taking or dropping one lock leaves the state of the others.\<close>

lemma lock_ready_acq: "lock_ready l s \<Longrightarrow> lock_ready l' s \<Longrightarrow> l' \<noteq> l \<Longrightarrow> lock_ready l' (acq l s)"
  using acq_props [of l s] by (simp add: lock_ready_def)

lemma lock_held_acq: "lock_ready l s \<Longrightarrow> lock_held l' s \<Longrightarrow> l' \<noteq> l \<Longrightarrow> lock_held l' (acq l s)"
  using acq_props [of l s] by (simp add: lock_held_def)

lemma lock_ready_rel: "lock_held l s \<Longrightarrow> lock_ready l' s \<Longrightarrow> l' \<noteq> l \<Longrightarrow> lock_ready l' (rel l s)"
  using rel_props [of l s] by (simp add: lock_ready_def)

lemma lock_held_rel:
  "lock_held l s \<Longrightarrow> lock_held l' s \<Longrightarrow> l' \<noteq> l \<Longrightarrow> 1 < depth s \<Longrightarrow> lock_held l' (rel l s)"
  using rel_props [of l s] by (simp add: lock_held_def)

lemma quiet_ready: "quiet s \<Longrightarrow> lock_ready l s"
  by (simp add: quiet_def lock_ready_def)

section \<open>Critical sections\<close>

text \<open>\<open>with_lock l body\<close>: the shape \<^verbatim>\<open>acquire(l); body; release(l)\<close> of most kernel functions.\<close>

definition with_lock ::
  "lockid \<Rightarrow> ('z kcore_scheme \<Rightarrow> ('r \<times> 'z kcore_scheme) kres) \<Rightarrow> 'z kcore_scheme \<Rightarrow>
     ('r \<times> 'z kcore_scheme) kres" where
  "with_lock l body s =
     kbind (acquire l s) (\<lambda>s1. kbind (body s1) (\<lambda>(r, s2). kbind (release l s2) (\<lambda>s3. Ok (r, s3))))"

lemma with_lock_ok:
  assumes "lock_ready l s" and "body (acq l s) = Ok (r, t)" and "same_core t (acq l s)"
  shows "with_lock l body s = Ok (r, rel l t)"
proof -
  have "lock_held l t"
    using acq_props(5) [OF assms(1)] same_coreD(6) [OF assms(3)] by blast
  then show ?thesis
    using assms by (simp add: with_lock_def acquire_ok release_ok)
qed

lemma quiet_section:
  assumes "quiet s" and "same_core t (acq l s)"
  shows "quiet (rel l t)"
proof -
  have r: "lock_ready l s" using assms(1) by (rule quiet_ready)
  have h: "lock_held l t"
    using acq_props(5) [OF r] same_coreD(6) [OF assms(2)] by blast
  have d: "depth t = 1"
    using acq_props(3) [OF r] same_coreD(3) [OF assms(2)] assms(1) by (simp add: quiet_def)
  have "\<not> lk_locked (locks (rel l t) l')" for l'
  proof (cases "l' = l")
    case True
    then show ?thesis using rel_props(5) [OF h] by (simp add: lock_ready_def)
  next
    case False
    then show ?thesis
      using rel_props(6) [OF h] acq_props(6) [OF r] assms by (simp add: same_core_def quiet_def)
  qed
  then show ?thesis
    using rel_props(1,3) [OF h] d by (simp add: quiet_def)
qed

lemma with_lock_quiet:
  assumes "quiet s" and "body (acq l s) = Ok (r, t)" and "same_core t (acq l s)"
  shows "with_lock l body s = Ok (r, rel l t)" and "quiet (rel l t)"
  using assms by (simp_all add: with_lock_ok quiet_ready quiet_section)

lemma rel_acq_iflag:
  assumes "lock_ready l s"
  shows "iflag (rel l (acq l s)) = iflag s"
proof -
  have r: "cpu_ready s" using assms by (simp add: lock_ready_def)
  have mi: "my_index (acq l s) = my_index s" by (rule acq_props(2) [OF assms])
  have mi': "my_index ((acq l s)\<lparr>locks := x\<rparr>) = my_index s" for x
    using mi by (simp add: my_index_def)
  have c: "cpus (acq l s) ! my_index s = (let c = cpus s ! my_index s in
      c\<lparr>intena := if ncli c = 0 then iflag s (me s) else intena c, ncli := ncli c + 1\<rparr>)"
    using cpu_ready_bound [OF r] by (simp add: acq_def push_def Let_def)
  have f: "iflag (acq l s) = (iflag s)(me s := False)" "me (acq l s) = me s"
    by (simp_all add: acq_def push_def Let_def)
  have "iflag (rel l (acq l s)) p = iflag s p" for p
    using r f c by (auto simp: rel_def pop_def mi' Let_def cpu_ready_def depth_def)
  then show ?thesis by blast
qed

text \<open>A one-processor machine with all locks free.\<close>

definition core_ex :: kcore where
  "core_ex = \<lparr>cpus = [\<lparr>apicid = 0, ncli = 0, intena = False, cpu_proc = None\<rparr>], ncpu = 1, me = 0,
     iflag = (\<lambda>_. True), locks = (\<lambda>_. \<lparr>lk_locked = False, lk_name = [], lk_cpu = None\<rparr>)\<rparr>"

lemma core_ex_quiet: "quiet core_ex"
  by (simp add: quiet_def cpu_ready_def depth_def my_index_def cpu_index_def core_ex_def)

section \<open>The protocol is safe\<close>

text \<open>
  The invariant: the lock word is set exactly while some processor is past its \<^verbatim>\<open>xchg\<close> and
  before the store of \<^verbatim>\<open>release\<close>, that processor is unique, and \<^verbatim>\<open>lk->cpu\<close> names it exactly
  while it is in the critical section.
\<close>

definition lock_inv :: "lock_sys \<Rightarrow> nat option \<Rightarrow> bool" where
  "lock_inv t h \<longleftrightarrow>
     (lk_locked (lval t) \<longleftrightarrow> h \<noteq> None) \<and>
     (\<forall>i. in_section (lpc t i) \<longleftrightarrow> h = Some i) \<and>
     (\<forall>i. lk_cpu (lval t) = Some i \<longleftrightarrow> lpc t i = Inside) \<and>
     (\<forall>i. lpc t i \<noteq> Panicked)"

lemma in_section_simps [simp]:
  "in_section Won" "in_section Inside" "in_section Clearing"
  "\<not> in_section Outside" "\<not> in_section Spinning" "\<not> in_section Panicked"
  by (simp_all add: in_section_def)

lemma lock_inv_init: "lock_inv lock_sys_init None"
  by (simp add: lock_inv_def lock_sys_init_def)

lemma lock_inv_holder: "lock_inv t h \<Longrightarrow> in_section (lpc t i) \<Longrightarrow> h = Some i"
  by (simp add: lock_inv_def)

lemma lock_step_inv:
  assumes "lock_step t u" and "lock_inv t h"
  shows "\<exists>h'. lock_inv u h'"
  using assms
proof (induction rule: lock_step.induct)
  case (acquire_check t i)
  then have "lock_inv (t\<lparr>lpc := (lpc t)(i := Spinning)\<rparr>) h" and "\<not> lk_held_by (lval t) i"
    unfolding lock_inv_def lk_held_by_def by (auto split: if_splits dest: spec [of _ i])
  then show ?case by auto
next
  case (acquire_xchg_busy t i)
  then show ?case by auto
next
  case (acquire_xchg_free t i)
  then have "lock_inv (t\<lparr>lpc := (lpc t)(i := Won), lval := (lval t)\<lparr>lk_locked := True\<rparr>\<rparr>) (Some i)"
    unfolding lock_inv_def by auto
  then show ?case ..
next
  case (acquire_owner t i)
  then have "h = Some i" by (auto intro: lock_inv_holder)
  moreover have "lpc t j \<noteq> Inside" if "j \<noteq> i" for j
    using lock_inv_holder [OF acquire_owner.prems, of j] that \<open>h = Some i\<close> by auto
  ultimately
  have "lock_inv (t\<lparr>lpc := (lpc t)(i := Inside), lval := (lval t)\<lparr>lk_cpu := Some i\<rparr>\<rparr>) (Some i)"
    using acquire_owner unfolding lock_inv_def by auto
  then show ?case ..
next
  case (release_clear t i)
  then have "h = Some i" by (auto intro: lock_inv_holder)
  with release_clear
  have "lock_inv (t\<lparr>lpc := (lpc t)(i := Clearing), lval := (lval t)\<lparr>lk_cpu := None\<rparr>\<rparr>) (Some i)"
    unfolding lock_inv_def by auto
  then show ?case ..
next
  case (release_panic t i)
  then have "lk_held_by (lval t) i"
    using lock_inv_holder [of t h i] by (simp add: lock_inv_def lk_held_by_def)
  with release_panic show ?case by simp
next
  case (release_store t i)
  then have "h = Some i" by (auto intro: lock_inv_holder)
  with release_store
  have "lock_inv (t\<lparr>lpc := (lpc t)(i := Outside), lval := (lval t)\<lparr>lk_locked := False\<rparr>\<rparr>) None"
    unfolding lock_inv_def by auto
  then show ?case ..
qed

lemma lock_reach_inv: "lock_reach t \<Longrightarrow> \<exists>h. lock_inv t h"
  by (induction rule: lock_reach.induct) (blast intro: lock_inv_init lock_step_inv)+

text \<open>A run: processor 0 takes the lock, processor 1 starts to spin on it.\<close>

definition lock_sys_ex :: lock_sys where
  "lock_sys_ex = \<lparr>lpc = ((\<lambda>_. Outside)(0 := Inside))(1 := Spinning),
     lval = \<lparr>lk_locked = True, lk_name = [], lk_cpu = Some 0\<rparr>\<rparr>"

lemma lock_sys_ex_reach: "lock_reach lock_sys_ex"
proof -
  let ?f = "\<lparr>lk_locked = False, lk_name = [], lk_cpu = None\<rparr>"
  have "lock_reach \<lparr>lpc = (\<lambda>_. Outside)(0 := Spinning), lval = ?f\<rparr>"
    using lock_next [OF lock_start acquire_check [of lock_sys_init 0]]
    by (simp add: lock_sys_init_def lk_held_by_def)
  from lock_next [OF this acquire_xchg_free [of _ 0]]
  have "lock_reach \<lparr>lpc = (\<lambda>_. Outside)(0 := Won), lval = ?f\<lparr>lk_locked := True\<rparr>\<rparr>" by simp
  from lock_next [OF this acquire_owner [of _ 0]]
  have "lock_reach \<lparr>lpc = (\<lambda>_. Outside)(0 := Inside),
      lval = \<lparr>lk_locked = True, lk_name = [], lk_cpu = Some 0\<rparr>\<rparr>" by simp
  from lock_next [OF this acquire_check [of _ 1]]
  show ?thesis by (simp add: lk_held_by_def lock_sys_ex_def)
qed

text \<open>Nested \<^verbatim>\<open>pushcli\<close> and \<^verbatim>\<open>popcli\<close>: only the outermost pair matters.\<close>

lemma pushcli_loop:
  assumes "cpu_ready s"
  shows "\<exists>t. foldk (\<lambda>_. pushcli) (replicate n ()) s = Ok t \<and> cpu_ready t \<and> depth t = depth s + int n \<and>
     me t = me s \<and> (\<forall>p. p \<noteq> me s \<longrightarrow> iflag t p = iflag s p) \<and>
     (n = 0 \<longrightarrow> t = s) \<and>
     (0 < n \<longrightarrow> \<not> iflag t (me s) \<and>
        intena (cpus t ! my_index t) = (if depth s = 0 then iflag s (me s) else intena (cpus s ! my_index s)))"
  using assms
proof (induction n arbitrary: s)
  case 0
  then show ?case by simp
next
  case (Suc n)
  note p = push_props [OF Suc.prems]
  have i: "intena (cpus (push s) ! my_index (push s)) =
      (if depth s = 0 then iflag s (me s) else intena (cpus s ! my_index s))"
    using cpu_ready_bound [OF Suc.prems] p(2) by (simp add: depth_def) (simp add: push_def Let_def)
  have o: "iflag (push s) q = iflag s q" if "q \<noteq> me s" for q
    using that by (simp add: push_def Let_def)
  have d: "depth (push s) \<noteq> 0" using p(3) Suc.prems by (simp add: cpu_ready_def)
  obtain t where "foldk (\<lambda>_. pushcli) (replicate n ()) (push s) = Ok t" "cpu_ready t"
    "depth t = depth (push s) + int n" "me t = me (push s)"
    "\<forall>q. q \<noteq> me (push s) \<longrightarrow> iflag t q = iflag (push s) q" "n = 0 \<longrightarrow> t = push s"
    "0 < n \<longrightarrow> \<not> iflag t (me (push s)) \<and> intena (cpus t ! my_index t) =
       intena (cpus (push s) ! my_index (push s))"
    using Suc.IH [OF p(1)] d by auto
  then show ?case
    using p i o Suc.prems by (cases "n = 0") (auto simp: pushcli_ok)
qed

lemma popcli_loop:
  assumes "cpu_ready t" and "int n \<le> depth t"
  shows "\<exists>u. foldk (\<lambda>_. popcli) (replicate n ()) t = Ok u \<and> depth u = depth t - int n \<and>
     iflag u = (if 0 < n \<and> depth t = int n \<and> intena (cpus t ! my_index t)
                then (iflag t)(me t := True) else iflag t)"
  using assms
proof (induction n arbitrary: t)
  case 0
  then show ?case by simp
next
  case (Suc n)
  have d: "0 < depth t" using Suc.prems by simp
  note p = pop_props [OF Suc.prems(1) d]
  have f: "iflag (pop t) = (if depth t = 1 \<and> intena (cpus t ! my_index t)
      then (iflag t)(me t := True) else iflag t)"
    by (simp add: pop_def Let_def depth_def)
  have i: "intena (cpus (pop t) ! my_index (pop t)) = intena (cpus t ! my_index t)"
    using cpu_ready_bound [OF Suc.prems(1)] p(2) by simp (simp add: pop_def Let_def)
  show ?case
    using Suc.IH [OF p(1)] Suc.prems p(3,4) f i d by (auto simp: popcli_ok)
qed

section \<open>Properties\<close>

text \<open>C5: Mutual exclusion of the spin lock.  In every state that processors running
  \<^verbatim>\<open>acquire\<close> and \<^verbatim>\<open>release\<close> can reach, interleaved at every memory access, at most one of them
  is between a successful \<^verbatim>\<open>xchg\<close> and the clearing store, and the checks of \<^verbatim>\<open>holding\<close> never
  make one of them panic.\<close>

theorem lock_mutual_exclusion:
  assumes "lock_reach t"
  shows "lpc t i \<noteq> Panicked \<and> (in_section (lpc t i) \<and> in_section (lpc t j) \<longrightarrow> i = j)"
  using lock_reach_inv [OF assms] by (auto simp: lock_inv_def)

theorem lock_mutual_exclusion_witness:
  "lock_reach lock_sys_ex \<and> in_section (lpc lock_sys_ex 0) \<and> \<not> in_section (lpc lock_sys_ex 1) \<and>
   lpc lock_sys_ex 1 \<noteq> Panicked"
  using lock_mutual_exclusion [OF lock_sys_ex_reach, of 0 1]
    lock_mutual_exclusion [OF lock_sys_ex_reach, of 1 1] lock_sys_ex_reach
  by (simp add: lock_sys_ex_def)



text \<open>C17: \<^verbatim>\<open>acquire\<close> and \<^verbatim>\<open>release\<close> bracket.  From a state with no lock held, \<^verbatim>\<open>acquire\<close> returns
  holding the lock with interrupts off, a second \<^verbatim>\<open>acquire\<close> panics, and \<^verbatim>\<open>release\<close> returns to a
  state with no lock held, the same interrupt flags and everything outside the locks
  unchanged.\<close>

theorem acquire_release_bracket:
  assumes "quiet s"
  shows "\<exists>s1 s2. acquire l s = Ok s1 \<and> holding l s1 = Ok (True, s1) \<and> \<not> iflag s1 (me s) \<and>
     acquire l s1 = Panic ''acquire'' \<and> release l s1 = Ok s2 \<and> quiet s2 \<and>
     iflag s2 = iflag s \<and> kcore.more s2 = kcore.more s"
proof -
  have r: "lock_ready l s" using assms by (rule quiet_ready)
  note a = acq_props [OF r]
  have h: "lock_held l (acq l s)" by (rule a(5))
  have "holding l (acq l s) = Ok (True, acq l s)"
    using h by (simp add: lock_held_def holding_ok)
  moreover have "\<not> iflag (acq l s) (me s)"
    using h a(4) by (simp add: lock_held_def cpu_ready_def)
  moreover have "quiet (rel l (acq l s))"
    using assms by (rule quiet_section) simp
  ultimately show ?thesis
    using acquire_ok [OF r] acquire_held_panics [OF h] release_ok [OF h] rel_acq_iflag [OF r]
      rel_props(7) [OF h] a(7) by auto
qed

theorem acquire_release_bracket_witness:
  "quiet core_ex \<and> (\<exists>s1 s2. acquire PtableLock core_ex = Ok s1 \<and>
     holding PtableLock s1 = Ok (True, s1) \<and> \<not> iflag s1 0 \<and>
     acquire PtableLock s1 = Panic ''acquire'' \<and> release PtableLock s1 = Ok s2 \<and> quiet s2 \<and>
     iflag s2 = iflag core_ex)"
  using core_ex_quiet acquire_release_bracket [OF core_ex_quiet, of PtableLock]
  by (auto simp: core_ex_def)

end
