(* ===== verification/Kmemory.thy ===== *)
theory Kmemory
  imports Xv6_Prelude
begin

unbundle bit_operations_syntax

text \<open>
  Byte-addressed memory and the routines of \<^verbatim>\<open>string.c\<close> on it.

  Memory is a function from 32-bit addresses to bytes.  \<open>load32\<close> and \<open>store32\<close> are the
  little-endian word accesses of the processor, \<open>stosb\<close> and \<open>stosl\<close> the string instructions
  of \<^verbatim>\<open>x86.h\<close>.  The C loops are recursive functions over the remaining count; \<^verbatim>\<open>strlen\<close>, which
  runs until it meets a NUL, is a \<^theory_text>\<open>partial_function\<close>.
\<close>

section \<open>Memory\<close>

type_synonym addr = "32 word"
type_synonym byte = "8 word"
type_synonym memory = "32 word \<Rightarrow> 8 word"

definition load32 :: "memory \<Rightarrow> addr \<Rightarrow> 32 word" where
  "load32 m a =
     (ucast (m a) :: 32 word) OR push_bit 8 (ucast (m (a + 1))) OR
     push_bit 16 (ucast (m (a + 2))) OR push_bit 24 (ucast (m (a + 3)))"

definition store32 :: "memory \<Rightarrow> addr \<Rightarrow> 32 word \<Rightarrow> memory" where
  "store32 m a v =
     m(a := ucast v, a + 1 := ucast (drop_bit 8 v), a + 2 := ucast (drop_bit 16 v),
       a + 3 := ucast (drop_bit 24 v))"

definition bytes_at :: "memory \<Rightarrow> addr \<Rightarrow> nat \<Rightarrow> byte list" where
  "bytes_at m a n = map (\<lambda>i. m (a + of_nat i)) [0..<n]"

text \<open>The string instructions behind \<^verbatim>\<open>stosb\<close> and \<^verbatim>\<open>stosl\<close> of \<^verbatim>\<open>x86.h\<close>.\<close>

fun stosb :: "memory \<Rightarrow> addr \<Rightarrow> byte \<Rightarrow> nat \<Rightarrow> memory" where
  "stosb m d c 0 = m"
| "stosb m d c (Suc n) = stosb (m(d := c)) (d + 1) c n"

fun stosl :: "memory \<Rightarrow> addr \<Rightarrow> 32 word \<Rightarrow> nat \<Rightarrow> memory" where
  "stosl m d v 0 = m"
| "stosl m d v (Suc n) = stosl (store32 m d v) (d + 4) v n"

section \<open>string.c\<close>

definition memset :: "memory \<Rightarrow> addr \<Rightarrow> 32 word \<Rightarrow> 32 word \<Rightarrow> memory" where
  "memset m dst c n =
     (if unat dst mod 4 = 0 \<and> unat n mod 4 = 0 then
        let c1 = c AND 0xFF in
        stosl m dst (push_bit 24 c1 OR push_bit 16 c1 OR push_bit 8 c1 OR c1) (unat n div 4)
      else stosb m dst (ucast c) (unat n))"

fun memcmp :: "memory \<Rightarrow> addr \<Rightarrow> addr \<Rightarrow> nat \<Rightarrow> int" where
  "memcmp m s1 s2 0 = 0"
| "memcmp m s1 s2 (Suc n) =
     (if m s1 \<noteq> m s2 then uint (m s1) - uint (m s2) else memcmp m (s1 + 1) (s2 + 1) n)"

text \<open>The two loops of \<^verbatim>\<open>memmove\<close>: \<^verbatim>\<open>*--d = *--s\<close> and \<^verbatim>\<open>*d++ = *s++\<close>.\<close>

fun copy_down :: "memory \<Rightarrow> addr \<Rightarrow> addr \<Rightarrow> nat \<Rightarrow> memory" where
  "copy_down m d s 0 = m"
| "copy_down m d s (Suc n) = copy_down (m(d - 1 := m (s - 1))) (d - 1) (s - 1) n"

fun copy_up :: "memory \<Rightarrow> addr \<Rightarrow> addr \<Rightarrow> nat \<Rightarrow> memory" where
  "copy_up m d s 0 = m"
| "copy_up m d s (Suc n) = copy_up (m(d := m s)) (d + 1) (s + 1) n"

definition memmove :: "memory \<Rightarrow> addr \<Rightarrow> addr \<Rightarrow> 32 word \<Rightarrow> memory" where
  "memmove m dst src n =
     (if src < dst \<and> dst < src + n then copy_down m (dst + n) (src + n) (unat n)
      else copy_up m dst src (unat n))"

definition memcpy :: "memory \<Rightarrow> addr \<Rightarrow> addr \<Rightarrow> 32 word \<Rightarrow> memory" where
  "memcpy m dst src n = memmove m dst src n"

fun strncmp :: "memory \<Rightarrow> addr \<Rightarrow> addr \<Rightarrow> nat \<Rightarrow> int" where
  "strncmp m p q 0 = 0"
| "strncmp m p q (Suc n) =
     (if m p \<noteq> 0 \<and> m p = m q then strncmp m (p + 1) (q + 1) n
      else uint (m p) - uint (m q))"

text \<open>\<^verbatim>\<open>strncpy\<close>: copy up to and including a NUL, then pad with NULs (the second loop).\<close>

fun strncpy_loop :: "memory \<Rightarrow> addr \<Rightarrow> addr \<Rightarrow> nat \<Rightarrow> memory" where
  "strncpy_loop m s t 0 = m"
| "strncpy_loop m s t (Suc n) =
     (let m1 = m(s := m t) in
      if m t \<noteq> 0 then strncpy_loop m1 (s + 1) (t + 1) n else stosb m1 (s + 1) 0 n)"

definition strncpy :: "memory \<Rightarrow> addr \<Rightarrow> addr \<Rightarrow> int \<Rightarrow> memory" where
  "strncpy m s t n = strncpy_loop m s t (nat n)"

text \<open>\<^verbatim>\<open>safestrcpy\<close>: the loop runs with \<open>n - 1\<close>, then \<^verbatim>\<open>*s = 0\<close>.\<close>

fun safestrcpy_loop :: "memory \<Rightarrow> addr \<Rightarrow> addr \<Rightarrow> nat \<Rightarrow> memory" where
  "safestrcpy_loop m s t 0 = m(s := 0)"
| "safestrcpy_loop m s t (Suc n) =
     (let m1 = m(s := m t) in
      if m t \<noteq> 0 then safestrcpy_loop m1 (s + 1) (t + 1) n else m1(s + 1 := 0))"

definition safestrcpy :: "memory \<Rightarrow> addr \<Rightarrow> addr \<Rightarrow> int \<Rightarrow> memory" where
  "safestrcpy m s t n = (if n \<le> 0 then m else safestrcpy_loop m s t (nat (n - 1)))"

partial_function (option) strlen_loop :: "memory \<Rightarrow> addr \<Rightarrow> nat \<Rightarrow> nat option" where
  "strlen_loop m s n = (if m (s + of_nat n) = 0 then Some n else strlen_loop m s (Suc n))"

definition strlen :: "memory \<Rightarrow> addr \<Rightarrow> nat option" where
  "strlen m s = strlen_loop m s 0"

section \<open>Word accesses\<close>

lemma bytes_at_simps [simp]:
  "bytes_at m a 0 = []"
  "bytes_at m a (Suc n) = m a # bytes_at m (a + 1) n"
  by (simp_all add: bytes_at_def upt_conv_Cons map_Suc_upt [symmetric] algebra_simps del: upt_Suc)

lemma length_bytes_at [simp]: "length (bytes_at m a n) = n"
  by (simp add: bytes_at_def)

lemma three_neq_zero: "(3 :: 32 word) \<noteq> 0"
proof
  assume "(3 :: 32 word) = 0"
  then have "uint (3 :: 32 word) = uint (0 :: 32 word)" by (rule arg_cong)
  then show False by simp
qed

lemma addr_offsets_distinct [simp]:
  "a + 1 \<noteq> a" "a + 2 \<noteq> a" "a + 3 \<noteq> a" "a + 2 \<noteq> a + 1" "a + 3 \<noteq> a + 1" "a + 3 \<noteq> a + 2"
  "a \<noteq> a + 1" "a \<noteq> a + 2" "a \<noteq> a + 3" "a + 1 \<noteq> a + 2" "a + 1 \<noteq> a + 3" "a + 2 \<noteq> a + 3"
  for a :: addr
  using three_neq_zero by (simp_all add: algebra_simps)

lemma load32_store32_same [simp]: "load32 (store32 m a v) a = v"
proof (rule bit_word_eqI)
  fix n :: nat
  assume "n < LENGTH(32)"
  then have "n < 32" by simp
  then consider "n < 8" | "8 \<le> n" "n < 16" | "16 \<le> n" "n < 24" | "24 \<le> n" "n < 32" by linarith
  then show "bit (load32 (store32 m a v) a) n = bit v n"
    by cases (auto simp: load32_def store32_def bit_simps)
qed

text \<open>Word-aligned accesses at different addresses do not overlap.\<close>

lemma uint_aligned_offset:
  fixes a :: addr
  assumes "4 dvd uint a" and "0 \<le> k" and "k < 4"
  shows "uint (a + word_of_int k) = uint a + k"
proof -
  have "uint a < 2 ^ 32" using uint_bounded [of a] by simp
  moreover have "(4 :: int) dvd 2 ^ 32" by simp
  ultimately have "uint a + k < 2 ^ 32" using assms by presburger
  then show ?thesis
    using assms by (simp add: uint_word_ariths uint_word_of_int mod_add_right_eq)
qed

lemma aligned_bytes_disjoint:
  fixes a b :: addr
  assumes "4 dvd uint a" and "4 dvd uint b" and "a \<noteq> b"
    and "0 \<le> j" "j < 4" "0 \<le> k" "k < 4"
  shows "a + word_of_int j \<noteq> b + word_of_int k"
proof
  assume "a + word_of_int j = b + word_of_int k"
  then have "uint a + j = uint b + k"
    using assms by (metis uint_aligned_offset)
  then have "uint a = uint b" using assms by presburger
  then show False using assms(3) by (simp add: word_uint_eq_iff)
qed

lemma load32_store32_other [simp]:
  assumes "4 dvd uint a" and "4 dvd uint b" and "a \<noteq> b"
  shows "load32 (store32 m a v) b = load32 m b"
proof -
  have d: "a + word_of_int j \<noteq> b + word_of_int k" if "j \<in> {0..3}" "k \<in> {0..3}" for j k
    using aligned_bytes_disjoint [OF assms, of j k] that by auto
  have "store32 m a v (b + word_of_int k) = m (b + word_of_int k)" if "k \<in> {0..3}" for k
    using d [of 0 k] d [of 1 k] d [of 2 k] d [of 3 k] that by (simp add: store32_def)
  from this [of 0] this [of 1] this [of 2] this [of 3] show ?thesis
    by (simp add: load32_def)
qed

section \<open>Block operations\<close>

lemma unat_bound32: "unat w < 2 ^ 32" for w :: addr
  using unsigned_less [where 'a = nat, of w] by simp

text \<open>\<open>within a n x\<close>: address \<open>x\<close> is one of the \<open>n\<close> bytes from \<open>a\<close>.\<close>

definition within :: "addr \<Rightarrow> nat \<Rightarrow> addr \<Rightarrow> bool" where
  "within a n x \<longleftrightarrow> unat (x - a) < n"

lemma within_0 [simp]: "\<not> within a 0 x"
  by (simp add: within_def)

lemma within_Suc:
  assumes "n < 2 ^ 32"
  shows "within a (Suc n) x \<longleftrightarrow> x = a \<or> within (a + 1) n x"
proof (cases "x = a")
  case True
  then show ?thesis by (simp add: within_def)
next
  case False
  then have "x - a \<noteq> 0" by simp
  then have "unat (x - a - 1) = unat (x - a) - 1" and "unat (x - a) \<noteq> 0"
    by (simp_all add: unat_minus_one unat_eq_0)
  then show ?thesis
    using False by (auto simp: within_def algebra_simps)
qed

lemma stosb_fill:
  "n \<le> 2 ^ 32 \<Longrightarrow> stosb m d c n = (\<lambda>x. if within d n x then c else m x)"
proof (induction n arbitrary: m d)
  case 0
  then show ?case by simp
next
  case (Suc n)
  then show ?case by (auto simp: within_Suc fun_eq_iff)
qed

lemma stosb_add: "stosb m d c (j + k) = stosb (stosb m d c j) (d + of_nat j) c k"
  by (induction j arbitrary: m d) (simp_all add: algebra_simps)

lemma stosb_Suc: "stosb m d c (Suc n) = stosb (m(d := c)) (d + 1) c n"
  by simp

lemma FF_mask: "(0xFF :: 32 word) = mask 8"
  by (simp add: mask_eq_exp_minus_1)

lemma splat_bytes:
  fixes c :: "32 word"
  defines "v \<equiv> push_bit 24 (c AND 0xFF) OR push_bit 16 (c AND 0xFF) OR push_bit 8 (c AND 0xFF) OR (c AND 0xFF)"
  shows "(ucast v :: byte) = ucast c" and "(ucast (drop_bit 8 v) :: byte) = ucast c"
    and "(ucast (drop_bit 16 v) :: byte) = ucast c" and "(ucast (drop_bit 24 v) :: byte) = ucast c"
  unfolding v_def FF_mask by (rule bit_word_eqI; auto simp: bit_simps)+

lemma stosl_stosb:
  assumes "(ucast v :: byte) = c" "(ucast (drop_bit 8 v) :: byte) = c"
    "(ucast (drop_bit 16 v) :: byte) = c" "(ucast (drop_bit 24 v) :: byte) = c"
  shows "stosl m d v n = stosb m d c (4 * n)"
proof (induction n arbitrary: m d)
  case 0
  then show ?case by simp
next
  case (Suc n)
  have four: "(4::nat) = Suc (Suc (Suc (Suc 0)))" by simp
  have "store32 m d v = stosb m d c 4"
    using assms by (simp add: store32_def four algebra_simps)
  then show ?case
    using Suc.IH stosb_add [of m d c 4 "4 * n"] by simp
qed

lemma memset_fill:
  "memset m dst c n = (\<lambda>x. if within dst (unat n) x then ucast c else m x)"
proof -
  have b: "unat n \<le> 2 ^ 32" using unat_bound32 [of n] by simp
  have "stosl m dst (push_bit 24 (c AND 0xFF) OR push_bit 16 (c AND 0xFF) OR push_bit 8 (c AND 0xFF) OR
      (c AND 0xFF)) (unat n div 4) = stosb m dst (ucast c) (4 * (unat n div 4))"
    by (rule stosl_stosb) (rule splat_bytes)+
  then have "memset m dst c n = stosb m dst (ucast c) (unat n)"
    by (auto simp: memset_def Let_def)
  then show ?thesis using stosb_fill [OF b] by simp
qed

lemma unat_offset: "unat a + k < 2 ^ 32 \<Longrightarrow> unat (a + of_nat k) = unat a + k"
  for a :: addr
  by (simp add: unat_word_ariths unat_of_nat)

lemma within_obtain:
  assumes "within a n x"
  obtains k where "k < n" and "x = a + of_nat k" and "k < 2 ^ 32"
proof
  show "unat (x - a) < n" using assms by (simp add: within_def)
  show "x = a + of_nat (unat (x - a))" by simp
  show "unat (x - a) < 2 ^ 32" by (rule unat_bound32)
qed

lemma within_offset: "k < 2 ^ 32 \<Longrightarrow> within a n (a + of_nat k) \<longleftrightarrow> k < n"
  by (simp add: within_def unat_of_nat)

lemma within_Suc_last:
  assumes "n < 2 ^ 32"
  shows "within a (Suc n) x \<longleftrightarrow> within a n x \<or> x = a + of_nat n"
proof -
  have "x = a + of_nat n \<longleftrightarrow> unat (x - a) = n"
  proof
    assume "unat (x - a) = n"
    then have "x - a = of_nat n" by auto
    then show "x = a + of_nat n" by (simp add: algebra_simps)
  next
    assume "x = a + of_nat n"
    then show "unat (x - a) = n" using assms by (simp add: unat_of_nat)
  qed
  then show ?thesis by (auto simp: within_def)
qed

lemma copy_up_correct:
  assumes "unat s + n \<le> 2 ^ 32" and "unat d + n \<le> 2 ^ 32"
    and "unat d \<le> unat s \<or> unat s + n \<le> unat d"
  shows "copy_up m d s n = (\<lambda>x. if within d n x then m (s + (x - d)) else m x)"
  using assms
proof (induction n arbitrary: m d s)
  case 0
  then show ?case by simp
next
  case (Suc n)
  show ?case
  proof (cases "n = 0")
    case True
    then show ?thesis by (auto simp: within_Suc)
  next
    case False
    have s1: "unat (s + 1) = unat s + 1" and d1: "unat (d + 1) = unat d + 1"
      using unat_offset [of s 1] unat_offset [of d 1] Suc.prems(1,2) False by simp_all
    let ?m = "m(d := m s)"
    have IH: "copy_up ?m (d + 1) (s + 1) n =
        (\<lambda>x. if within (d + 1) n x then ?m (s + 1 + (x - (d + 1))) else ?m x)"
      using Suc.prems s1 d1 by (intro Suc.IH) auto
    have ne: "s + (x - d) \<noteq> d" if w: "within (d + 1) n x" for x
    proof -
      obtain k where k: "k < n" "x = d + 1 + of_nat k" using w by (rule within_obtain)
      have "unat (s + of_nat (Suc k)) = unat s + Suc k"
        using k(1) Suc.prems(1) by (intro unat_offset) simp
      moreover have "s + (x - d) = s + of_nat (Suc k)" using k(2) by simp
      ultimately show ?thesis
        using Suc.prems(3) k(1) by auto
    qed
    have "n < 2 ^ 32" using Suc.prems(1) by simp
    then show ?thesis
      using IH ne by (auto simp: within_Suc fun_eq_iff)
  qed
qed

lemma copy_down_correct:
  assumes "unat s + n \<le> 2 ^ 32" and "unat d + n \<le> 2 ^ 32" and "unat s < unat d"
  shows "copy_down m (d + of_nat n) (s + of_nat n) n =
     (\<lambda>x. if within d n x then m (s + (x - d)) else m x)"
  using assms
proof (induction n arbitrary: m)
  case 0
  then show ?case by simp
next
  case (Suc n)
  let ?m = "m(d + of_nat n := m (s + of_nat n))"
  have IH: "copy_down ?m (d + of_nat n) (s + of_nat n) n =
      (\<lambda>x. if within d n x then ?m (s + (x - d)) else ?m x)"
    using Suc.prems by (intro Suc.IH) auto
  have step: "copy_down m (d + of_nat (Suc n)) (s + of_nat (Suc n)) (Suc n) =
      copy_down ?m (d + of_nat n) (s + of_nat n) n"
    by (simp add: algebra_simps)
  have ne: "s + (x - d) \<noteq> d + of_nat n" if w: "within d n x" for x
  proof -
    obtain k where k: "k < n" "x = d + of_nat k" using w by (rule within_obtain)
    have "unat (s + of_nat k) = unat s + k" "unat (d + of_nat n) = unat d + n"
      using k(1) Suc.prems(1,2) by (simp_all add: unat_offset)
    moreover have "s + (x - d) = s + of_nat k" using k(2) by simp
    ultimately show ?thesis using k(1) Suc.prems(3) by (metis add_less_mono less_irrefl)
  qed
  have n: "n < 2 ^ 32" using Suc.prems(1) by simp
  have "\<not> within d n (d + of_nat n)" using n by (simp add: within_offset)
  then show ?case
    unfolding step IH using ne n by (auto simp: within_Suc_last fun_eq_iff)
qed

text \<open>\<open>memmove\<close> moves the block as it was before the call, also when the two areas overlap.\<close>

lemma memmove_correct:
  assumes "unat src + unat n < 2 ^ 32" and "unat dst + unat n < 2 ^ 32"
  shows "memmove m dst src n = (\<lambda>x. if within dst (unat n) x then m (src + (x - dst)) else m x)"
proof -
  have sn: "unat (src + n) = unat src + unat n"
    using unat_offset [of src "unat n"] assms(1) by simp
  show ?thesis
  proof (cases "src < dst \<and> dst < src + n")
    case True
    then have lt: "unat src < unat dst" by (simp add: word_less_nat_alt)
    show ?thesis
      using True copy_down_correct [of src "unat n" dst m] assms lt by (simp add: memmove_def)
  next
    case False
    then have "unat dst \<le> unat src \<or> unat src + unat n \<le> unat dst"
      using sn by (auto simp: word_less_nat_alt)
    then show ?thesis
      using False copy_up_correct [of src "unat n" dst m] assms by (auto simp: memmove_def)
  qed
qed

lemma memcmp_zero_iff: "memcmp m s1 s2 n = 0 \<longleftrightarrow> bytes_at m s1 n = bytes_at m s2 n"
  by (induction n arbitrary: s1 s2) (auto simp: word_uint_eq_iff)

lemma strncmp_zero_iff:
  "strncmp m p q n = 0 \<longleftrightarrow>
     takeWhile (\<lambda>c. c \<noteq> 0) (bytes_at m p n) = takeWhile (\<lambda>c. c \<noteq> 0) (bytes_at m q n)"
  by (induction n arbitrary: p q) (auto simp: word_uint_eq_iff)

section \<open>Strings\<close>

lemma bytes_at_cong:
  assumes "\<And>k. k < n \<Longrightarrow> m (a + of_nat k) = m' (a + of_nat k)"
  shows "bytes_at m a n = bytes_at m' a n"
  using assms by (simp add: bytes_at_def)

lemma bytes_at_upd_outside: "\<not> within a n x \<Longrightarrow> n \<le> 2 ^ 32 \<Longrightarrow> bytes_at (m(x := v)) a n = bytes_at m a n"
  by (rule bytes_at_cong) (auto simp: within_offset)

lemma bytes_at_fill: "n \<le> 2 ^ 32 \<Longrightarrow> bytes_at (stosb m a c n) a n = replicate n c"
  by (rule nth_equalityI) (simp_all add: stosb_fill bytes_at_def within_offset)

text \<open>Two areas of \<open>n\<close> bytes without a common byte.\<close>

definition disjoint_areas :: "addr \<Rightarrow> addr \<Rightarrow> nat \<Rightarrow> bool" where
  "disjoint_areas s t n \<longleftrightarrow> (\<forall>x. \<not> (within s n x \<and> within t n x)) \<and> n < 2 ^ 32"

lemma disjoint_areas_Suc:
  assumes "disjoint_areas s t (Suc n)"
  shows "disjoint_areas (s + 1) (t + 1) n" and "\<not> within (t + 1) n s" and "\<not> within (s + 1) n s"
    and "\<not> within t (Suc n) s"
proof -
  have n: "n < 2 ^ 32" "Suc n < 2 ^ 32" using assms by (simp_all add: disjoint_areas_def)
  show "disjoint_areas (s + 1) (t + 1) n" "\<not> within (t + 1) n s" "\<not> within t (Suc n) s"
    using assms n within_Suc [OF n(1)] by (auto simp: disjoint_areas_def)
  show "\<not> within (s + 1) n s"
    using n by (simp add: within_def unsigned_minus_1_eq_mask mask_eq_exp_minus_1)
qed

lemma safestrcpy_outside:
  "\<not> within s (Suc n) x \<Longrightarrow> Suc n < 2 ^ 32 \<Longrightarrow> safestrcpy_loop m s t n x = m x"
proof (induction n arbitrary: m s t)
  case 0
  then show ?case by (auto simp: within_Suc)
next
  case (Suc n)
  then have "x \<noteq> s" "\<not> within (s + 1) (Suc n) x" "x \<noteq> s + 1"
    using within_Suc [of "Suc n" s x] within_Suc [of n "s + 1" x] by auto
  then show ?case using Suc by (simp add: Let_def)
qed

text \<open>The string left at \<open>s\<close> is the source cut to \<open>n\<close> characters, with a NUL behind it.\<close>

lemma safestrcpy_string:
  assumes "disjoint_areas s t (Suc n)"
  shows "takeWhile (\<lambda>c. c \<noteq> 0) (bytes_at (safestrcpy_loop m s t n) s (Suc n)) =
     takeWhile (\<lambda>c. c \<noteq> 0) (bytes_at m t n)"
  using assms
proof (induction n arbitrary: m s t)
  case 0
  then show ?case by simp
next
  case (Suc n)
  note d = disjoint_areas_Suc [OF Suc.prems]
  let ?m = "m(s := m t)"
  show ?case
  proof (cases "m t = 0")
    case True
    then show ?thesis by (simp add: Let_def)
  next
    case False
    have n: "Suc n < 2 ^ 32" using d(1) by (simp add: disjoint_areas_def)
    have "safestrcpy_loop ?m (s + 1) (t + 1) n s = m t"
      using d(3) n by (simp add: safestrcpy_outside)
    moreover have "bytes_at ?m (t + 1) n = bytes_at m (t + 1) n"
      using d(2) n within_Suc_last [of n "t + 1" s] by (intro bytes_at_upd_outside) auto
    moreover have "takeWhile (\<lambda>c. c \<noteq> 0) (bytes_at (safestrcpy_loop ?m (s + 1) (t + 1) n) (s + 1) (Suc n)) =
        takeWhile (\<lambda>c. c \<noteq> 0) (bytes_at ?m (t + 1) n)"
      by (rule Suc.IH [OF d(1)])
    ultimately show ?thesis
      using False by (simp add: Let_def del: bytes_at_simps(2))
        (simp add: bytes_at_simps(2) [of _ s] bytes_at_simps(2) [of _ t] del: bytes_at_simps(2))
  qed
qed

lemma strncpy_outside:
  "\<not> within s n x \<Longrightarrow> n < 2 ^ 32 \<Longrightarrow> strncpy_loop m s t n x = m x"
proof (induction n arbitrary: m s t)
  case 0
  then show ?case by simp
next
  case (Suc n)
  then have "x \<noteq> s" "\<not> within (s + 1) n x"
    using within_Suc [of n s x] by auto
  then show ?case using Suc by (simp add: Let_def stosb_fill)
qed

text \<open>\<^verbatim>\<open>strncpy\<close> leaves the source string padded with NULs to exactly \<open>n\<close> bytes, and no NUL when
  the source has \<open>n\<close> or more characters.\<close>

lemma strncpy_bytes:
  assumes "disjoint_areas s t n"
  shows "bytes_at (strncpy_loop m s t n) s n =
     (let str = takeWhile (\<lambda>c. c \<noteq> 0) (bytes_at m t n) in str @ replicate (n - length str) 0)"
  using assms
proof (induction n arbitrary: m s t)
  case 0
  then show ?case by simp
next
  case (Suc n)
  note d = disjoint_areas_Suc [OF Suc.prems]
  let ?m = "m(s := m t)"
  have n: "n < 2 ^ 32" using d(1) by (simp add: disjoint_areas_def)
  show ?case
  proof (cases "m t = 0")
    case True
    have "bytes_at (stosb (m(s := 0)) (s + 1) 0 n) (s + 1) n = replicate n 0"
      using n by (simp add: bytes_at_fill)
    moreover have "stosb (m(s := 0)) (s + 1) 0 n s = 0"
      using n by (simp add: stosb_fill)
    ultimately show ?thesis using True by (simp add: Let_def)
  next
    case False
    have "strncpy_loop ?m (s + 1) (t + 1) n s = m t"
      using d(3) n by (simp add: strncpy_outside)
    moreover have "bytes_at ?m (t + 1) n = bytes_at m (t + 1) n"
      using d(2) n by (intro bytes_at_upd_outside) auto
    moreover have "bytes_at (strncpy_loop ?m (s + 1) (t + 1) n) (s + 1) n =
        (let str = takeWhile (\<lambda>c. c \<noteq> 0) (bytes_at ?m (t + 1) n) in str @ replicate (n - length str) 0)"
      by (rule Suc.IH [OF d(1)])
    ultimately show ?thesis
      using False by (simp add: Let_def)
  qed
qed

lemma strlen_loop_some:
  assumes "m (s + of_nat k) = 0" and "\<And>i. n \<le> i \<Longrightarrow> i < k \<Longrightarrow> m (s + of_nat i) \<noteq> 0" and "n \<le> k"
  shows "strlen_loop m s n = Some k"
  using assms
proof (induction "k - n" arbitrary: n)
  case 0
  then show ?case by (simp add: strlen_loop.simps)
next
  case (Suc j)
  then have "m (s + of_nat n) \<noteq> 0" by simp
  moreover have "strlen_loop m s (Suc n) = Some k"
    using Suc by (intro Suc.hyps(1)) auto
  ultimately show ?case by (subst strlen_loop.simps) simp
qed

section \<open>Properties\<close>

text \<open>C20: \<^verbatim>\<open>memset\<close>.  Whether it takes the word-at-a-time path or the byte path, it sets exactly the
  \<open>n\<close> bytes from \<open>dst\<close> to the low byte of \<open>c\<close>.\<close>

theorem memset_spec:
  "memset m dst c n x = (if unat (x - dst) < unat n then ucast c else m x)"
  using memset_fill [of m dst c n] by (simp add: within_def)

text \<open>C19: \<^verbatim>\<open>memmove\<close> copies the old contents of the source also when the areas overlap, as long
  as neither area runs past the end of the address space.\<close>

theorem memmove_spec:
  assumes "unat src + unat n < 2 ^ 32" and "unat dst + unat n < 2 ^ 32"
  shows "bytes_at (memmove m dst src n) dst (unat n) = bytes_at m src (unat n) \<and>
     (\<forall>x. \<not> within dst (unat n) x \<longrightarrow> memmove m dst src n x = m x)"
proof -
  have "bytes_at (memmove m dst src n) dst (unat n) = bytes_at m src (unat n)"
    using unat_bound32 [of n] by (simp add: bytes_at_def memmove_correct [OF assms] within_offset)
  then show ?thesis by (simp add: memmove_correct [OF assms])
qed

text \<open>An overlapping move by two bytes upwards.\<close>

theorem memmove_spec_witness:
  "unat (100 :: addr) + unat (5 :: 32 word) < 2 ^ 32 \<and>
   bytes_at (memmove (\<lambda>x. ucast x) 102 100 5) 102 5 = [100, 101, 102, 103, 104]"
  using memmove_spec [of 100 5 102 "\<lambda>x. ucast x"] by (simp add: bytes_at_def upt_rec)

text \<open>C21: \<^verbatim>\<open>safestrcpy\<close> always leaves a terminated string of at most \<open>n - 1\<close> characters, the longest
  such prefix of the source, and writes only the \<open>n\<close> bytes of the destination.\<close>

theorem safestrcpy_spec:
  assumes "disjoint_areas s t n" and "0 < n"
  shows "let m' = safestrcpy m s t (int n); str = takeWhile (\<lambda>c. c \<noteq> 0) (bytes_at m' s n) in
     str = takeWhile (\<lambda>c. c \<noteq> 0) (bytes_at m t (n - 1)) \<and> length str < n \<and>
     (\<forall>x. \<not> within s n x \<longrightarrow> m' x = m x)"
proof -
  obtain k where k: "n = Suc k" using assms(2) by (cases n) auto
  have eq: "safestrcpy m s t (int n) = safestrcpy_loop m s t k"
    using k by (simp add: safestrcpy_def)
  have str: "takeWhile (\<lambda>c. c \<noteq> 0) (bytes_at (safestrcpy_loop m s t k) s n) =
      takeWhile (\<lambda>c. c \<noteq> 0) (bytes_at m t k)"
    using safestrcpy_string assms(1) k by blast
  moreover have "length (takeWhile (\<lambda>c. c \<noteq> 0) (bytes_at m t k)) \<le> k"
    by (metis length_bytes_at length_takeWhile_le)
  moreover have "safestrcpy_loop m s t k x = m x" if "\<not> within s n x" for x
    using that k assms(1) by (intro safestrcpy_outside) (simp_all add: disjoint_areas_def)
  ultimately show ?thesis
    unfolding eq Let_def using k by (simp del: bytes_at_simps)
qed

theorem safestrcpy_spec_witness:
  "let m = (\<lambda>x :: addr. 0 :: byte)(100 := 97, 101 := 98, 102 := 99) in
   disjoint_areas 200 100 3 \<and>
   takeWhile (\<lambda>c. c \<noteq> 0) (bytes_at (safestrcpy m 200 100 3) 200 3) = [97, 98]"
proof -
  let ?m = "(\<lambda>x :: addr. 0 :: byte)(100 := 97, 101 := 98, 102 := 99)"
  have "within 200 3 x \<Longrightarrow> within 100 3 x \<Longrightarrow> False" for x
    by (erule within_obtain, erule within_obtain)
      (auto simp: word_unat_eq_iff unat_word_ariths unat_of_nat)
  then have d: "disjoint_areas 200 100 3" by (auto simp: disjoint_areas_def)
  have "takeWhile (\<lambda>c. c \<noteq> 0) (bytes_at ?m 100 2) = [97, 98]"
    by (simp add: bytes_at_def upt_rec)
  then show ?thesis
    using d safestrcpy_spec [OF d, of ?m] unfolding Let_def by simp
qed



end
