(* ===== verification/Kalloc.thy ===== *)
theory Kalloc
  imports Spinlock Kmemory
begin

unbundle bit_operations_syntax

text \<open>
  The physical page allocator \<^verbatim>\<open>kalloc.c\<close>, with the address constants of \<^verbatim>\<open>memlayout.h\<close> and
  the page rounding of \<^verbatim>\<open>mmu.h\<close>.

  The free list is threaded through the free pages themselves: the first word of a free
  page is \<^verbatim>\<open>r->next\<close>.  \<open>free_chain\<close> relates the list in memory to a list of page addresses.
  \<^verbatim>\<open>end\<close> is a symbol of the linker; it is the field \<open>kend\<close>, which no operation writes.
  The locale \<open>page_allocator\<close> is the contract the rest of the kernel relies on.
\<close>

section \<open>Constants\<close>

definition PGSIZE :: nat where "PGSIZE = 4096"
definition EXTMEM :: addr where "EXTMEM = 0x100000"
definition PHYSTOP :: addr where "PHYSTOP = 0xE000000"
definition DEVSPACE :: addr where "DEVSPACE = 0xFE000000"
definition KERNBASE :: addr where "KERNBASE = 0x80000000"
definition KERNLINK :: addr where "KERNLINK = KERNBASE + EXTMEM"

definition V2P :: "addr \<Rightarrow> addr" where "V2P a = a - KERNBASE"
definition P2V :: "addr \<Rightarrow> addr" where "P2V a = a + KERNBASE"

definition PGROUNDUP :: "addr \<Rightarrow> addr" where
  "PGROUNDUP sz = (sz + of_nat PGSIZE - 1) AND NOT (of_nat PGSIZE - 1)"

definition PGROUNDDOWN :: "addr \<Rightarrow> addr" where
  "PGROUNDDOWN a = a AND NOT (of_nat PGSIZE - 1)"

section \<open>State and operations\<close>

record kmem_st = kcore +
  mem :: memory
  use_lock :: bool
  freelist :: addr
  kend :: addr

definition kfree :: "addr \<Rightarrow> 'z kmem_st_scheme \<Rightarrow> 'z kmem_st_scheme kres" where
  "kfree v s =
     (if unat v mod PGSIZE \<noteq> 0 \<or> v < kend s \<or> V2P v \<ge> PHYSTOP then Panic ''kfree''
      else let s1 = s\<lparr>mem := memset (mem s) v 1 (of_nat PGSIZE)\<rparr> in
        kbind (if use_lock s1 then acquire KmemLock s1 else Ok s1) (\<lambda>s2.
        let s3 = s2\<lparr>mem := store32 (mem s2) v (freelist s2), freelist := v\<rparr> in
        if use_lock s3 then release KmemLock s3 else Ok s3))"

definition kalloc :: "'z kmem_st_scheme \<Rightarrow> (addr \<times> 'z kmem_st_scheme) kres" where
  "kalloc s =
     kbind (if use_lock s then acquire KmemLock s else Ok s) (\<lambda>s1.
     let r = freelist s1;
         s2 = (if r \<noteq> 0 then s1\<lparr>freelist := load32 (mem s1) r\<rparr> else s1)
     in kbind (if use_lock s2 then release KmemLock s2 else Ok s2) (\<lambda>s3. Ok (r, s3)))"

lemma kfree_range:
  assumes "kfree v s = Ok t"
  shows "unat v mod PGSIZE = 0 \<and> \<not> v < kend s \<and> V2P v < PHYSTOP"
  using assms by (auto simp: kfree_def not_le split: if_splits)

lemma V2P_range:
  assumes "V2P v < PHYSTOP"
  shows "0x80000000 \<le> unat v" and "unat v < 0x8E000000"
proof -
  have "unat (V2P v) < 0xE000000" using assms by (simp add: word_less_nat_alt PHYSTOP_def)
  moreover have "unat (V2P v) = (if 0x80000000 \<le> unat v then unat v - 0x80000000 else unat v + 0x80000000)"
    by (simp add: V2P_def KERNBASE_def unat_sub_if' word_le_nat_alt)
  ultimately show "0x80000000 \<le> unat v" "unat v < 0x8E000000"
    by (auto split: if_splits)
qed

function freerange_loop :: "addr \<Rightarrow> addr \<Rightarrow> 'z kmem_st_scheme \<Rightarrow> 'z kmem_st_scheme kres" where
  "freerange_loop p vend s =
     (if p + of_nat PGSIZE \<le> vend
      then kbind (kfree p s) (\<lambda>s1. freerange_loop (p + of_nat PGSIZE) vend s1)
      else Ok s)"
  by pat_completeness auto
termination
proof (relation "measure (\<lambda>(p, vend, s). 2 ^ 32 - unat p)")
  fix p vend :: addr and s t :: "'z kmem_st_scheme"
  assume "kfree p s = Ok t"
  then have "unat p < 0x8E000000" using kfree_range V2P_range by blast
  then show "((p + of_nat PGSIZE, vend, t), p, vend, s) \<in> measure (\<lambda>(p, vend, s). 2 ^ 32 - unat p)"
    using unat_offset [of p PGSIZE] by (simp add: PGSIZE_def)
qed simp

declare freerange_loop.simps [simp del]

definition freerange :: "addr \<Rightarrow> addr \<Rightarrow> 'z kmem_st_scheme \<Rightarrow> 'z kmem_st_scheme kres" where
  "freerange vstart vend s = freerange_loop (PGROUNDUP vstart) vend s"

definition kinit1 :: "addr \<Rightarrow> addr \<Rightarrow> 'z kmem_st_scheme \<Rightarrow> 'z kmem_st_scheme kres" where
  "kinit1 vstart vend s =
     (let s1 = (initlock KmemLock ''kmem'' s)\<lparr>use_lock := False\<rparr> in freerange vstart vend s1)"

definition kinit2 :: "addr \<Rightarrow> addr \<Rightarrow> 'z kmem_st_scheme \<Rightarrow> 'z kmem_st_scheme kres" where
  "kinit2 vstart vend s =
     kbind (freerange vstart vend s) (\<lambda>s1. Ok (s1\<lparr>use_lock := True\<rparr>))"

section \<open>The contract of a page allocator\<close>

text \<open>
  \<open>rep s ps\<close>: the state \<open>s\<close> is usable and its free pages, in the order they will be handed
  out, are \<open>ps\<close>.  \<open>valid s p\<close>: \<open>p\<close> is a page that may be given to the allocator.
\<close>

primrec alloc_many ::
  "('s \<Rightarrow> (addr \<times> 's) kres) \<Rightarrow> nat \<Rightarrow> 's \<Rightarrow> (addr list \<times> 's) kres" where
  "alloc_many al 0 s = Ok ([], s)"
| "alloc_many al (Suc n) s =
     kbind (al s) (\<lambda>(p, s1). kbind (alloc_many al n s1) (\<lambda>(ps, s2). Ok (p # ps, s2)))"

locale page_allocator =
  fixes alloc :: "'s \<Rightarrow> (addr \<times> 's) kres"
    and free :: "addr \<Rightarrow> 's \<Rightarrow> 's kres"
    and rep :: "'s \<Rightarrow> addr list \<Rightarrow> bool"
    and valid :: "'s \<Rightarrow> addr \<Rightarrow> bool"
  assumes alloc_page: "rep s (p # ps) \<Longrightarrow> \<exists>t. alloc s = Ok (p, t) \<and> rep t ps \<and> valid t = valid s"
    and alloc_empty: "rep s [] \<Longrightarrow> \<exists>t. alloc s = Ok (0, t) \<and> rep t [] \<and> valid t = valid s"
    and free_page: "rep s ps \<Longrightarrow> valid s p \<Longrightarrow> p \<notin> set ps \<Longrightarrow>
          \<exists>t. free p s = Ok t \<and> rep t (p # ps) \<and> valid t = valid s"
    and rep_pages: "rep s ps \<Longrightarrow> distinct ps \<and> 0 \<notin> set ps \<and> (\<forall>p \<in> set ps. valid s p)"
begin

lemma alloc_many_pages:
  "rep s ps \<Longrightarrow> n \<le> length ps \<Longrightarrow>
     \<exists>t. alloc_many alloc n s = Ok (take n ps, t) \<and> rep t (drop n ps) \<and> valid t = valid s"
proof (induction n arbitrary: s ps)
  case 0
  then show ?case by simp
next
  case (Suc n)
  then obtain q qs where ps: "ps = q # qs" by (cases ps) auto
  then obtain u where u: "alloc s = Ok (q, u)" "rep u qs" "valid u = valid s"
    using alloc_page [of s q qs] Suc.prems(1) by blast
  then obtain t where "alloc_many alloc n u = Ok (take n qs, t)" "rep t (drop n qs)" "valid t = valid u"
    using Suc.IH [OF u(2)] Suc.prems(2) ps by auto
  with u ps show ?case by auto
qed

text \<open>Pages handed out together are distinct, non-null and no longer free.\<close>

lemma alloc_many_distinct:
  assumes "rep s ps" and "n \<le> length ps"
  shows "\<exists>qs t. alloc_many alloc n s = Ok (qs, t) \<and> length qs = n \<and> distinct qs \<and> 0 \<notin> set qs \<and>
     rep t (drop n ps) \<and> set qs \<inter> set (drop n ps) = {}"
proof -
  obtain t where t: "alloc_many alloc n s = Ok (take n ps, t)" "rep t (drop n ps)"
    using alloc_many_pages [OF assms] by blast
  have d: "distinct ps" "0 \<notin> set ps" using rep_pages [OF assms(1)] by simp_all
  have "distinct (take n ps)" and "set (take n ps) \<inter> set (drop n ps) = {}" and "0 \<notin> set (take n ps)"
    using d by (auto simp: set_take_disj_set_drop_if_distinct dest: in_set_takeD)
  then show ?thesis using t assms(2) by (intro exI [of _ "take n ps"] exI [of _ t]) simp
qed

text \<open>A page given back is the next one handed out, and the free list is as before.\<close>

lemma free_then_alloc:
  assumes "rep s ps" and "valid s p" and "p \<notin> set ps"
  shows "\<exists>t u. free p s = Ok t \<and> alloc t = Ok (p, u) \<and> rep u ps"
proof -
  obtain t where t: "free p s = Ok t" "rep t (p # ps)" using free_page [OF assms] by blast
  show ?thesis using t(1) alloc_page [OF t(2)] by blast
qed

end

section \<open>kalloc.c implements it\<close>

definition page_ok :: "'z kmem_st_scheme \<Rightarrow> addr \<Rightarrow> bool" where
  "page_ok s p \<longleftrightarrow> unat p mod PGSIZE = 0 \<and> kend s \<le> p \<and> V2P p < PHYSTOP"

primrec free_chain :: "memory \<Rightarrow> addr \<Rightarrow> addr list \<Rightarrow> bool" where
  "free_chain m r [] \<longleftrightarrow> r = 0"
| "free_chain m r (p # ps) \<longleftrightarrow> r = p \<and> p \<noteq> 0 \<and> free_chain m (load32 m p) ps"

definition kmem_ready :: "'z kmem_st_scheme \<Rightarrow> bool" where
  "kmem_ready s \<longleftrightarrow> (use_lock s \<longrightarrow> lock_ready KmemLock s)"

definition free_pages :: "'z kmem_st_scheme \<Rightarrow> addr list \<Rightarrow> bool" where
  "free_pages s ps \<longleftrightarrow> kmem_ready s \<and> free_chain (mem s) (freelist s) ps \<and> distinct ps \<and>
     (\<forall>p \<in> set ps. page_ok s p)"

lemma kmem_same_core [simp]:
  "same_core (s\<lparr>mem := x\<rparr>) t = same_core s t"
  "same_core (s\<lparr>freelist := y\<rparr>) t = same_core s t"
  "same_core (s\<lparr>use_lock := z\<rparr>) t = same_core s t"
  by (simp_all add: same_core_def)

lemma kmem_lock_frame [simp]:
  "lock_ready l (s\<lparr>mem := x\<rparr>) = lock_ready l s"
  "lock_ready l (s\<lparr>freelist := y\<rparr>) = lock_ready l s"
  "lock_ready l (s\<lparr>use_lock := z\<rparr>) = lock_ready l s"
  "lock_held l (s\<lparr>mem := x\<rparr>) = lock_held l s"
  "lock_held l (s\<lparr>freelist := y\<rparr>) = lock_held l s"
  "lock_held l (s\<lparr>use_lock := z\<rparr>) = lock_held l s"
  "quiet (s\<lparr>mem := x\<rparr>) = quiet s"
  "quiet (s\<lparr>freelist := y\<rparr>) = quiet s"
  "quiet (s\<lparr>use_lock := z\<rparr>) = quiet s"
  by (rule same_coreD; simp)+

lemma kmem_acq_rel [simp]:
  "mem (acq l s) = mem s" "use_lock (acq l s) = use_lock s" "freelist (acq l s) = freelist s"
  "kend (acq l s) = kend s" "mem (rel l s) = mem s" "use_lock (rel l s) = use_lock s"
  "freelist (rel l s) = freelist s" "kend (rel l s) = kend s"
  by (simp_all add: acq_def rel_def push_def pop_def Let_def)

lemma page_range: "page_ok s p \<Longrightarrow> 0x80000000 \<le> unat p \<and> unat p < 0x8E000000"
  using V2P_range by (auto simp: page_ok_def)

lemma page_nonzero: "page_ok s p \<Longrightarrow> p \<noteq> 0"
  using page_range [of s p] by auto

lemma page_aligned4: "unat p mod PGSIZE = 0 \<Longrightarrow> 4 dvd uint p"
  for p :: addr
proof -
  assume "unat p mod PGSIZE = 0"
  then have "4096 dvd unat p" by (simp add: PGSIZE_def mod_eq_0_iff_dvd)
  then have "4 dvd unat p" by (rule dvd_trans [rotated]) simp
  then show "4 dvd uint p" by (metis int_dvd_int_iff of_nat_numeral uint_nat)
qed

lemma page_no_wrap:
  fixes a :: addr
  assumes "unat a mod PGSIZE = 0" and "i < PGSIZE"
  shows "unat a + i < 2 ^ 32"
proof -
  obtain c where "unat a = 4096 * c" using assms(1) by (auto simp: PGSIZE_def mod_eq_0_iff_dvd)
  then show ?thesis using unat_bound32 [of a] assms(2) by (simp add: PGSIZE_def)
qed

text \<open>Different pages have no byte in common.\<close>

lemma page_disjoint:
  fixes p q :: addr
  assumes "unat p mod PGSIZE = 0" and "unat q mod PGSIZE = 0" and "p \<noteq> q" and "k < PGSIZE"
  shows "\<not> within p PGSIZE (q + of_nat k)"
proof
  assume "within p PGSIZE (q + of_nat k)"
  then obtain j where j: "j < PGSIZE" "q + of_nat k = p + of_nat j" by (rule within_obtain)
  have "unat q + k = unat p + j"
    using j unat_offset [OF page_no_wrap [OF assms(2,4)]]
      unat_offset [OF page_no_wrap [OF assms(1) j(1)]] by metis
  moreover have "(unat q + k) mod PGSIZE = k" "(unat p + j) mod PGSIZE = j"
    using assms j(1) by (metis add.left_neutral mod_add_left_eq mod_less)+
  ultimately have "unat q = unat p" by simp
  then show False using assms(3) by (simp add: word_unat_eq_iff)
qed

lemma free_chain_cong:
  "(\<And>p. p \<in> set ps \<Longrightarrow> load32 m' p = load32 m p) \<Longrightarrow> free_chain m' r ps = free_chain m r ps"
  by (induction ps arbitrary: r) auto

lemma load32_cong:
  "(\<And>k. k < 4 \<Longrightarrow> m' (a + of_nat k) = m (a + of_nat k)) \<Longrightarrow> load32 m' a = load32 m a"
proof -
  assume eq: "\<And>k. k < 4 \<Longrightarrow> m' (a + of_nat k) = m (a + of_nat k)"
  show ?thesis using eq [of 0] eq [of 1] eq [of 2] eq [of 3] by (simp add: load32_def)
qed

text \<open>Freeing a page changes no byte outside it.\<close>

lemma store32_outside:
  assumes "unat v mod PGSIZE = 0" and "\<not> within v PGSIZE x"
  shows "store32 m v w x = m x"
proof -
  have "x \<noteq> v + of_nat k" if "k < 4" for k
    using that assms(2) within_offset [of k v PGSIZE] by (auto simp: PGSIZE_def)
  from this [of 0] this [of 1] this [of 2] this [of 3] show ?thesis by (simp add: store32_def)
qed

lemma kfree_mem_outside:
  assumes "unat v mod PGSIZE = 0" and "\<not> within v PGSIZE x"
  shows "store32 (memset m v 1 (of_nat PGSIZE)) v w x = m x"
proof -
  have "unat (of_nat PGSIZE :: addr) = PGSIZE" by (simp add: PGSIZE_def)
  then show ?thesis using assms by (simp add: store32_outside memset_fill)
qed

lemma kfree_spec:
  assumes rep: "free_pages s ps" and v: "page_ok s v" and new: "v \<notin> set ps"
  shows "\<exists>t. kfree v s = Ok t \<and> free_pages t (v # ps) \<and> kend t = kend s \<and> use_lock t = use_lock s \<and>
     (quiet s \<longrightarrow> quiet t) \<and> (\<forall>x. \<not> within v PGSIZE x \<longrightarrow> mem t x = mem s x)"
proof -
  let ?m = "store32 (memset (mem s) v 1 (of_nat PGSIZE)) v (freelist s)"
  have al: "unat v mod PGSIZE = 0" using v by (simp add: page_ok_def)
  note outside = kfree_mem_outside [OF al, of _ "mem s" "freelist s"]
  have "load32 ?m q = load32 (mem s) q" if q: "q \<in> set ps" for q
  proof (rule load32_cong)
    fix k :: nat assume "k < 4"
    have "unat q mod PGSIZE = 0" "q \<noteq> v" using rep q new by (auto simp: free_pages_def page_ok_def)
    then show "?m (q + of_nat k) = mem s (q + of_nat k)"
      using \<open>k < 4\<close> al page_disjoint [of v q k] by (intro outside) (simp add: PGSIZE_def)
  qed
  then have "free_chain ?m (freelist s) ps"
    using rep free_chain_cong [of ps ?m "mem s"] by (simp add: free_pages_def)
  then have chain: "free_chain ?m v (v # ps)"
    using page_nonzero [OF v] by simp
  have ok: "\<not> (unat v mod PGSIZE \<noteq> 0 \<or> v < kend s \<or> V2P v \<ge> PHYSTOP)"
    using v by (auto simp: page_ok_def)
  show ?thesis
  proof (cases "use_lock s")
    case True
    then have r: "lock_ready KmemLock s" using rep by (simp add: free_pages_def kmem_ready_def)
    let ?u = "acq KmemLock (s\<lparr>mem := memset (mem s) v 1 (of_nat PGSIZE)\<rparr>)"
    let ?w = "?u\<lparr>mem := ?m, freelist := v\<rparr>"
    have ru: "lock_ready KmemLock (s\<lparr>mem := memset (mem s) v 1 (of_nat PGSIZE)\<rparr>)" using r by simp
    have h: "lock_held KmemLock ?w" using acq_props(5) [OF ru] by simp
    have eq: "kfree v s = Ok (rel KmemLock ?w)"
      using ok True ru h by (simp add: kfree_def Let_def acquire_ok release_ok)
    have "quiet (rel KmemLock ?w)" if "quiet s"
      using that by (intro quiet_section [where s = "s\<lparr>mem := memset (mem s) v 1 (of_nat PGSIZE)\<rparr>"]) simp_all
    then show ?thesis
      using eq rep v new chain rel_props(5) [OF h] outside
      by (auto simp: free_pages_def page_ok_def kmem_ready_def)
  next
    case False
    then show ?thesis
      using ok rep v new chain outside
      by (auto simp: kfree_def Let_def free_pages_def page_ok_def kmem_ready_def)
  qed
qed

lemma kalloc_spec:
  assumes "free_pages s ps"
  shows "\<exists>t. kalloc s = Ok (case ps of [] \<Rightarrow> 0 | p # _ \<Rightarrow> p, t) \<and> free_pages t (tl ps) \<and>
     kend t = kend s \<and> use_lock t = use_lock s \<and> mem t = mem s \<and> (quiet s \<longrightarrow> quiet t)"
proof -
  have hd: "freelist s = (case ps of [] \<Rightarrow> 0 | p # _ \<Rightarrow> p)" and
    nz: "freelist s = 0 \<longleftrightarrow> ps = []" and
    tl: "free_chain (mem s) (if ps = [] then 0 else load32 (mem s) (freelist s)) (tl ps)"
    using assms by (cases ps; auto simp: free_pages_def)+
  have sub: "distinct (tl ps)" "\<forall>p \<in> set (tl ps). page_ok s p"
    using assms by (cases ps; simp add: free_pages_def)+
  let ?upd = "\<lambda>s. if freelist s \<noteq> 0 then s\<lparr>freelist := load32 (mem s) (freelist s)\<rparr> else s"
  show ?thesis
  proof (cases "use_lock s")
    case True
    then have r: "lock_ready KmemLock s" using assms by (simp add: free_pages_def kmem_ready_def)
    let ?w = "?upd (acq KmemLock s)"
    have h: "lock_held KmemLock ?w" using acq_props(5) [OF r] by simp
    have eq: "kalloc s = Ok (freelist s, rel KmemLock ?w)"
      using True r h by (simp add: kalloc_def Let_def acquire_ok release_ok)
    have "quiet (rel KmemLock ?w)" if "quiet s"
      using that by (intro quiet_section [where s = s]) simp_all
    then show ?thesis
      using eq hd nz tl sub rel_props(5) [OF h]
      by (auto simp: free_pages_def page_ok_def kmem_ready_def split: if_splits)
  next
    case False
    then show ?thesis
      using hd nz tl sub
      by (auto simp: kalloc_def Let_def free_pages_def page_ok_def kmem_ready_def)
  qed
qed

interpretation kpages: page_allocator
  "kalloc :: 'z kmem_st_scheme \<Rightarrow> (addr \<times> 'z kmem_st_scheme) kres" kfree free_pages page_ok
proof (unfold_locales, goal_cases)
  case (1 s p ps)
  then show ?case using kalloc_spec [of s "p # ps"] by (auto simp: page_ok_def fun_eq_iff)
next
  case (2 s)
  then show ?case using kalloc_spec [of s "[]"] by (auto simp: page_ok_def fun_eq_iff)
next
  case (3 s ps p)
  then show ?case using kfree_spec [of s ps p] by (fastforce simp: page_ok_def fun_eq_iff)
next
  case (4 s ps)
  then show ?case using page_nonzero by (auto simp: free_pages_def)
qed

text \<open>The states the two operations end in, for the frame of the rest of the kernel state.\<close>

lemma freelist_idem: "freelist s = x \<Longrightarrow> s\<lparr>freelist := x\<rparr> = s"
  by (drule sym) simp

lemma kalloc_eq:
  assumes "use_lock s" and "lock_ready KmemLock s"
  shows "kalloc s = Ok (freelist s, rel KmemLock ((acq KmemLock s)\<lparr>freelist :=
     if freelist s = 0 then 0 else load32 (mem s) (freelist s)\<rparr>))"
proof -
  let ?v = "if freelist s = 0 then 0 else load32 (mem s) (freelist s)"
  let ?u = "(acq KmemLock s)\<lparr>freelist := ?v\<rparr>"
  have "(if freelist s \<noteq> 0 then (acq KmemLock s)\<lparr>freelist := load32 (mem s) (freelist s)\<rparr> else acq KmemLock s) = ?u"
    using freelist_idem [of "acq KmemLock s" 0] by (cases "freelist s = 0") (simp_all only: kmem_acq_rel if_True if_False simp_thms)
  moreover have "lock_held KmemLock ?u" using acq_props(5) [OF assms(2)] by simp
  ultimately show ?thesis
    using assms by (simp only: kalloc_def acquire_ok if_True kbind.simps Let_def kmem_acq_rel)
      (simp add: release_ok)
qed

lemma kfree_eq:
  assumes "use_lock s" and "lock_ready KmemLock s" and "page_ok s v"
  shows "kfree v s = Ok (rel KmemLock ((acq KmemLock (s\<lparr>mem := memset (mem s) v 1 (of_nat PGSIZE)\<rparr>))\<lparr>mem :=
     store32 (memset (mem s) v 1 (of_nat PGSIZE)) v (freelist s), freelist := v\<rparr>))"
  using assms acq_props(5) [of KmemLock "s\<lparr>mem := memset (mem s) v 1 (of_nat PGSIZE)\<rparr>"]
  by (auto simp: kfree_def acquire_ok release_ok Let_def page_ok_def)

lemma free_pages_cong:
  assumes "free_pages s ps" and "mem t = mem s" and "freelist t = freelist s" and "kend t = kend s" and "quiet t"
  shows "free_pages t ps"
  using assms quiet_ready [OF assms(5)] by (simp add: free_pages_def kmem_ready_def page_ok_def)

section \<open>Page rounding\<close>

lemma page_mask: "of_nat PGSIZE - 1 = (mask 12 :: addr)"
  by (simp add: PGSIZE_def mask_eq_exp_minus_1)

lemma unat_PGROUNDDOWN: "unat (PGROUNDDOWN a) = unat a div PGSIZE * PGSIZE"
proof -
  have "PGROUNDDOWN a = push_bit 12 (drop_bit 12 a)"
    unfolding PGROUNDDOWN_def page_mask by (rule bit_word_eqI) (auto simp: bit_simps)
  then have "unat (PGROUNDDOWN a) = (unat a div 4096 * 4096) mod 2 ^ 32"
    by (simp add: push_bit_eq_mult drop_bit_eq_div unat_word_ariths unat_div mod_mult_left_eq)
  moreover have "unat a div 4096 * 4096 < 2 ^ 32"
    using unat_bound32 [of a] by (meson div_times_less_eq_dividend le_less_trans)
  ultimately show ?thesis by (simp add: PGSIZE_def)
qed

lemma unat_PGROUNDUP:
  assumes "unat a + (PGSIZE - 1) < 2 ^ 32"
  shows "unat (PGROUNDUP a) = (unat a + (PGSIZE - 1)) div PGSIZE * PGSIZE"
proof -
  have "PGROUNDUP a = PGROUNDDOWN (a + of_nat (PGSIZE - 1))"
    by (simp add: PGROUNDUP_def PGROUNDDOWN_def PGSIZE_def algebra_simps)
  then show ?thesis using assms by (simp add: unat_PGROUNDDOWN unat_offset)
qed

text \<open>The pages \<^verbatim>\<open>freerange\<close> adds, in the order of its loop.\<close>

definition range_pages :: "addr \<Rightarrow> nat \<Rightarrow> addr list" where
  "range_pages a n = map (\<lambda>i. a + of_nat (i * PGSIZE)) [0..<n]"

lemma range_pages_Suc: "range_pages a (Suc n) = a # range_pages (a + of_nat PGSIZE) n"
  by (simp add: range_pages_def upt_conv_Cons map_Suc_upt [symmetric] algebra_simps del: upt_Suc)

lemma V2P_below: "0x80000000 \<le> unat v \<Longrightarrow> unat v < 0x8E000000 \<Longrightarrow> V2P v < PHYSTOP"
  by (simp add: word_less_nat_alt PHYSTOP_def V2P_def KERNBASE_def unat_sub_if' word_le_nat_alt)

lemma range_pages_above:
  assumes "unat a + Suc n * PGSIZE < 2 ^ 32"
  shows "a \<notin> set (range_pages (a + of_nat PGSIZE) n)"
proof
  assume "a \<in> set (range_pages (a + of_nat PGSIZE) n)"
  then obtain i where i: "i < n" "a = a + of_nat (Suc i * PGSIZE)"
    by (auto simp: range_pages_def algebra_simps)
  have "Suc i * PGSIZE \<le> Suc n * PGSIZE" using i(1) by (intro mult_le_mono1) simp
  then have "unat (a + of_nat (Suc i * PGSIZE)) = unat a + Suc i * PGSIZE"
    using assms by (intro unat_offset) linarith
  then have "Suc i * PGSIZE = 0" using i(2) by (metis add_cancel_left_right)
  then show False by (simp add: PGSIZE_def)
qed

lemma freerange_loop_spec:
  assumes "free_pages s ps" and "unat a mod PGSIZE = 0" and "kend s \<le> a"
    and "0x80000000 \<le> unat a" and "unat a \<le> 0x8E000000"
    and "unat vend \<le> 0x8E000000" and "n = (unat vend - unat a) div PGSIZE"
    and "set ps \<inter> set (range_pages a n) = {}"
  shows "\<exists>t. freerange_loop a vend s = Ok t \<and> free_pages t (rev (range_pages a n) @ ps) \<and>
     kend t = kend s \<and> use_lock t = use_lock s"
  using assms
proof (induction n arbitrary: a s ps)
  case 0
  have u: "unat (a + of_nat PGSIZE) = unat a + PGSIZE"
    using "0.prems"(5) by (intro unat_offset) (simp add: PGSIZE_def)
  have "unat vend - unat a < PGSIZE"
    using "0.prems"(7) by (simp add: PGSIZE_def div_eq_0_iff)
  then have "\<not> a + of_nat PGSIZE \<le> vend"
    using u by (simp add: word_le_nat_alt)
  then show ?case using "0.prems" by (simp add: freerange_loop.simps [of a] range_pages_def)
next
  case (Suc n)
  let ?b = "a + of_nat PGSIZE"
  have u: "unat ?b = unat a + PGSIZE"
    using Suc.prems(5) by (intro unat_offset) (simp add: PGSIZE_def)
  have n: "Suc n * PGSIZE \<le> unat vend - unat a"
    unfolding Suc.prems(7) by (rule div_times_less_eq_dividend)
  then have le: "unat a + PGSIZE \<le> unat vend" by (simp add: PGSIZE_def)
  have v: "page_ok s a"
    using Suc.prems(2-6) le by (simp add: page_ok_def V2P_below PGSIZE_def)
  have new: "a \<notin> set ps" using Suc.prems(8) by (simp add: range_pages_Suc)
  obtain t where t: "kfree a s = Ok t" "free_pages t (a # ps)" "kend t = kend s" "use_lock t = use_lock s"
    using kfree_spec [OF Suc.prems(1) v new] by blast
  have "unat a + x < 2 ^ 32" if "x \<le> unat vend - unat a" for x
    using that le Suc.prems(6) by simp
  then have "a \<notin> set (range_pages ?b n)" using n by (intro range_pages_above) blast
  then have disj: "set (a # ps) \<inter> set (range_pages ?b n) = {}"
    using Suc.prems(8) by (auto simp: range_pages_Suc)
  have dv: "n = (unat vend - unat ?b) div PGSIZE"
    using Suc.prems(7) le le_div_geq [of PGSIZE "unat vend - unat a"] unfolding u
    by (simp add: PGSIZE_def)
  have "kend t \<le> ?b"
    using Suc.prems(3) t(3) u by (simp add: word_le_nat_alt)
  then obtain w where "freerange_loop ?b vend t = Ok w"
    "free_pages w (rev (range_pages ?b n) @ a # ps)" "kend w = kend t" "use_lock w = use_lock t"
    using Suc.IH [OF t(2) _ _ _ _ Suc.prems(6) dv disj] u le Suc.prems(2,4,6) by auto
  moreover have "?b \<le> vend" using le u by (simp add: word_le_nat_alt)
  ultimately show ?case
    using t by (simp add: freerange_loop.simps [of a] range_pages_Suc)
qed

section \<open>Properties\<close>

text \<open>A machine whose free list holds the single page at \<^verbatim>\<open>0x80400000\<close>.\<close>

definition kmem_ex :: kmem_st where
  "kmem_ex = kcore.extend core_ex
     \<lparr>mem = (\<lambda>_. 0), use_lock = True, freelist = 0x80400000, kend = 0x80200000\<rparr>"

lemma kmem_ex_fields [simp]:
  "mem kmem_ex = (\<lambda>_. 0)" "use_lock kmem_ex" "freelist kmem_ex = 0x80400000" "kend kmem_ex = 0x80200000"
  by (simp_all add: kmem_ex_def kcore.defs kmem_st.defs)

lemma kmem_ex_quiet: "quiet kmem_ex"
proof -
  have "same_core kmem_ex core_ex" by (simp add: same_core_def kmem_ex_def kcore.defs core_ex_def)
  then show ?thesis using core_ex_quiet same_coreD(7) by blast
qed

lemma kmem_ex_pages: "free_pages kmem_ex [0x80400000]"
  using quiet_ready [OF kmem_ex_quiet]
  by (simp add: free_pages_def kmem_ready_def page_ok_def PGSIZE_def V2P_def PHYSTOP_def KERNBASE_def
      load32_def word_le_nat_alt word_less_nat_alt)

text \<open>C15: Pages handed out by consecutive calls of \<^verbatim>\<open>kalloc\<close> are pairwise different, non-null and no
  longer on the free list, as long as the list holds enough pages.\<close>

theorem kalloc_distinct:
  assumes "free_pages s ps" and "n \<le> length ps"
  shows "\<exists>qs t. alloc_many kalloc n s = Ok (qs, t) \<and> length qs = n \<and> distinct qs \<and> 0 \<notin> set qs \<and>
     free_pages t (drop n ps) \<and> set qs \<inter> set (drop n ps) = {}"
  by (rule kpages.alloc_many_distinct [OF assms])

theorem kalloc_distinct_witness:
  "free_pages kmem_ex [0x80400000] \<and>
   (\<exists>qs t. alloc_many kalloc 1 kmem_ex = Ok (qs, t) \<and> length qs = 1 \<and> free_pages t [])"
  using kalloc_distinct [OF kmem_ex_pages, of 1] kmem_ex_pages by auto

text \<open>C10: \<^verbatim>\<open>kfree\<close> and \<^verbatim>\<open>kalloc\<close> are inverse.  Freeing a page that is not free succeeds, changes no
  byte outside that page, leaves no lock held, and the next \<^verbatim>\<open>kalloc\<close> returns the page with
  the free list as it was before.\<close>

theorem kfree_kalloc_roundtrip:
  assumes "free_pages s ps" and "page_ok s p" and "p \<notin> set ps" and "quiet s"
  shows "\<exists>t u. kfree p s = Ok t \<and> quiet t \<and> free_pages t (p # ps) \<and>
     (\<forall>x. \<not> within p PGSIZE x \<longrightarrow> mem t x = mem s x) \<and>
     kalloc t = Ok (p, u) \<and> free_pages u ps \<and> quiet u"
proof -
  obtain t where t: "kfree p s = Ok t" "free_pages t (p # ps)" "quiet t"
    "\<forall>x. \<not> within p PGSIZE x \<longrightarrow> mem t x = mem s x"
    using kfree_spec [OF assms(1-3)] assms(4) by blast
  obtain u where "kalloc t = Ok (p, u)" "free_pages u ps" "quiet u"
    using kalloc_spec [OF t(2)] t(3) by auto
  with t show ?thesis by blast
qed

theorem kfree_kalloc_roundtrip_witness:
  "page_ok kmem_ex 0x80500000 \<and> (\<exists>t u. kfree 0x80500000 kmem_ex = Ok t \<and>
     free_pages t [0x80500000, 0x80400000] \<and> kalloc t = Ok (0x80500000, u) \<and>
     free_pages u [0x80400000])"
proof -
  have p: "page_ok kmem_ex 0x80500000"
    by (simp add: page_ok_def PGSIZE_def V2P_def PHYSTOP_def KERNBASE_def word_le_nat_alt word_less_nat_alt)
  show ?thesis
    using p kfree_kalloc_roundtrip [OF kmem_ex_pages p _ kmem_ex_quiet] by auto
qed

text \<open>C16: \<^verbatim>\<open>kinit1\<close> puts every whole page between \<^verbatim>\<open>vstart\<close> and \<^verbatim>\<open>vend\<close> on the free list exactly once
  and nothing else.\<close>

theorem kinit1_free_list:
  assumes "freelist s = 0" and "kend s \<le> vstart" and "0x80000000 \<le> unat vstart"
    and "unat vstart \<le> 0x8E000000" and "unat vend \<le> 0x8E000000"
  shows "\<exists>t. kinit1 vstart vend s = Ok t \<and>
     free_pages t (rev (range_pages (PGROUNDUP vstart)
                         ((unat vend - unat (PGROUNDUP vstart)) div PGSIZE)))"
proof -
  let ?a = "PGROUNDUP vstart"
  let ?s = "(initlock KmemLock ''kmem'' s)\<lparr>use_lock := False\<rparr>"
  have ua: "unat ?a = (unat vstart + (PGSIZE - 1)) div PGSIZE * PGSIZE"
    using assms(4) by (intro unat_PGROUNDUP) (simp add: PGSIZE_def)
  have al: "unat ?a mod PGSIZE = 0" using ua by simp
  have ge: "unat vstart \<le> unat ?a" and hi: "unat ?a \<le> 0x8E000000"
    using ua assms(4) by (simp_all add: PGSIZE_def)
  have rep: "free_pages ?s []"
    using assms(1) by (simp add: free_pages_def kmem_ready_def initlock_def)
  have "kend ?s \<le> ?a" using assms(2) ge by (simp add: initlock_def word_le_nat_alt)
  then show ?thesis
    using freerange_loop_spec [OF rep al _ _ hi assms(5) refl] ge assms(3)
    by (auto simp: kinit1_def freerange_def Let_def)
qed

theorem kinit1_free_list_witness:
  "\<exists>t. kinit1 0x80300001 0x80303000 (kmem_ex\<lparr>freelist := 0\<rparr>) = Ok t \<and>
     free_pages t [0x80302000, 0x80301000]"
  using kinit1_free_list [of "kmem_ex\<lparr>freelist := 0\<rparr>" "0x80300001" "0x80303000"]
  by (simp add: word_le_nat_alt PGROUNDUP_def PGSIZE_def range_pages_def upt_rec)

end
