(* ===== verification/Mlfq.thy ===== *)
theory Mlfq
  imports Kalloc "HOL-Library.Multiset"
begin

text \<open>
  The process table and the queues of the multi-level feedback queue scheduler: \<^verbatim>\<open>proc.h\<close>,
  \<^verbatim>\<open>pstat.h\<close> and the queue functions of \<^verbatim>\<open>proc.c\<close> (\<^verbatim>\<open>returnQueue\<close>, \<^verbatim>\<open>addQueue\<close>, \<^verbatim>\<open>deleteQueue\<close>,
  \<^verbatim>\<open>degrade\<close>, \<^verbatim>\<open>updatePstat\<close>, \<^verbatim>\<open>returnProc\<close>, \<^verbatim>\<open>boost\<close>).

  A \<^verbatim>\<open>struct proc *\<close> is the index of the process in \<^verbatim>\<open>ptable.proc\<close>; a null pointer is \<open>None\<close>.
  A \<^verbatim>\<open>struct pqueue *\<close> is one of \<open>Q0\<close>, \<open>Q1\<close>, \<open>Q2\<close>.  The counters of the queues are C \<^verbatim>\<open>int\<close>s
  that move by one; they are mathematical integers here, since every out-of-range value
  faults in an array access long before it could overflow.

  \<open>qlist\<close> abstracts a queue to the list of its processes and \<open>levels\<close> the three queues to three
  lists.  The second half relates each operation to an operation on these lists.
\<close>

section \<open>Data\<close>

definition NTICKS :: nat where "NTICKS = 500"
definition NSCHEDSTATS :: nat where "NSCHEDSTATS = 1500"

lemmas pstat_defs = NTICKS_def NSCHEDSTATS_def

record sched_stat_t =
  start_tick :: "32 word"
  duration :: "32 word"
  st_priority :: int

datatype procstate = UNUSED | EMBRYO | SLEEPING | RUNNABLE | RUNNING | ZOMBIE

text \<open>
  Sleep channels.  In the source a channel is the address of an object; the objects are
  different variables, so different constructors are different channels.
\<close>

datatype chan =
    ChProc nat | ChTicks | ChCons | ChLog | ChBuf nat | ChBufLk nat | ChInodeLk nat
  | ChPipeRead addr | ChPipeWrite addr

record proc =
  p_sz :: "32 word"
  p_pgdir :: addr
  p_kstack :: addr
  p_state :: procstate
  p_pid :: int
  p_parent :: "nat option"
  p_tf :: addr
  p_context :: addr
  p_chan :: "chan option"
  p_killed :: bool
  p_ofile :: "nat option list"
  p_cwd :: "nat option"
  p_name :: "byte list"
  p_priority :: int
  p_ticks :: "int list"
  p_times :: "int list"
  p_queue :: "int list"
  p_total_ticks :: int
  p_wait_time :: int
  p_stats :: "sched_stat_t list"
  p_num_stat_used :: int
  p_Ticks :: int

record pqueue =
  pq_queue :: "nat option list"
  pq_ticks :: int
  pq_end :: int
  pq_num :: int
  pq_priority :: int

datatype qid = Q0 | Q1 | Q2

text \<open>
  \<^verbatim>\<open>queue0\<close>, \<^verbatim>\<open>name0\<close>, \<^verbatim>\<open>state0\<close> and so on are the debugging arrays of \<^verbatim>\<open>proc.c\<close>.  An entry of
  \<^verbatim>\<open>name0\<close> is a pointer to the name of a process, so it is the index of that process.
\<close>

record proc_st = kmem_st +
  procs :: "proc list"
  q0 :: pqueue
  q1 :: pqueue
  q2 :: pqueue
  TOTAL :: int
  nextpid :: int
  initproc :: "nat option"
  ticks :: "32 word"
  queue0 :: "int list"
  queue1 :: "int list"
  queue2 :: "int list"
  name0 :: "nat option list"
  name1 :: "nat option list"
  name2 :: "nat option list"
  state0 :: "string option list"
  state1 :: "string option list"
  state2 :: "string option list"

definition upd_proc :: "nat \<Rightarrow> (proc \<Rightarrow> proc) \<Rightarrow> 'z proc_st_scheme \<Rightarrow> 'z proc_st_scheme" where
  "upd_proc p f s = s\<lparr>procs := (procs s)[p := f (procs s ! p)]\<rparr>"

definition pstate :: "'z proc_st_scheme \<Rightarrow> nat \<Rightarrow> procstate" where
  "pstate s p = p_state (procs s ! p)"

fun getq :: "qid \<Rightarrow> 'z proc_st_scheme \<Rightarrow> pqueue" where
  "getq Q0 s = q0 s"
| "getq Q1 s = q1 s"
| "getq Q2 s = q2 s"

fun setq :: "qid \<Rightarrow> pqueue \<Rightarrow> 'z proc_st_scheme \<Rightarrow> 'z proc_st_scheme" where
  "setq Q0 q s = s\<lparr>q0 := q\<rparr>"
| "setq Q1 q s = s\<lparr>q1 := q\<rparr>"
| "setq Q2 q s = s\<lparr>q2 := q\<rparr>"

section \<open>Operations on the queues\<close>

text \<open>The writes of \<^verbatim>\<open>addQueue\<close> and \<^verbatim>\<open>deleteQueue\<close> to the queue itself.\<close>

definition pq_add :: "nat \<Rightarrow> pqueue \<Rightarrow> pqueue kres" where
  "pq_add p q =
     kbind (awrite (pq_queue q) (pq_end q) (Some p)) (\<lambda>a.
     Ok (q\<lparr>pq_queue := a, pq_end := pq_end q + 1, pq_num := pq_num q + 1\<rparr>))"

function dq_find :: "nat option list \<Rightarrow> int \<Rightarrow> nat \<Rightarrow> int \<Rightarrow> int kres" where
  "dq_find a e p i =
     (if i < e then kbind (aread a i) (\<lambda>x. if x = Some p then Ok i else dq_find a e p (i + 1))
      else Ok i)"
  by pat_completeness auto
termination by (relation "measure (\<lambda>(a, e, p, i). nat (e - i))") auto

function dq_shift :: "nat option list \<Rightarrow> int \<Rightarrow> int \<Rightarrow> nat option list kres" where
  "dq_shift a e j =
     (if j < e then kbind (aread a (j + 1)) (\<lambda>x. kbind (awrite a j x) (\<lambda>a'. dq_shift a' e (j + 1)))
      else Ok a)"
  by pat_completeness auto
termination by (relation "measure (\<lambda>(a, e, j). nat (e - j))") auto

declare dq_find.simps [simp del] dq_shift.simps [simp del]

definition pq_del :: "nat \<Rightarrow> pqueue \<Rightarrow> pqueue kres" where
  "pq_del p q =
     kbind (dq_find (pq_queue q) (pq_end q) p 0) (\<lambda>i.
     kbind (dq_shift (pq_queue q) (pq_end q) i) (\<lambda>a.
     Ok (q\<lparr>pq_queue := a, pq_end := pq_end q - 1, pq_num := pq_num q - 1\<rparr>)))"

definition addQueue :: "qid \<Rightarrow> nat \<Rightarrow> 'z proc_st_scheme \<Rightarrow> 'z proc_st_scheme kres" where
  "addQueue qi p s =
     kbind (pq_add p (getq qi s)) (\<lambda>q.
     Ok (upd_proc p (\<lambda>x. x\<lparr>p_Ticks := 0, p_priority := pq_priority q\<rparr>) (setq qi q s)))"

definition deleteQueue :: "qid \<Rightarrow> nat \<Rightarrow> 'z proc_st_scheme \<Rightarrow> 'z proc_st_scheme kres" where
  "deleteQueue qi p s = kbind (pq_del p (getq qi s)) (\<lambda>q. Ok (setq qi q s))"

definition degrade :: "qid \<Rightarrow> nat \<Rightarrow> 'z proc_st_scheme \<Rightarrow> 'z proc_st_scheme kres" where
  "degrade pq p s =
     (if pq_priority (getq pq s) = 0 then kbind (deleteQueue Q0 p s) (addQueue Q1 p)
      else if pq_priority (getq pq s) = 1 then kbind (deleteQueue Q1 p s) (addQueue Q2 p)
      else Ok s)"

text \<open>
  The loops that look for a \<^verbatim>\<open>RUNNABLE\<close> process: the index of the first one, or the end of
  the queue.  Every entry read is dereferenced.
\<close>

function scan_runnable :: "proc list \<Rightarrow> nat option list \<Rightarrow> int \<Rightarrow> int \<Rightarrow> int kres" where
  "scan_runnable ps a e i =
     (if i < e then
        kbind (aread a i) (\<lambda>x. kbind (deref x) (\<lambda>p. kbind (aread ps (int p)) (\<lambda>pr.
        if p_state pr = RUNNABLE then Ok i else scan_runnable ps a e (i + 1))))
      else Ok i)"
  by pat_completeness auto
termination by (relation "measure (\<lambda>(ps, a, e, i). nat (e - i))") auto

declare scan_runnable.simps [simp del]

definition level_ready :: "qid \<Rightarrow> 'z proc_st_scheme \<Rightarrow> bool kres" where
  "level_ready qi s =
     (let q = getq qi s in
      if pq_num q \<noteq> 0
      then kbind (scan_runnable (procs s) (pq_queue q) (pq_end q) 0) (\<lambda>i. Ok (i < pq_end q))
      else Ok False)"

definition returnQueue :: "'z proc_st_scheme \<Rightarrow> qid kres" where
  "returnQueue s =
     kbind (level_ready Q0 s) (\<lambda>b0. if b0 then Ok Q0 else
     kbind (level_ready Q1 s) (\<lambda>b1. if b1 then Ok Q1 else
     kbind (level_ready Q2 s) (\<lambda>b2. if b2 then Ok Q2 else Ok Q0)))"

definition returnProc :: "'z proc_st_scheme \<Rightarrow> (nat option \<times> 'z proc_st_scheme) kres" where
  "returnProc s =
     kbind (returnQueue s) (\<lambda>pq. let q = getq pq s in
     if pq_num q = 0 then Ok (None, s) else
     kbind (scan_runnable (procs s) (pq_queue q) (pq_end q) 0) (\<lambda>i.
     if i < pq_end q then
       kbind (aread (pq_queue q) i) (\<lambda>p.
       if i \<noteq> 0 then
         kbind (aread (pq_queue q) 0) (\<lambda>temp.
         kbind (awrite (pq_queue q) i temp) (\<lambda>a1.
         kbind (awrite a1 0 p) (\<lambda>a2. Ok (p, setq pq (q\<lparr>pq_queue := a2\<rparr>) s))))
       else Ok (p, s))
     else Ok (None, s)))"

definition updatePstat :: "'z proc_st_scheme \<Rightarrow> 'z proc_st_scheme kres" where
  "updatePstat s =
     foldk (\<lambda>p s.
       if pstate s p = RUNNABLE then
         kbind (awrite (p_queue (procs s ! p)) (TOTAL s) (p_priority (procs s ! p))) (\<lambda>a.
         let s1 = upd_proc p (\<lambda>x. x\<lparr>p_queue := a, p_total_ticks := p_total_ticks x + 1\<rparr>) s in
         if p_priority (procs s1 ! p) = 2
         then Ok (upd_proc p (\<lambda>x. x\<lparr>p_wait_time := p_wait_time x + 1\<rparr>) s1)
         else Ok s1)
       else Ok s) [0..<NPROC] s"

text \<open>The part of \<^verbatim>\<open>userinit\<close> that sets up the queues.\<close>

definition init_queues :: "'z proc_st_scheme \<Rightarrow> 'z proc_st_scheme" where
  "init_queues s = s\<lparr>
     q0 := (q0 s)\<lparr>pq_ticks := 1, pq_end := 0, pq_num := 0, pq_priority := 0\<rparr>,
     q1 := (q1 s)\<lparr>pq_ticks := 2, pq_end := 0, pq_num := 0, pq_priority := 1\<rparr>,
     q2 := (q2 s)\<lparr>pq_ticks := 8, pq_end := 0, pq_num := 0, pq_priority := 2\<rparr>,
     TOTAL := 0\<rparr>"

definition boost :: "nat \<Rightarrow> 'z proc_st_scheme \<Rightarrow> 'z proc_st_scheme kres" where
  "boost p s =
     kbind (deleteQueue Q2 p s) (\<lambda>s1.
     kbind (addQueue Q0 p s1) (\<lambda>s2.
     let s3 = upd_proc p (\<lambda>x. x\<lparr>p_priority := 0\<rparr>) s2; x = procs s3 ! p in
     kbind (aread (p_stats x) (p_num_stat_used x)) (\<lambda>st.
     kbind (awrite (p_stats x) (p_num_stat_used x) (st\<lparr>st_priority := 0\<rparr>)) (\<lambda>a.
     Ok (upd_proc p (\<lambda>x. x\<lparr>p_stats := a\<rparr>) s3)))))"

section \<open>Queues as lists\<close>

definition qlist :: "pqueue \<Rightarrow> nat list" where
  "qlist q = map the (take (nat (pq_end q)) (pq_queue q))"

definition queue_wf :: "pqueue \<Rightarrow> bool" where
  "queue_wf q \<longleftrightarrow> length (pq_queue q) = NPROC \<and> 0 \<le> pq_end q \<and> pq_end q \<le> int NPROC \<and>
     pq_num q = pq_end q \<and>
     (\<forall>x \<in> set (take (nat (pq_end q)) (pq_queue q)). case x of None \<Rightarrow> False | Some p \<Rightarrow> p < NPROC)"

text \<open>A well-formed queue holds the processes \<open>qlist q\<close> at its start.\<close>

lemma queue_wf_iff:
  "queue_wf q \<longleftrightarrow> length (pq_queue q) = NPROC \<and> pq_end q = int (length (qlist q)) \<and>
     length (qlist q) \<le> NPROC \<and> pq_num q = int (length (qlist q)) \<and>
     take (length (qlist q)) (pq_queue q) = map Some (qlist q) \<and> (\<forall>p \<in> set (qlist q). p < NPROC)"
  (is "_ \<longleftrightarrow> ?r")
proof
  assume wf: "queue_wf q"
  then have e: "nat (pq_end q) = length (qlist q)" and e': "pq_end q = int (length (qlist q))"
    by (auto simp: queue_wf_def qlist_def min_def)
  let ?t = "take (nat (pq_end q)) (pq_queue q)"
  have el: "x = Some (the x) \<and> the x < NPROC" if "x \<in> set ?t" for x
    using wf that by (auto simp: queue_wf_def split: option.splits)
  have m: "map Some (qlist q) = ?t" using el unfolding qlist_def by (simp add: map_idI)
  have b: "p < NPROC" if "p \<in> set (qlist q)" for p
    using that el unfolding qlist_def by (metis (no_types, lifting) imageE set_map)
  show ?r using wf e e' m b by (simp add: queue_wf_def)
next
  assume r: ?r
  then have "nat (pq_end q) = length (qlist q)" by simp
  then show "queue_wf q" using r by (simp add: queue_wf_def)
qed

lemma queue_wfI:
  assumes "length (pq_queue q) = NPROC" and "pq_end q = int (length xs)" and "pq_num q = int (length xs)"
    and "take (length xs) (pq_queue q) = map Some xs" and "\<forall>p \<in> set xs. p < NPROC"
  shows "queue_wf q \<and> qlist q = xs"
proof -
  have l: "qlist q = xs" using assms by (simp add: qlist_def comp_def)
  moreover have "length xs \<le> NPROC" using arg_cong [OF assms(4), of length] assms(1) by simp
  ultimately show ?thesis using assms by (simp add: queue_wf_iff)
qed

lemma queue_wf_nth: "queue_wf q \<Longrightarrow> i < length (qlist q) \<Longrightarrow> pq_queue q ! i = Some (qlist q ! i)"
  by (metis length_map nth_map nth_take queue_wf_iff)

lemma dq_find_spec:
  assumes "i \<le> e" and "e \<le> length a"
  shows "\<exists>k. dq_find a (int e) p (int i) = Ok (int k) \<and> i \<le> k \<and> k \<le> e \<and>
     (\<forall>j. i \<le> j \<and> j < k \<longrightarrow> a ! j \<noteq> Some p) \<and> (k < e \<longrightarrow> a ! k = Some p)"
  using assms
proof (induction "e - i" arbitrary: i)
  case 0
  then show ?case by (intro exI [of _ i]) (auto simp: dq_find.simps)
next
  case (Suc n)
  then have i: "i < e" by simp
  show ?case
  proof (cases "a ! i = Some p")
    case True
    then show ?thesis using i Suc.prems by (intro exI [of _ i]) (auto simp: dq_find.simps [of a "int e"])
  next
    case False
    have "dq_find a (int e) p (int i) = dq_find a (int e) p (int (Suc i))"
      using i Suc.prems False by (simp add: dq_find.simps [of a "int e" p "int i"] algebra_simps)
    moreover obtain k where "dq_find a (int e) p (int (Suc i)) = Ok (int k)" "Suc i \<le> k" "k \<le> e"
      "\<forall>j. Suc i \<le> j \<and> j < k \<longrightarrow> a ! j \<noteq> Some p" "k < e \<longrightarrow> a ! k = Some p"
    proof -
      have "n = e - Suc i" using Suc.hyps(2) by simp
      then show ?thesis using that Suc.hyps(1) [of "Suc i"] i Suc.prems(2) by (metis Suc_leI)
    qed
    ultimately show ?thesis
      using False by (intro exI [of _ k]) (metis Suc_leD Suc_leI le_neq_implies_less)
  qed
qed

lemma dq_shift_spec:
  assumes "j \<le> e" and "e < length a \<or> j = e"
  shows "dq_shift a (int e) (int j) = Ok (take j a @ take (e - j) (drop (Suc j) a) @ drop e a)"
  using assms
proof (induction "e - j" arbitrary: j a)
  case 0
  then show ?case by (simp add: dq_shift.simps [of a])
next
  case (Suc n)
  then have j: "j < e" "e < length a" by auto
  let ?b = "a[j := a ! Suc j]"
  have "dq_shift a (int e) (int j) = dq_shift ?b (int e) (int (Suc j))"
    using j aread_nat [of "Suc j" a] awrite_nat [of j a "a ! Suc j"]
    by (simp add: dq_shift.simps [of a] algebra_simps)
  also have "\<dots> = Ok (take (Suc j) ?b @ take (e - Suc j) (drop (Suc (Suc j)) ?b) @ drop e ?b)"
    using Suc.hyps(1) [of "Suc j" ?b] Suc.hyps(2) j by simp
  also have "take (Suc j) ?b = take j a @ [a ! Suc j]" using j by (simp add: take_Suc_update)
  also have "drop (Suc (Suc j)) ?b = drop (Suc (Suc j)) a" by simp
  also have "drop e ?b = drop e a" using j by simp
  also have "take j a @ [a ! Suc j] = take j a @ take 1 (drop (Suc j) a)"
    using j by (simp add: take_Suc_conv_app_nth)
  finally show ?case
    using j by (simp add: take_Suc_conv_app_nth Cons_nth_drop_Suc [symmetric] Suc_diff_Suc [symmetric])
qed

text \<open>Adding a process appends it; with 64 entries the write is out of bounds.\<close>

lemma pq_add_spec:
  assumes wf: "queue_wf q" and "length (qlist q) < NPROC" and "p < NPROC"
  shows "\<exists>q'. pq_add p q = Ok q' \<and> queue_wf q' \<and> qlist q' = qlist q @ [p] \<and>
     pq_ticks q' = pq_ticks q \<and> pq_priority q' = pq_priority q"
proof -
  note w = wf [unfolded queue_wf_iff]
  let ?q = "q\<lparr>pq_queue := (pq_queue q)[length (qlist q) := Some p],
              pq_end := pq_end q + 1, pq_num := pq_num q + 1\<rparr>"
  have "pq_add p q = Ok ?q" using w assms(2) by (simp add: pq_add_def)
  moreover have "queue_wf ?q \<and> qlist ?q = qlist q @ [p]"
    using w assms(2,3) by (intro queue_wfI) (auto simp: take_Suc_update)
  ultimately show ?thesis by simp
qed

lemma pq_add_full:
  assumes "queue_wf q" and "length (qlist q) = NPROC"
  shows "pq_add p q = Fault ''array index out of range''"
  using assms by (simp add: pq_add_def awrite_def queue_wf_iff)

text \<open>Deleting a process that is in the queue removes its first occurrence.\<close>

lemma pq_del_member:
  assumes wf: "queue_wf q" and "length (qlist q) < NPROC" and "p \<in> set (qlist q)"
  shows "\<exists>q'. pq_del p q = Ok q' \<and> queue_wf q' \<and> qlist q' = remove1 p (qlist q) \<and>
     pq_ticks q' = pq_ticks q \<and> pq_priority q' = pq_priority q"
proof -
  note w = wf [unfolded queue_wf_iff]
  let ?n = "length (qlist q)" and ?a = "pq_queue q"
  obtain k where k: "dq_find ?a (int ?n) p 0 = Ok (int k)" "k \<le> ?n"
    "\<forall>j<k. ?a ! j \<noteq> Some p" "k < ?n \<longrightarrow> ?a ! k = Some p"
    using dq_find_spec [of 0 ?n ?a p] w by auto
  have "\<exists>j<?n. qlist q ! j = p" using assms(3) by (simp add: in_set_conv_nth)
  then have kn: "k < ?n"
    using k(2,3) queue_wf_nth [OF wf] by (metis linorder_neqE_nat not_less)
  have sh: "dq_shift ?a (int ?n) (int k) = Ok (take k ?a @ take (?n - k) (drop (Suc k) ?a) @ drop ?n ?a)"
    using kn assms(2) w by (intro dq_shift_spec) simp_all
  let ?b = "take k ?a @ take (?n - k) (drop (Suc k) ?a) @ drop ?n ?a"
  let ?q = "q\<lparr>pq_queue := ?b, pq_end := pq_end q - 1, pq_num := pq_num q - 1\<rparr>"
  have "pq_del p q = Ok ?q" using k(1) sh w by (simp add: pq_del_def)
  have pk: "qlist q ! k = p" using k(4) kn queue_wf_nth [OF wf kn] by simp
  have "p \<notin> set (take k (qlist q))"
    using k(3) kn queue_wf_nth [OF wf] by (auto simp: in_set_conv_nth)
  then have r: "remove1 p (qlist q) = take k (qlist q) @ drop (Suc k) (qlist q)"
    using id_take_nth_drop [OF kn] pk by (metis remove1_split)
  have m: "map Some (qlist q) = take ?n ?a" using w by simp
  have "map Some (remove1 p (qlist q)) = take k ?a @ take (?n - Suc k) (drop (Suc k) ?a)"
    using kn by (simp add: r take_map [symmetric] drop_map [symmetric] m min_def drop_take)
  moreover have "take (?n - 1) ?b = take k ?a @ take (?n - Suc k) (drop (Suc k) ?a)"
  proof -
    have "min (length ?a) k = k" "min (?n - 1) k = k" "min (?n - Suc k) (?n - k) = ?n - Suc k"
      using kn w by auto
    moreover have "?n - Suc k \<le> length (drop (Suc k) ?a)" using w by (simp add: diff_le_mono)
    ultimately show ?thesis using kn w by simp
  qed
  ultimately have tk: "take (?n - 1) ?b = map Some (remove1 p (qlist q))" by simp
  have len: "length (remove1 p (qlist q)) = ?n - 1" using assms(3) by (simp add: length_remove1)
  have "queue_wf ?q \<and> qlist ?q = remove1 p (qlist q)"
  proof (intro queue_wfI)
    show "length (pq_queue ?q) = NPROC" using w kn assms(2) by simp
    show "pq_end ?q = int (length (remove1 p (qlist q)))" "pq_num ?q = int (length (remove1 p (qlist q)))"
      using w kn len by simp_all
    show "take (length (remove1 p (qlist q))) (pq_queue ?q) = map Some (remove1 p (qlist q))"
      using tk len by simp
    show "\<forall>x \<in> set (remove1 p (qlist q)). x < NPROC"
      using w by (meson notin_set_remove1)
  qed
  with \<open>pq_del p q = Ok ?q\<close> show ?thesis by simp
qed

text \<open>Deleting a process that is not in the queue drops the last process of the queue.\<close>

lemma pq_del_absent:
  assumes wf: "queue_wf q" and "qlist q \<noteq> []" and "p \<notin> set (qlist q)"
  shows "\<exists>q'. pq_del p q = Ok q' \<and> queue_wf q' \<and> qlist q' = butlast (qlist q)"
proof -
  note w = wf [unfolded queue_wf_iff]
  let ?n = "length (qlist q)" and ?a = "pq_queue q"
  obtain k where k: "dq_find ?a (int ?n) p 0 = Ok (int k)" "k \<le> ?n" "k < ?n \<longrightarrow> ?a ! k = Some p"
    using dq_find_spec [of 0 ?n ?a p] w by auto
  have "k = ?n" using k(2,3) assms(3) queue_wf_nth [OF wf, of k] by (metis nth_mem le_neq_implies_less option.inject)
  then have del: "pq_del p q = Ok (q\<lparr>pq_queue := ?a, pq_end := pq_end q - 1, pq_num := pq_num q - 1\<rparr>)"
    using k(1) w by (simp add: pq_del_def dq_shift.simps [of ?a])
  have len: "length (butlast (qlist q)) = ?n - 1" "?n \<ge> 1" using assms(2) by (simp_all add: Suc_leI)
  have "take (?n - 1) ?a = take (?n - 1) (take ?n ?a)" by simp
  also have "\<dots> = map Some (butlast (qlist q))" using w by (simp add: butlast_conv_take take_map)
  finally have tk: "take (?n - 1) ?a = map Some (butlast (qlist q))" .
  let ?q = "q\<lparr>pq_queue := ?a, pq_end := pq_end q - 1, pq_num := pq_num q - 1\<rparr>"
  have "queue_wf ?q \<and> qlist ?q = butlast (qlist q)"
  proof (intro queue_wfI)
    show "pq_end ?q = int (length (butlast (qlist q)))" "pq_num ?q = int (length (butlast (qlist q)))"
      using w len by simp_all
    show "\<forall>x \<in> set (butlast (qlist q)). x < NPROC" using w by (meson in_set_butlastD)
  qed (use w len tk in simp_all)
  with del show ?thesis by blast
qed

text \<open>Deleting from a full queue reads the entry behind the array.\<close>

lemma dq_shift_full:
  assumes "j < length a"
  shows "dq_shift a (int (length a)) (int j) = Fault ''array index out of range''"
  using assms
proof (induction "length a - j" arbitrary: j a)
  case 0
  then show ?case by simp
next
  case (Suc n)
  show ?case
  proof (cases "Suc j < length a")
    case True
    let ?b = "a[j := a ! Suc j]"
    have "dq_shift a (int (length a)) (int j) = dq_shift ?b (int (length a)) (int (Suc j))"
      using True aread_nat [of "Suc j" a] awrite_nat [of j a "a ! Suc j"]
      by (simp add: dq_shift.simps [of a] algebra_simps)
    then show ?thesis using Suc.hyps(1) [of ?b "Suc j"] Suc.hyps(2) True by simp
  next
    case False
    then have "\<not> nat (int j + 1) < length a" by simp
    then show ?thesis
      using Suc.prems by (simp add: dq_shift.simps [of a] aread_def)
  qed
qed

lemma pq_del_full:
  assumes wf: "queue_wf q" and "length (qlist q) = NPROC" and "p \<in> set (qlist q)"
  shows "pq_del p q = Fault ''array index out of range''"
proof -
  note w = wf [unfolded queue_wf_iff]
  let ?n = "length (qlist q)" and ?a = "pq_queue q"
  obtain k where k: "dq_find ?a (int ?n) p 0 = Ok (int k)" "k \<le> ?n" "\<forall>j<k. ?a ! j \<noteq> Some p"
    using dq_find_spec [of 0 ?n ?a p] w by auto
  have "\<exists>j<?n. qlist q ! j = p" using assms(3) by (simp add: in_set_conv_nth)
  then have kn: "k < ?n"
    using k(2,3) queue_wf_nth [OF wf] by (metis linorder_neqE_nat not_less)
  have "length ?a = ?n" using w assms(2) by simp
  then show ?thesis using k(1) kn w dq_shift_full [of k ?a] by (simp add: pq_del_def)
qed

section \<open>The contract of one level\<close>

text \<open>
  A level of the scheduler keeps a list of processes.  Adding appends, deleting a member
  removes it, and putting the first process behind the others rotates the list, so the
  processes of a level take turns.
\<close>

definition requeue :: "(nat \<Rightarrow> 'q \<Rightarrow> 'q kres) \<Rightarrow> (nat \<Rightarrow> 'q \<Rightarrow> 'q kres) \<Rightarrow> nat \<Rightarrow> 'q \<Rightarrow> 'q kres" where
  "requeue add del p q = kbind (del p q) (add p)"

locale process_queue =
  fixes add :: "nat \<Rightarrow> 'q \<Rightarrow> 'q kres"
    and del :: "nat \<Rightarrow> 'q \<Rightarrow> 'q kres"
    and content :: "'q \<Rightarrow> nat list"
    and wf :: "'q \<Rightarrow> bool"
    and capacity :: nat
  assumes add_law: "wf q \<Longrightarrow> length (content q) < capacity \<Longrightarrow> p < capacity \<Longrightarrow>
        \<exists>q'. add p q = Ok q' \<and> wf q' \<and> content q' = content q @ [p]"
    and del_law: "wf q \<Longrightarrow> length (content q) < capacity \<Longrightarrow> p \<in> set (content q) \<Longrightarrow>
        \<exists>q'. del p q = Ok q' \<and> wf q' \<and> content q' = remove1 p (content q)"
    and content_bound: "wf q \<Longrightarrow> p \<in> set (content q) \<Longrightarrow> p < capacity"
begin

lemma requeue_moves_back:
  assumes "wf q" and "length (content q) < capacity" and "p \<in> set (content q)"
  shows "\<exists>q'. requeue add del p q = Ok q' \<and> wf q' \<and> content q' = remove1 p (content q) @ [p]"
proof -
  obtain q1 where q1: "del p q = Ok q1" "wf q1" "content q1 = remove1 p (content q)"
    using del_law [OF assms] by blast
  have "length (content q1) < capacity" using q1(3) assms(2) by (auto simp: length_remove1)
  then obtain q2 where "add p q1 = Ok q2" "wf q2" "content q2 = content q1 @ [p]"
    using add_law [OF q1(2)] content_bound [OF assms(1,3)] by blast
  with q1 show ?thesis by (simp add: requeue_def)
qed

lemma requeue_rotates:
  "wf q \<Longrightarrow> content q = xs @ ys \<Longrightarrow> length (xs @ ys) < capacity \<Longrightarrow>
     \<exists>q'. foldk (requeue add del) xs q = Ok q' \<and> wf q' \<and> content q' = ys @ xs"
proof (induction xs arbitrary: q ys)
  case Nil
  then show ?case by simp
next
  case (Cons x xs)
  obtain q1 where q1: "requeue add del x q = Ok q1" "wf q1" "content q1 = xs @ ys @ [x]"
    using requeue_moves_back [OF Cons.prems(1), of x] Cons.prems(2,3) by auto
  then obtain q2 where "foldk (requeue add del) xs q1 = Ok q2" "wf q2" "content q2 = (ys @ [x]) @ xs"
    using Cons.IH [OF q1(2), of "ys @ [x]"] Cons.prems(3) by auto
  with q1(1) show ?case by simp
qed

end

interpretation pq: process_queue pq_add pq_del qlist queue_wf NPROC
proof
  show "\<exists>q'. pq_add p q = Ok q' \<and> queue_wf q' \<and> qlist q' = qlist q @ [p]"
    if "queue_wf q" "length (qlist q) < NPROC" "p < NPROC" for p q
    using pq_add_spec [OF that] by blast
  show "\<exists>q'. pq_del p q = Ok q' \<and> queue_wf q' \<and> qlist q' = remove1 p (qlist q)"
    if "queue_wf q" "length (qlist q) < NPROC" "p \<in> set (qlist q)" for p q
    using pq_del_member [OF that] by blast
qed (simp add: queue_wf_iff)

section \<open>The three levels\<close>

primrec prio :: "qid \<Rightarrow> int" where
  "prio Q0 = 0"
| "prio Q1 = 1"
| "prio Q2 = 2"

primrec slice_of :: "qid \<Rightarrow> int" where
  "slice_of Q0 = 1"
| "slice_of Q1 = 2"
| "slice_of Q2 = 8"

instantiation qid :: linorder
begin

definition less_eq_qid :: "qid \<Rightarrow> qid \<Rightarrow> bool" where
  "less_eq_qid a b \<longleftrightarrow> prio a \<le> prio b"

definition less_qid :: "qid \<Rightarrow> qid \<Rightarrow> bool" where
  "less_qid a b \<longleftrightarrow> prio a < prio b"

instance
proof
  fix a b :: qid
  show "a \<le> b \<Longrightarrow> b \<le> a \<Longrightarrow> a = b" by (cases a; cases b) (simp_all add: less_eq_qid_def)
qed (auto simp: less_eq_qid_def less_qid_def)

end

instantiation qid :: enum
begin

definition enum_qid :: "qid list" where "enum_qid = [Q0, Q1, Q2]"
definition enum_all_qid :: "(qid \<Rightarrow> bool) \<Rightarrow> bool" where "enum_all_qid P \<longleftrightarrow> P Q0 \<and> P Q1 \<and> P Q2"
definition enum_ex_qid :: "(qid \<Rightarrow> bool) \<Rightarrow> bool" where "enum_ex_qid P \<longleftrightarrow> P Q0 \<or> P Q1 \<or> P Q2"

instance
proof
  have all: "x = Q0 \<or> x = Q1 \<or> x = Q2" for x by (cases x) auto
  show "(UNIV :: qid set) = set Enum.enum" using all by (auto simp: enum_qid_def)
  show "distinct (Enum.enum :: qid list)" by (simp add: enum_qid_def)
  show "Enum.enum_all P = Ball UNIV P" for P :: "qid \<Rightarrow> bool"
    using all by (auto simp: enum_all_qid_def) (metis all)
  show "Enum.enum_ex P = Bex UNIV P" for P :: "qid \<Rightarrow> bool"
    using all by (auto simp: enum_ex_qid_def) (metis all)
qed

end

lemma all_qid: "(\<forall>x. P x) \<longleftrightarrow> P Q0 \<and> P Q1 \<and> P Q2"
  by (metis qid.exhaust)

definition level :: "'z proc_st_scheme \<Rightarrow> qid \<Rightarrow> nat list" where
  "level s qi = qlist (getq qi s)"

text \<open>The state the scheduler works on: three well-formed queues set up as \<^verbatim>\<open>userinit\<close> does.\<close>

definition mlfq_wf :: "'z proc_st_scheme \<Rightarrow> bool" where
  "mlfq_wf s \<longleftrightarrow> length (procs s) = NPROC \<and>
     (\<forall>qi. queue_wf (getq qi s) \<and> pq_priority (getq qi s) = prio qi \<and> pq_ticks (getq qi s) = slice_of qi)"

definition only_queues :: "'z proc_st_scheme \<Rightarrow> 'z proc_st_scheme \<Rightarrow> bool" where
  "only_queues s t \<longleftrightarrow> (\<exists>ps a b c. t = s\<lparr>procs := ps, q0 := a, q1 := b, q2 := c\<rparr>)"

lemma getq_setq [simp]: "getq a (setq b q s) = (if a = b then q else getq a s)"
  by (cases a; cases b) auto

lemma procs_setq [simp]: "procs (setq a q s) = procs s"
  by (cases a) auto

lemma getq_upd_proc [simp]: "getq a (upd_proc p f s) = getq a s"
  by (cases a) (auto simp: upd_proc_def)

lemma procs_upd_proc [simp]: "procs (upd_proc p f s) = (procs s)[p := f (procs s ! p)]"
  by (simp add: upd_proc_def)

lemma level_setq [simp]: "level (setq a q s) = (level s)(a := qlist q)"
  by (auto simp: level_def)

lemma level_upd_proc [simp]: "level (upd_proc p f s) = level s"
  by (auto simp: level_def)

lemma only_queuesI:
  "t = s\<lparr>procs := ps, q0 := a, q1 := b, q2 := c\<rparr> \<Longrightarrow> only_queues s t"
  unfolding only_queues_def by blast

lemma only_queues_refl [simp]: "only_queues s s"
  by (rule only_queuesI [where ps = "procs s" and a = "q0 s" and b = "q1 s" and c = "q2 s"]) simp

lemma only_queues_trans [trans]: "only_queues s t \<Longrightarrow> only_queues t u \<Longrightarrow> only_queues s u"
  unfolding only_queues_def by (elim exE) auto

lemma only_queues_setq: "only_queues s t \<Longrightarrow> only_queues s (setq i q t)"
  by (erule only_queues_trans,
      rule only_queuesI [where ps = "procs t" and a = "q0 (setq i q t)" and b = "q1 (setq i q t)" and c = "q2 (setq i q t)"])
    (cases i; simp)

lemma only_queues_upd: "only_queues s t \<Longrightarrow> only_queues s (upd_proc p f t)"
  by (erule only_queues_trans,
      rule only_queuesI [where ps = "procs (upd_proc p f t)" and a = "q0 t" and b = "q1 t" and c = "q2 t"])
    (simp add: upd_proc_def)

lemmas only_queues_intros = only_queues_refl only_queues_setq only_queues_upd

lemma only_queuesD:
  assumes "only_queues s t"
  shows "same_core t s" and "mem t = mem s" and "TOTAL t = TOTAL s" and "ticks t = ticks s"
    and "nextpid t = nextpid s"
  using assms by (auto simp: only_queues_def same_core_def)

lemma mlfq_wf_queue: "mlfq_wf s \<Longrightarrow> queue_wf (getq qi s)"
  by (simp add: mlfq_wf_def)

lemma mlfq_wf_length: "mlfq_wf s \<Longrightarrow> length (procs s) = NPROC"
  by (simp add: mlfq_wf_def)

lemma mlfq_wf_level: "mlfq_wf s \<Longrightarrow> p \<in> set (level s qi) \<Longrightarrow> p < NPROC"
  using mlfq_wf_queue [of s qi] by (simp add: queue_wf_iff level_def)

lemma mlfq_wf_upd_proc [simp]: "mlfq_wf (upd_proc p f s) = mlfq_wf s"
  by (simp add: mlfq_wf_def)

lemma mlfq_wf_setq:
  assumes "mlfq_wf s" and "queue_wf q" and "pq_priority q = prio qi" and "pq_ticks q = slice_of qi"
  shows "mlfq_wf (setq qi q s)"
  using assms by (simp add: mlfq_wf_def)

lemma addQueue_spec:
  assumes "mlfq_wf s" and "length (level s qi) < NPROC" and "p < NPROC"
  shows "\<exists>t. addQueue qi p s = Ok t \<and> mlfq_wf t \<and> only_queues s t \<and>
     level t = (level s)(qi := level s qi @ [p]) \<and>
     procs t = (procs s)[p := (procs s ! p)\<lparr>p_Ticks := 0, p_priority := prio qi\<rparr>]"
proof -
  obtain q where q: "pq_add p (getq qi s) = Ok q" "queue_wf q" "qlist q = level s qi @ [p]"
    "pq_ticks q = slice_of qi" "pq_priority q = prio qi"
    using pq_add_spec [OF mlfq_wf_queue [OF assms(1)], of qi p] assms by (auto simp: level_def mlfq_wf_def)
  then show ?thesis
    using assms(1) by (simp add: addQueue_def mlfq_wf_setq only_queues_intros)
qed

lemma deleteQueue_spec:
  assumes "mlfq_wf s" and "length (level s qi) < NPROC" and "p \<in> set (level s qi)"
  shows "\<exists>t. deleteQueue qi p s = Ok t \<and> mlfq_wf t \<and> only_queues s t \<and>
     level t = (level s)(qi := remove1 p (level s qi)) \<and> procs t = procs s"
proof -
  obtain q where q: "pq_del p (getq qi s) = Ok q" "queue_wf q" "qlist q = remove1 p (level s qi)"
    "pq_ticks q = slice_of qi" "pq_priority q = prio qi"
    using pq_del_member [OF mlfq_wf_queue [OF assms(1)], of qi p] assms by (auto simp: level_def mlfq_wf_def)
  then show ?thesis using assms(1) by (simp add: deleteQueue_def mlfq_wf_setq only_queues_intros)
qed

text \<open>Moving a process between levels: what \<^verbatim>\<open>degrade\<close>, \<^verbatim>\<open>boost\<close> and the requeueing of a sleeper do.\<close>

lemma move_spec:
  assumes "mlfq_wf s" and "length (level s a) < NPROC" and "a = b \<or> length (level s b) < NPROC"
    and "p \<in> set (level s a)"
  shows "\<exists>t. kbind (deleteQueue a p s) (addQueue b p) = Ok t \<and> mlfq_wf t \<and> only_queues s t \<and>
     level t = (let l = (level s)(a := remove1 p (level s a)) in l(b := l b @ [p])) \<and>
     procs t = (procs s)[p := (procs s ! p)\<lparr>p_Ticks := 0, p_priority := prio b\<rparr>]"
proof -
  obtain u where u: "deleteQueue a p s = Ok u" "mlfq_wf u" "only_queues s u"
    "level u = (level s)(a := remove1 p (level s a))" "procs u = procs s"
    using deleteQueue_spec [OF assms(1,2,4)] by blast
  have "length (level u b) < NPROC"
    using u(4) assms(2,3,4) by (auto simp: length_remove1)
  then obtain t where "addQueue b p u = Ok t" "mlfq_wf t" "only_queues u t"
    "level t = (level u)(b := level u b @ [p])"
    "procs t = (procs u)[p := (procs u ! p)\<lparr>p_Ticks := 0, p_priority := prio b\<rparr>]"
    using addQueue_spec [OF u(2)] mlfq_wf_level [OF assms(1,4)] by blast
  then show ?thesis using u only_queues_trans [OF u(3)] by (simp add: Let_def)
qed

section \<open>Choosing a process\<close>

text \<open>The specification: the first runnable process of the highest level that has one.\<close>

definition ready :: "'z proc_st_scheme \<Rightarrow> nat \<Rightarrow> bool" where
  "ready s p \<longleftrightarrow> pstate s p = RUNNABLE"

definition sched_pick :: "'z proc_st_scheme \<Rightarrow> nat option" where
  "sched_pick s = find (ready s) (level s Q0 @ level s Q1 @ level s Q2)"

definition pick_level :: "'z proc_st_scheme \<Rightarrow> qid" where
  "pick_level s =
     (if \<exists>p \<in> set (level s Q0). ready s p then Q0
      else if \<exists>p \<in> set (level s Q1). ready s p then Q1
      else if \<exists>p \<in> set (level s Q2). ready s p then Q2 else Q0)"

definition swap_front :: "nat \<Rightarrow> 'a list \<Rightarrow> 'a list" where
  "swap_front k xs = xs[k := xs ! 0, 0 := xs ! k]"

lemma mset_swap_front: "k < length xs \<Longrightarrow> mset (swap_front k xs) = mset xs"
  unfolding swap_front_def using mset_swap [of 0 xs k] by fastforce

lemma swap_front_0 [simp]: "swap_front 0 xs = xs"
  by (simp add: swap_front_def)

lemma length_swap_front [simp]: "length (swap_front k xs) = length xs"
  by (simp add: swap_front_def)

lemma swap_front_hd: "k < length xs \<Longrightarrow> swap_front k xs ! 0 = xs ! k"
  unfolding swap_front_def by (subst nth_list_update_eq) auto

lemma find_append: "find P (xs @ ys) = (case find P xs of None \<Rightarrow> find P ys | Some x \<Rightarrow> Some x)"
  by (induction xs) auto

lemma find_nth:
  "k < length xs \<Longrightarrow> P (xs ! k) \<Longrightarrow> \<forall>j<k. \<not> P (xs ! j) \<Longrightarrow> find P xs = Some (xs ! k)"
  by (auto simp: find_Some_iff)

lemma scan_runnable_spec:
  assumes "queue_wf q" and "length ps = NPROC" and "i \<le> length (qlist q)"
  shows "\<exists>k. scan_runnable ps (pq_queue q) (pq_end q) (int i) = Ok (int k) \<and> i \<le> k \<and> k \<le> length (qlist q) \<and>
     (\<forall>j. i \<le> j \<and> j < k \<longrightarrow> p_state (ps ! (qlist q ! j)) \<noteq> RUNNABLE) \<and>
     (k < length (qlist q) \<longrightarrow> p_state (ps ! (qlist q ! k)) = RUNNABLE)"
  using assms(3)
proof (induction "length (qlist q) - i" arbitrary: i)
  case 0
  then have "i = length (qlist q)" by simp
  then show ?case
    using assms(1) by (intro exI [of _ i]) (auto simp: scan_runnable.simps [of ps] queue_wf_iff)
next
  case (Suc n)
  note w = assms(1) [unfolded queue_wf_iff]
  let ?p = "qlist q ! i"
  have i: "i < length (qlist q)" using Suc.hyps(2) by simp
  then have p: "pq_queue q ! i = Some ?p" "?p < NPROC"
    using queue_wf_nth [OF assms(1)] w by auto
  have step: "scan_runnable ps (pq_queue q) (pq_end q) (int i) =
     (if p_state (ps ! ?p) = RUNNABLE then Ok (int i)
      else scan_runnable ps (pq_queue q) (pq_end q) (int (Suc i)))"
    using i p w assms(2) by (simp add: scan_runnable.simps [of ps _ _ "int i"] algebra_simps)
  show ?case
  proof (cases "p_state (ps ! ?p) = RUNNABLE")
    case True
    then show ?thesis using i step by (intro exI [of _ i]) auto
  next
    case False
    have "n = length (qlist q) - Suc i" using Suc.hyps(2) by simp
    then obtain k where "scan_runnable ps (pq_queue q) (pq_end q) (int (Suc i)) = Ok (int k)" "Suc i \<le> k"
      "k \<le> length (qlist q)" "\<forall>j. Suc i \<le> j \<and> j < k \<longrightarrow> p_state (ps ! (qlist q ! j)) \<noteq> RUNNABLE"
      "k < length (qlist q) \<longrightarrow> p_state (ps ! (qlist q ! k)) = RUNNABLE"
      using Suc.hyps(1) [of "Suc i"] i by (metis Suc_leI)
    then show ?thesis
      using step False by (intro exI [of _ k]) (metis Suc_leD Suc_leI le_neq_implies_less)
  qed
qed

lemma scan_level:
  assumes "mlfq_wf s"
  obtains k where "scan_runnable (procs s) (pq_queue (getq qi s)) (pq_end (getq qi s)) 0 = Ok (int k)"
    and "k \<le> length (level s qi)" and "\<forall>j<k. \<not> ready s (level s qi ! j)"
    and "k < length (level s qi) \<longrightarrow> ready s (level s qi ! k)"
  using scan_runnable_spec [OF mlfq_wf_queue [OF assms] mlfq_wf_length [OF assms], of 0 qi]
  by (auto simp: level_def ready_def pstate_def)

lemma scan_found:
  assumes "k \<le> length xs" and "\<forall>j<k. \<not> P (xs ! j)" and "k < length xs \<longrightarrow> P (xs ! k)"
  shows "k < length xs \<longleftrightarrow> (\<exists>x \<in> set xs. P x)"
  using assms by (metis in_set_conv_nth le_neq_implies_less nth_mem)

lemma level_ready_spec:
  assumes "mlfq_wf s"
  shows "level_ready qi s = Ok (\<exists>p \<in> set (level s qi). ready s p)"
proof -
  obtain k where k: "scan_runnable (procs s) (pq_queue (getq qi s)) (pq_end (getq qi s)) 0 = Ok (int k)"
    "k \<le> length (level s qi)" "\<forall>j<k. \<not> ready s (level s qi ! j)"
    "k < length (level s qi) \<longrightarrow> ready s (level s qi ! k)"
    using scan_level [OF assms] .
  have "pq_num (getq qi s) = int (length (level s qi))" "pq_end (getq qi s) = int (length (level s qi))"
    using mlfq_wf_queue [OF assms, of qi] by (simp_all add: queue_wf_iff level_def)
  then show ?thesis
    using k(1) scan_found [OF k(2-4)] by (auto simp: level_ready_def Let_def)
qed

lemma returnQueue_spec: "mlfq_wf s \<Longrightarrow> returnQueue s = Ok (pick_level s)"
  by (simp add: returnQueue_def level_ready_spec pick_level_def)

lemma sched_pick_level:
  "sched_pick s = find (ready s) (level s (pick_level s))"
proof -
  have "(\<exists>p \<in> set xs. ready s p) \<longleftrightarrow> find (ready s) xs \<noteq> None" for xs
    by (auto simp: find_None_iff)
  then show ?thesis
    by (auto simp: sched_pick_def pick_level_def find_append split: option.splits)
qed

text \<open>
  \<^verbatim>\<open>returnProc\<close> returns the process of the specification and moves it to the front of its level;
  the other levels and every process are untouched.
\<close>

lemma returnProc_spec:
  assumes wf: "mlfq_wf s"
  shows "\<exists>k t. returnProc s = Ok (sched_pick s, t) \<and> mlfq_wf t \<and> only_queues s t \<and> procs t = procs s \<and>
     (if sched_pick s = None then t = s
      else k < length (level s (pick_level s)) \<and> sched_pick s = Some (level s (pick_level s) ! k) \<and>
           level t = (level s)(pick_level s := swap_front k (level s (pick_level s))))"
proof -
  let ?pq = "pick_level s"
  let ?q = "getq ?pq s"
  obtain k where k: "scan_runnable (procs s) (pq_queue ?q) (pq_end ?q) 0 = Ok (int k)"
    "k \<le> length (level s ?pq)" "\<forall>j<k. \<not> ready s (level s ?pq ! j)"
    "k < length (level s ?pq) \<longrightarrow> ready s (level s ?pq ! k)"
    using scan_level [OF wf] .
  note w = mlfq_wf_queue [OF wf, of ?pq, unfolded queue_wf_iff, folded level_def]
  show ?thesis
  proof (cases "k < length (level s ?pq)")
    case False
    then have "sched_pick s = None"
      using scan_found [OF k(2-4)] by (simp add: sched_pick_level find_None_iff)
    then show ?thesis
      using wf k(1) w False by (auto simp: returnProc_def returnQueue_spec Let_def)
  next
    case True
    have pick: "sched_pick s = Some (level s ?pq ! k)"
      using True k by (simp add: sched_pick_level find_nth)
    have nth: "pq_queue ?q ! i = Some (level s ?pq ! i)" if "i < length (level s ?pq)" for i
      using queue_wf_nth [OF mlfq_wf_queue [OF wf], of i ?pq] that by (simp add: level_def)
    have ne: "0 < length (level s ?pq)" using True by auto
    show ?thesis
    proof (cases "k = 0")
      case True
      then show ?thesis
        using wf k(1) w ne pick nth [of 0] aread_nat [of 0 "pq_queue ?q"]
        by (auto simp: returnProc_def returnQueue_spec Let_def param_defs intro!: exI [of _ "0 :: nat"])
    next
      case False
      let ?a = "(pq_queue ?q)[k := pq_queue ?q ! 0, 0 := pq_queue ?q ! k]"
      have "returnProc s = Ok (sched_pick s, setq ?pq (?q\<lparr>pq_queue := ?a\<rparr>) s)"
        using wf k(1) w True False ne pick nth [OF True] aread_nat [of 0 "pq_queue ?q"]
          awrite_nat [of 0 "(pq_queue ?q)[k := pq_queue ?q ! 0]"]
        by (simp add: returnProc_def returnQueue_spec Let_def)
      moreover have "queue_wf (?q\<lparr>pq_queue := ?a\<rparr>) \<and> qlist (?q\<lparr>pq_queue := ?a\<rparr>) = swap_front k (level s ?pq)"
      proof (rule queue_wfI)
        have "take (length (level s ?pq)) ?a = (map Some (level s ?pq))[k := pq_queue ?q ! 0, 0 := pq_queue ?q ! k]"
          using w by (simp add: take_update_swap)
        then show "take (length (swap_front k (level s ?pq))) (pq_queue (?q\<lparr>pq_queue := ?a\<rparr>)) =
            map Some (swap_front k (level s ?pq))"
          using nth [OF True] nth [OF ne] by (simp add: swap_front_def map_update)
        show "\<forall>p\<in>set (swap_front k (level s ?pq)). p < NPROC"
          using w mset_swap_front [OF True] by (metis mset_eq_setD)
      qed (use w in simp_all)
      moreover have "pq_priority ?q = prio ?pq" "pq_ticks ?q = slice_of ?pq" using wf by (simp_all add: mlfq_wf_def)
      ultimately show ?thesis
        using wf pick True by (auto simp: mlfq_wf_setq only_queues_intros intro!: exI [of _ k])
    qed
  qed
qed

section \<open>Loops over the process table\<close>

text \<open>A loop over the table whose body changes only the entry it visits changes every entry.\<close>

lemma foldk_procs:
  assumes "n \<le> length (procs s)"
    and "\<And>i ps. i < n \<Longrightarrow> ps ! i = procs s ! i \<Longrightarrow> length ps = length (procs s) \<Longrightarrow>
           step i (s\<lparr>procs := ps\<rparr>) = Ok (s\<lparr>procs := ps[i := f (ps ! i)]\<rparr>)"
  shows "foldk step [0..<n] s = Ok (s\<lparr>procs := map f (take n (procs s)) @ drop n (procs s)\<rparr>)"
  using assms
proof (induction n)
  case 0
  then show ?case by simp
next
  case (Suc n)
  let ?ps = "map f (take n (procs s)) @ drop n (procs s)"
  have n: "n < length (procs s)" using Suc.prems(1) by simp
  have at: "?ps ! n = procs s ! n" using n by (simp add: nth_append)
  have "?ps[n := f (?ps ! n)] = map f (take n (procs s)) @ (drop n (procs s))[0 := f (procs s ! n)]"
    using n at by (simp add: list_update_append)
  also have "\<dots> = map f (take (Suc n) (procs s)) @ drop (Suc n) (procs s)"
    using n by (simp add: take_Suc_conv_app_nth Cons_nth_drop_Suc [symmetric])
  finally have "step n (s\<lparr>procs := ?ps\<rparr>) =
      Ok (s\<lparr>procs := map f (take (Suc n) (procs s)) @ drop (Suc n) (procs s)\<rparr>)"
    using Suc.prems(2) [of n ?ps] at n by simp
  then show ?case using Suc by (simp add: foldk_append)
qed

lemma foldk_procs_all:
  assumes "length (procs s) = NPROC"
    and "\<And>i ps. i < NPROC \<Longrightarrow> ps ! i = procs s ! i \<Longrightarrow> length ps = NPROC \<Longrightarrow>
           step i (s\<lparr>procs := ps\<rparr>) = Ok (s\<lparr>procs := ps[i := f (ps ! i)]\<rparr>)"
  shows "foldk step [0..<NPROC] s = Ok (s\<lparr>procs := map f (procs s)\<rparr>)"
  using foldk_procs [of NPROC s step f] assms by simp

text \<open>One tick in the statistics of a process.\<close>

definition account :: "int \<Rightarrow> proc \<Rightarrow> proc" where
  "account tot x =
     (if p_state x = RUNNABLE
      then x\<lparr>p_queue := (p_queue x)[nat tot := p_priority x], p_total_ticks := p_total_ticks x + 1,
             p_wait_time := p_wait_time x + (if p_priority x = 2 then 1 else 0)\<rparr>
      else x)"

definition stats_wf :: "'z proc_st_scheme \<Rightarrow> bool" where
  "stats_wf s \<longleftrightarrow> length (procs s) = NPROC \<and> (\<forall>x \<in> set (procs s). length (p_queue x) = NTICKS \<and>
     length (p_stats x) = NSCHEDSTATS \<and> length (p_ticks x) = 3 \<and> length (p_times x) = 3) \<and>
     length (queue0 s) = NTICKS \<and> length (queue1 s) = NTICKS \<and> length (queue2 s) = NTICKS \<and>
     length (name0 s) = NTICKS \<and> length (name1 s) = NTICKS \<and> length (name2 s) = NTICKS \<and>
     length (state0 s) = NTICKS \<and> length (state1 s) = NTICKS \<and> length (state2 s) = NTICKS"

lemma updatePstat_ok:
  assumes "stats_wf s" and "0 \<le> TOTAL s" and "TOTAL s < int NTICKS"
  shows "updatePstat s = Ok (s\<lparr>procs := map (account (TOTAL s)) (procs s)\<rparr>)"
  unfolding updatePstat_def
proof (rule foldk_procs_all)
  show "length (procs s) = NPROC" using assms(1) by (simp add: stats_wf_def)
  fix i and ps :: "proc list"
  assume i: "i < NPROC" "ps ! i = procs s ! i" "length ps = NPROC"
  have "length (p_queue (procs s ! i)) = NTICKS" "nat (TOTAL s) < NTICKS" "ps[i := procs s ! i] = ps"
    using i assms by (simp_all add: stats_wf_def) (metis list_update_id)
  then show "(\<lambda>p s.
       if pstate s p = RUNNABLE then
         kbind (awrite (p_queue (procs s ! p)) (TOTAL s) (p_priority (procs s ! p))) (\<lambda>a.
         let s1 = upd_proc p (\<lambda>x. x\<lparr>p_queue := a, p_total_ticks := p_total_ticks x + 1\<rparr>) s in
         if p_priority (procs s1 ! p) = 2
         then Ok (upd_proc p (\<lambda>x. x\<lparr>p_wait_time := p_wait_time x + 1\<rparr>) s1)
         else Ok s1)
       else Ok s) i (s\<lparr>procs := ps\<rparr>) = Ok (s\<lparr>procs := ps[i := account (TOTAL s) (ps ! i)]\<rparr>)"
    using i assms(2,3)
    by (simp add: pstate_def awrite_def upd_proc_def account_def Let_def)
qed

lemma foldk_first_fault:
  assumes "i < n" and "\<And>j. j < i \<Longrightarrow> step j s = Ok s" and "step i s = Fault e"
  shows "foldk step [0..<n] s = Fault e"
proof -
  have "[0..<n] = [0..<i] @ i # [Suc i..<n]"
    using assms(1) by (metis less_imp_add_positive upt_add_eq_append upt_conv_Cons zero_le less_imp_le_nat le_add_diff_inverse)
  moreover have "foldk step [0..<i] s = Ok s" using assms(2)
  proof (induction i)
    case (Suc i)
    then show ?case by (simp add: foldk_append)
  qed simp
  ultimately show ?thesis using assms(3) by (simp add: foldk_append)
qed

lemma updatePstat_overflow:
  assumes "stats_wf s" and "int NTICKS \<le> TOTAL s" and "\<exists>p<NPROC. ready s p"
  shows "updatePstat s = Fault ''array index out of range''"
proof -
  define i where "i = (LEAST p. p < NPROC \<and> ready s p)"
  have i: "i < NPROC" "ready s i" using LeastI_ex [OF assms(3)] by (auto simp: i_def)
  have least: "\<not> ready s j" if "j < i" for j
    using not_less_Least that i(1) unfolding i_def by (metis (mono_tags, lifting) less_trans)
  have "\<not> nat (TOTAL s) < length (p_queue (procs s ! i))"
    using assms(1,2) i(1) by (simp add: stats_wf_def)
  then show ?thesis
    unfolding updatePstat_def using i least
    by (intro foldk_first_fault [of i]) (simp_all add: ready_def awrite_def)
qed

section \<open>Demotion and promotion\<close>

primrec demoted :: "qid \<Rightarrow> qid" where
  "demoted Q0 = Q1"
| "demoted Q1 = Q2"
| "demoted Q2 = Q2"

definition moved :: "qid \<Rightarrow> qid \<Rightarrow> nat \<Rightarrow> (qid \<Rightarrow> nat list) \<Rightarrow> qid \<Rightarrow> nat list" where
  "moved a b p l = (let l' = l(a := remove1 p (l a)) in l'(b := l' b @ [p]))"

text \<open>All entries of the queues together.\<close>

definition entries :: "(qid \<Rightarrow> nat list) \<Rightarrow> nat multiset" where
  "entries l = mset (l Q0) + mset (l Q1) + mset (l Q2)"

lemma entries_moved: "p \<in> set (l a) \<Longrightarrow> entries (moved a b p l) = entries l"
  by (cases a; cases b) (auto simp: entries_def moved_def Let_def)

lemma degrade_spec:
  assumes "mlfq_wf s" and "qi \<noteq> Q2" and "p \<in> set (level s qi)" and "length (level s qi) < NPROC"
    and "length (level s (demoted qi)) < NPROC"
  shows "\<exists>t. degrade qi p s = Ok t \<and> mlfq_wf t \<and> only_queues s t \<and>
     level t = moved qi (demoted qi) p (level s) \<and>
     procs t = (procs s)[p := (procs s ! p)\<lparr>p_Ticks := 0, p_priority := prio (demoted qi)\<rparr>]"
proof -
  have "degrade qi p s = kbind (deleteQueue qi p s) (addQueue (demoted qi) p)"
    using assms(1,2) by (cases qi) (auto simp: degrade_def mlfq_wf_def all_qid)
  then show ?thesis using move_spec [OF assms(1,4) _ assms(3)] assms(5) by (simp add: moved_def)
qed

lemma degrade_lowest: "mlfq_wf s \<Longrightarrow> degrade Q2 p s = Ok s"
  by (simp add: degrade_def mlfq_wf_def all_qid)

lemma boost_spec:
  assumes "mlfq_wf s" and "stats_wf s" and "p \<in> set (level s Q2)" and "length (level s Q2) < NPROC"
    and "length (level s Q0) < NPROC"
    and "0 \<le> p_num_stat_used (procs s ! p)" and "p_num_stat_used (procs s ! p) < int NSCHEDSTATS"
  shows "\<exists>t. boost p s = Ok t \<and> mlfq_wf t \<and> only_queues s t \<and> level t = moved Q2 Q0 p (level s) \<and>
     procs t = (procs s)[p := (let x = procs s ! p; k = nat (p_num_stat_used x) in
       x\<lparr>p_Ticks := 0, p_priority := 0, p_stats := (p_stats x)[k := (p_stats x ! k)\<lparr>st_priority := 0\<rparr>]\<rparr>)]"
proof -
  let ?x = "(procs s ! p)\<lparr>p_Ticks := 0, p_priority := 0\<rparr>"
  obtain t where t: "kbind (deleteQueue Q2 p s) (addQueue Q0 p) = Ok t" "mlfq_wf t" "only_queues s t"
    "level t = moved Q2 Q0 p (level s)" "procs t = (procs s)[p := ?x]"
    using move_spec [OF assms(1,4) _ assms(3), of Q0] assms(5) by (auto simp: moved_def)
  have p: "p < length (procs s)"
    using mlfq_wf_level [OF assms(1,3)] mlfq_wf_length [OF assms(1)] by simp
  then have st: "length (p_stats (procs s ! p)) = NSCHEDSTATS" using assms(2) by (simp add: stats_wf_def)
  from t(1) obtain u where u: "deleteQueue Q2 p s = Ok u" "addQueue Q0 p u = Ok t" by (auto simp: kres_iff)
  show ?thesis
    using u t(2-5) st p assms(6,7)
    by (simp add: boost_def Let_def aread_def awrite_def only_queues_intros nat_less_iff)
qed

lemma init_queues_wf:
  assumes "length (procs s) = NPROC" and "\<forall>qi. length (pq_queue (getq qi s)) = NPROC"
  shows "mlfq_wf (init_queues s) \<and> (\<forall>qi. level (init_queues s) qi = [])"
  using assms by (simp add: mlfq_wf_def all_qid init_queues_def queue_wf_def level_def qlist_def)

section \<open>Properties\<close>

text \<open>The process table as the loader leaves it, and a machine with processes on all levels.\<close>

definition proc_zero :: proc where
  "proc_zero = \<lparr>p_sz = 0, p_pgdir = 0, p_kstack = 0, p_state = UNUSED, p_pid = 0, p_parent = None,
     p_tf = 0, p_context = 0, p_chan = None, p_killed = False, p_ofile = replicate NOFILE None,
     p_cwd = None, p_name = replicate 16 0, p_priority = 0, p_ticks = [0, 0, 0], p_times = [0, 0, 0],
     p_queue = replicate NTICKS 0, p_total_ticks = 0, p_wait_time = 0,
     p_stats = replicate NSCHEDSTATS \<lparr>start_tick = 0, duration = 0, st_priority = 0\<rparr>,
     p_num_stat_used = 0, p_Ticks = 0\<rparr>"

definition pq_of :: "nat list \<Rightarrow> qid \<Rightarrow> pqueue" where
  "pq_of ps qi = \<lparr>pq_queue = map Some ps @ replicate (NPROC - length ps) None, pq_ticks = slice_of qi,
     pq_end = int (length ps), pq_num = int (length ps), pq_priority = prio qi\<rparr>"

definition proc_st_of :: "proc list \<Rightarrow> (qid \<Rightarrow> nat list) \<Rightarrow> proc_st" where
  "proc_st_of ps l = kmem_st.extend kmem_ex
     \<lparr>procs = ps, q0 = pq_of (l Q0) Q0, q1 = pq_of (l Q1) Q1, q2 = pq_of (l Q2) Q2,
      TOTAL = 0, nextpid = 1, initproc = None, ticks = 0,
      queue0 = replicate NTICKS 0, queue1 = replicate NTICKS 0, queue2 = replicate NTICKS 0,
      name0 = replicate NTICKS None, name1 = replicate NTICKS None, name2 = replicate NTICKS None,
      state0 = replicate NTICKS None, state1 = replicate NTICKS None, state2 = replicate NTICKS None\<rparr>"

definition procs_ex :: "proc list" where
  "procs_ex = (replicate NPROC proc_zero)[2 := proc_zero\<lparr>p_state := SLEEPING, p_pid := 3\<rparr>,
     3 := proc_zero\<lparr>p_state := RUNNABLE, p_pid := 4\<rparr>, 4 := proc_zero\<lparr>p_state := RUNNABLE, p_pid := 5\<rparr>,
     5 := proc_zero\<lparr>p_state := RUNNABLE, p_pid := 6\<rparr>]"

definition mlfq_ex :: proc_st where
  "mlfq_ex = proc_st_of procs_ex (\<lambda>qi. case qi of Q0 \<Rightarrow> [] | Q1 \<Rightarrow> [2, 3, 4] | Q2 \<Rightarrow> [5])"

lemma pq_of_wf:
  assumes "length ps \<le> NPROC" and "\<forall>p \<in> set ps. p < NPROC"
  shows "queue_wf (pq_of ps qi)" and "qlist (pq_of ps qi) = ps"
  using queue_wfI [of "pq_of ps qi" ps] assms by (simp_all add: pq_of_def)

lemma proc_st_of_fields [simp]:
  "procs (proc_st_of ps l) = ps" "getq qi (proc_st_of ps l) = pq_of (l qi) qi"
  "TOTAL (proc_st_of ps l) = 0" "nextpid (proc_st_of ps l) = 1" "ticks (proc_st_of ps l) = 0"
  by (cases qi; simp add: proc_st_of_def kmem_st.defs proc_st.defs)+

lemma proc_st_of_wf:
  assumes "length ps = NPROC" and "\<And>qi. length (l qi) \<le> NPROC" and "\<And>qi. \<forall>p \<in> set (l qi). p < NPROC"
  shows "mlfq_wf (proc_st_of ps l)" and "level (proc_st_of ps l) = l"
  using pq_of_wf [OF assms(2,3)] assms(1) by (auto simp: mlfq_wf_def level_def pq_of_def)

lemma proc_st_of_stats_wf:
  assumes "length ps = NPROC"
    and "\<forall>x \<in> set ps. length (p_queue x) = NTICKS \<and> length (p_stats x) = NSCHEDSTATS \<and>
           length (p_ticks x) = 3 \<and> length (p_times x) = 3"
  shows "stats_wf (proc_st_of ps l)"
  using assms by (simp add: stats_wf_def proc_st_of_def kmem_st.defs proc_st.defs)

lemma length_procs_ex [simp]: "length procs_ex = NPROC"
  by (simp add: procs_ex_def)

lemma mlfq_ex_wf [simp]: "mlfq_wf mlfq_ex"
  unfolding mlfq_ex_def by (rule proc_st_of_wf) (auto simp: param_defs split: qid.splits)

lemma level_mlfq_ex: "level mlfq_ex = (\<lambda>qi. case qi of Q0 \<Rightarrow> [] | Q1 \<Rightarrow> [2, 3, 4] | Q2 \<Rightarrow> [5])"
  unfolding mlfq_ex_def by (rule proc_st_of_wf) (auto simp: param_defs split: qid.splits)

lemma procs_ex_nth [simp]:
  "procs_ex ! 2 = proc_zero\<lparr>p_state := SLEEPING, p_pid := 3\<rparr>"
  "procs_ex ! 3 = proc_zero\<lparr>p_state := RUNNABLE, p_pid := 4\<rparr>"
  "procs_ex ! 4 = proc_zero\<lparr>p_state := RUNNABLE, p_pid := 5\<rparr>"
  "procs_ex ! 5 = proc_zero\<lparr>p_state := RUNNABLE, p_pid := 6\<rparr>"
  by (simp_all add: procs_ex_def param_defs)

lemma procs_mlfq_ex [simp]: "procs mlfq_ex = procs_ex"
  by (simp add: mlfq_ex_def)

lemma mlfq_ex_stats: "stats_wf mlfq_ex"
  unfolding mlfq_ex_def
proof (rule proc_st_of_stats_wf)
  have "set procs_ex \<subseteq> {proc_zero, procs_ex ! 2, procs_ex ! 3, procs_ex ! 4, procs_ex ! 5}"
  proof
    fix x assume "x \<in> set procs_ex"
    then obtain i where i: "i < NPROC" "x = procs_ex ! i" by (auto simp: in_set_conv_nth)
    show "x \<in> {proc_zero, procs_ex ! 2, procs_ex ! 3, procs_ex ! 4, procs_ex ! 5}"
      using i by (cases "i = 2 \<or> i = 3 \<or> i = 4 \<or> i = 5") (auto simp: procs_ex_def)
  qed
  then show "\<forall>x \<in> set procs_ex. length (p_queue x) = NTICKS \<and> length (p_stats x) = NSCHEDSTATS \<and>
           length (p_ticks x) = 3 \<and> length (p_times x) = 3"
    by (auto simp: proc_zero_def)
qed simp



text \<open>C12: The queue operations implement lists.  On a level with a free slot \<^verbatim>\<open>addQueue\<close> appends the
  process and gives it the priority of the level, and \<^verbatim>\<open>deleteQueue\<close> of a member removes its
  first entry; both keep the three queues well formed and touch nothing else.\<close>

theorem queue_operations:
  assumes "mlfq_wf s" and "length (level s qi) < NPROC" and "p < NPROC"
  shows "(\<exists>t. addQueue qi p s = Ok t \<and> mlfq_wf t \<and> only_queues s t \<and>
       level t = (level s)(qi := level s qi @ [p]) \<and>
       procs t = (procs s)[p := (procs s ! p)\<lparr>p_Ticks := 0, p_priority := prio qi\<rparr>]) \<and>
     (p \<in> set (level s qi) \<longrightarrow> (\<exists>t. deleteQueue qi p s = Ok t \<and> mlfq_wf t \<and> only_queues s t \<and>
       level t = (level s)(qi := remove1 p (level s qi)) \<and> procs t = procs s))"
  using addQueue_spec [OF assms] deleteQueue_spec [OF assms(1,2)] by blast

theorem queue_operations_witness:
  "\<exists>t. deleteQueue Q1 3 mlfq_ex = Ok t \<and> level t Q1 = [2, 4] \<and> level t Q2 = [5]"
  using queue_operations [OF mlfq_ex_wf, of Q1 3] by (auto simp: level_mlfq_ex param_defs)



text \<open>C13: Demotion and promotion conserve the entries of the queues.  \<^verbatim>\<open>degrade\<close> moves a process from
  level 0 to 1 or from 1 to 2, \<^verbatim>\<open>boost\<close> from level 2 to 0; the process ends behind the others of
  its new level with its tick count reset, and no entry is lost or duplicated.\<close>

theorem moves_conserve:
  assumes "mlfq_wf s" and "stats_wf s" and "\<forall>qi. length (level s qi) < NPROC" and "p \<in> set (level s qi)"
    and "0 \<le> p_num_stat_used (procs s ! p)" and "p_num_stat_used (procs s ! p) < int NSCHEDSTATS"
  shows "\<exists>t. (if qi = Q2 then boost p s else degrade qi p s) = Ok t \<and> mlfq_wf t \<and>
     level t = moved qi (if qi = Q2 then Q0 else demoted qi) p (level s) \<and>
     entries (level t) = entries (level s) \<and>
     p_Ticks (procs t ! p) = 0 \<and> p_priority (procs t ! p) = prio (if qi = Q2 then Q0 else demoted qi)"
proof -
  have p: "p < length (procs s)"
    using mlfq_wf_level [OF assms(1,4)] mlfq_wf_length [OF assms(1)] by simp
  show ?thesis
  proof (cases "qi = Q2")
    case True
    then obtain t where "boost p s = Ok t" "mlfq_wf t" "level t = moved Q2 Q0 p (level s)"
      "p_Ticks (procs t ! p) = 0" "p_priority (procs t ! p) = 0"
      using boost_spec [OF assms(1,2), of p] assms p by (auto simp: Let_def)
    then show ?thesis using True assms(4) by (simp add: entries_moved)
  next
    case False
    then show ?thesis
      using degrade_spec [OF assms(1) False assms(4)] assms p by (auto simp: entries_moved)
  qed
qed

theorem moves_conserve_witness:
  "(\<exists>t. degrade Q1 2 mlfq_ex = Ok t \<and> level t Q1 = [3, 4] \<and> level t Q2 = [5, 2]) \<and>
   (\<exists>t. boost 5 mlfq_ex = Ok t \<and> level t Q2 = [] \<and> level t Q0 = [5])"
proof -
  have room: "\<forall>qi. length (level mlfq_ex qi) < NPROC"
    by (auto simp: level_mlfq_ex param_defs split: qid.splits)
  show ?thesis
    using moves_conserve [OF mlfq_ex_wf mlfq_ex_stats room, of 2 Q1]
      moves_conserve [OF mlfq_ex_wf mlfq_ex_stats room, of 5 Q2]
    by (auto simp: level_mlfq_ex proc_zero_def moved_def Let_def pstat_defs)
qed

text \<open>C24: \<^verbatim>\<open>deleteQueue\<close> of a process that is not in the queue does not leave the queue alone: it drops
  the last process of the queue, whichever that is.\<close>

theorem deleteQueue_absent:
  assumes "mlfq_wf s" and "level s qi = ps @ [x]" and "p \<notin> set (ps @ [x])"
  shows "\<exists>t. deleteQueue qi p s = Ok t \<and> level t = (level s)(qi := ps)"
proof -
  obtain q where "pq_del p (getq qi s) = Ok q" "qlist q = butlast (level s qi)"
    using pq_del_absent [OF mlfq_wf_queue [OF assms(1)], of qi p] assms by (auto simp: level_def)
  then show ?thesis using assms(2) by (simp add: deleteQueue_def)
qed

theorem deleteQueue_absent_witness:
  "\<exists>t. deleteQueue Q1 9 mlfq_ex = Ok t \<and> level t Q1 = [2, 3]"
  using deleteQueue_absent [OF mlfq_ex_wf, of Q1 "[2, 3]" 4 9] by (auto simp: level_mlfq_ex)

text \<open>C25: The queues are not guarded against overflow.  With 64 entries in a level, \<^verbatim>\<open>addQueue\<close> writes
  behind the array for every process and \<^verbatim>\<open>deleteQueue\<close> of a member reads behind it.\<close>

theorem full_queue_faults:
  assumes "mlfq_wf s" and "length (level s qi) = NPROC"
  shows "addQueue qi p s = Fault ''array index out of range'' \<and>
     (p \<in> set (level s qi) \<longrightarrow> deleteQueue qi p s = Fault ''array index out of range'')"
  using pq_add_full [OF mlfq_wf_queue [OF assms(1)], of qi p]
    pq_del_full [OF mlfq_wf_queue [OF assms(1)], of qi p] assms(2)
  by (simp add: addQueue_def deleteQueue_def level_def)

theorem full_queue_faults_witness:
  "addQueue Q0 0 (proc_st_of procs_ex (\<lambda>qi. if qi = Q0 then [0..<NPROC] else [])) =
     Fault ''array index out of range''"
proof -
  let ?l = "\<lambda>qi. if qi = Q0 then [0..<NPROC] else []"
  have "mlfq_wf (proc_st_of procs_ex ?l)" "level (proc_st_of procs_ex ?l) = ?l"
    by (rule proc_st_of_wf; auto)+
  then show ?thesis using full_queue_faults [of "proc_st_of procs_ex ?l" Q0 0] by simp
qed

text \<open>C23: \<^verbatim>\<open>updatePstat\<close> charges one tick to exactly the \<^verbatim>\<open>RUNNABLE\<close> processes while \<^verbatim>\<open>TOTAL\<close> is below
  500; once \<^verbatim>\<open>TOTAL\<close> has reached its cap of 500 it writes behind the array \<^verbatim>\<open>p->queue\<close> as soon as
  any process is \<^verbatim>\<open>RUNNABLE\<close>.\<close>

theorem updatePstat_charges:
  assumes "stats_wf s" and "0 \<le> TOTAL s"
  shows "(TOTAL s < int NTICKS \<longrightarrow>
       updatePstat s = Ok (s\<lparr>procs := map (account (TOTAL s)) (procs s)\<rparr>)) \<and>
     (TOTAL s = int NTICKS \<and> (\<exists>p<NPROC. ready s p) \<longrightarrow>
       updatePstat s = Fault ''array index out of range'')"
  using updatePstat_ok [OF assms] updatePstat_overflow [OF assms(1)] by auto

theorem updatePstat_charges_witness:
  "(\<exists>t. updatePstat mlfq_ex = Ok t \<and> p_total_ticks (procs t ! 3) = 1 \<and> p_total_ticks (procs t ! 2) = 0) \<and>
   updatePstat (mlfq_ex\<lparr>TOTAL := 500\<rparr>) = Fault ''array index out of range''"
proof -
  have "stats_wf (mlfq_ex\<lparr>TOTAL := 500\<rparr>)" using mlfq_ex_stats by (simp add: stats_wf_def)
  moreover have "ready (mlfq_ex\<lparr>TOTAL := 500\<rparr>) 3" "(3 :: nat) < NPROC"
    by (simp_all add: ready_def pstate_def param_defs)
  moreover have "TOTAL mlfq_ex = 0" by (simp add: mlfq_ex_def)
  ultimately show ?thesis
    using updatePstat_charges [OF mlfq_ex_stats] updatePstat_charges [of "mlfq_ex\<lparr>TOTAL := 500\<rparr>"]
    by (auto simp: pstat_defs param_defs account_def proc_zero_def)
qed

end
