(* ===== verification/Vm.thy ===== *)
theory Vm
  imports Mlfq
begin

unbundle bit_operations_syntax

text \<open>
  Page tables and address spaces: \<^verbatim>\<open>vm.c\<close> with the page-table macros and the segment
  descriptors of \<^verbatim>\<open>mmu.h\<close>.  (\<^verbatim>\<open>loaduvm\<close> reads an inode; it is in the theory of \<^verbatim>\<open>exec.c\<close>.)

  Page directories and page tables are words of the memory \<open>mem\<close>, read and written at the
  kernel virtual addresses the code uses; a null pointer is the address 0.  The messages
  \<^verbatim>\<open>allocuvm\<close> prints on the console are not part of the state.  The state \<open>vm_st\<close> adds the kernel page
  directory, the linker symbol \<^verbatim>\<open>data\<close> and the registers and tables \<^verbatim>\<open>seginit\<close>, \<^verbatim>\<open>switchkvm\<close> and
  \<^verbatim>\<open>switchuvm\<close> load.
\<close>

section \<open>Page-table macros\<close>

definition PDX :: "addr \<Rightarrow> 32 word" where "PDX va = drop_bit 22 va AND 0x3FF"
definition PTX :: "addr \<Rightarrow> 32 word" where "PTX va = drop_bit 12 va AND 0x3FF"

definition PGADDR :: "32 word \<Rightarrow> 32 word \<Rightarrow> 32 word \<Rightarrow> addr" where
  "PGADDR d t ofs = push_bit 22 d OR push_bit 12 t OR ofs"

definition NPDENTRIES :: nat where "NPDENTRIES = 1024"
definition PTE_P :: "32 word" where "PTE_P = 0x001"
definition PTE_W :: "32 word" where "PTE_W = 0x002"
definition PTE_U :: "32 word" where "PTE_U = 0x004"
definition PTE_ADDR :: "32 word \<Rightarrow> addr" where "PTE_ADDR pte = pte AND NOT 0xFFF"
definition PTE_FLAGS :: "32 word \<Rightarrow> 32 word" where "PTE_FLAGS pte = pte AND 0xFFF"

definition pg :: addr where "pg = of_nat PGSIZE"

section \<open>Walking and mapping\<close>

definition walkpgdir ::
  "addr \<Rightarrow> addr \<Rightarrow> bool \<Rightarrow> 'z kmem_st_scheme \<Rightarrow> (addr \<times> 'z kmem_st_scheme) kres" where
  "walkpgdir pgdir va alloc s =
     (let pde = pgdir + 4 * PDX va; e = load32 (mem s) pde in
      if e AND PTE_P \<noteq> 0 then Ok (P2V (PTE_ADDR e) + 4 * PTX va, s)
      else if \<not> alloc then Ok (0, s)
      else kbind (kalloc s) (\<lambda>(pgtab, s1).
        if pgtab = 0 then Ok (0, s1)
        else let s2 = s1\<lparr>mem := memset (mem s1) pgtab 0 pg\<rparr>;
                 s3 = s2\<lparr>mem := store32 (mem s2) pde (V2P pgtab OR PTE_P OR PTE_W OR PTE_U)\<rparr>
             in Ok (pgtab + 4 * PTX va, s3)))"

partial_function (option) mappages_loop ::
  "addr \<Rightarrow> addr \<Rightarrow> addr \<Rightarrow> 32 word \<Rightarrow> 32 word \<Rightarrow> 'z kmem_st_scheme \<Rightarrow> (int \<times> 'z kmem_st_scheme) kres option"
where
  "mappages_loop pgdir a lst pa perm s =
     kobind (walkpgdir pgdir a True s) (\<lambda>(pte, s1).
     if pte = 0 then Some (Ok (-1, s1))
     else if load32 (mem s1) pte AND PTE_P \<noteq> 0 then Some (Panic ''remap'')
     else let s2 = s1\<lparr>mem := store32 (mem s1) pte (pa OR perm OR PTE_P)\<rparr> in
       if a = lst then Some (Ok (0, s2))
       else mappages_loop pgdir (a + pg) lst (pa + pg) perm s2)"

definition mappages ::
  "addr \<Rightarrow> addr \<Rightarrow> 32 word \<Rightarrow> 32 word \<Rightarrow> 32 word \<Rightarrow> 'z kmem_st_scheme \<Rightarrow> (int \<times> 'z kmem_st_scheme) kres" where
  "mappages pgdir va sz pa perm s =
     krun (mappages_loop pgdir (PGROUNDDOWN va) (PGROUNDDOWN (va + sz - 1)) pa perm s)"

section \<open>Growing and shrinking user memory\<close>

partial_function (option) deallocuvm_loop ::
  "addr \<Rightarrow> 32 word \<Rightarrow> 32 word \<Rightarrow> 'z kmem_st_scheme \<Rightarrow> 'z kmem_st_scheme kres option"
where
  "deallocuvm_loop pgdir a oldsz s =
     (if a < oldsz then
        kobind (walkpgdir pgdir a False s) (\<lambda>(pte, s1).
        if pte = 0 then deallocuvm_loop pgdir (PGADDR (PDX a + 1) 0 0 - pg + pg) oldsz s1
        else if load32 (mem s1) pte AND PTE_P \<noteq> 0 then
          (let pa = PTE_ADDR (load32 (mem s1) pte) in
           if pa = 0 then Some (Panic ''kfree'')
           else kobind (kfree (P2V pa) s1) (\<lambda>s2.
             deallocuvm_loop pgdir (a + pg) oldsz (s2\<lparr>mem := store32 (mem s2) pte 0\<rparr>)))
        else deallocuvm_loop pgdir (a + pg) oldsz s1)
      else Some (Ok s))"

definition deallocuvm ::
  "addr \<Rightarrow> 32 word \<Rightarrow> 32 word \<Rightarrow> 'z kmem_st_scheme \<Rightarrow> (32 word \<times> 'z kmem_st_scheme) kres" where
  "deallocuvm pgdir oldsz newsz s =
     (if newsz \<ge> oldsz then Ok (oldsz, s)
      else kbind (krun (deallocuvm_loop pgdir (PGROUNDUP newsz) oldsz s)) (\<lambda>s1. Ok (newsz, s1)))"

partial_function (option) allocuvm_loop ::
  "addr \<Rightarrow> 32 word \<Rightarrow> 32 word \<Rightarrow> 32 word \<Rightarrow> 'z kmem_st_scheme \<Rightarrow> (32 word \<times> 'z kmem_st_scheme) kres option"
where
  "allocuvm_loop pgdir a oldsz newsz s =
     (if a < newsz then
        kobind (kalloc s) (\<lambda>(mem0, s1).
        if mem0 = 0 then
          kobind (deallocuvm pgdir newsz oldsz s1) (\<lambda>(_, s2). Some (Ok (0, s2)))
        else
          let s2 = s1\<lparr>mem := memset (mem s1) mem0 0 pg\<rparr> in
          kobind (mappages pgdir a pg (V2P mem0) (PTE_W OR PTE_U) s2) (\<lambda>(r, s3).
          if r < 0 then
            kobind (deallocuvm pgdir newsz oldsz s3) (\<lambda>(_, s4).
            kobind (kfree mem0 s4) (\<lambda>s5. Some (Ok (0, s5))))
          else allocuvm_loop pgdir (a + pg) oldsz newsz s3))
      else Some (Ok (newsz, s)))"

definition allocuvm ::
  "addr \<Rightarrow> 32 word \<Rightarrow> 32 word \<Rightarrow> 'z kmem_st_scheme \<Rightarrow> (32 word \<times> 'z kmem_st_scheme) kres" where
  "allocuvm pgdir oldsz newsz s =
     (if newsz \<ge> KERNBASE then Ok (0, s)
      else if newsz < oldsz then Ok (oldsz, s)
      else krun (allocuvm_loop pgdir (PGROUNDUP oldsz) oldsz newsz s))"

definition freevm :: "addr \<Rightarrow> 'z kmem_st_scheme \<Rightarrow> 'z kmem_st_scheme kres" where
  "freevm pgdir s =
     (if pgdir = 0 then Panic ''freevm: no pgdir''
      else kbind (deallocuvm pgdir KERNBASE 0 s) (\<lambda>(_, s1).
        kbind (foldk (\<lambda>i s.
            let e = load32 (mem s) (pgdir + 4 * of_nat i) in
            if e AND PTE_P \<noteq> 0 then kfree (P2V (PTE_ADDR e)) s else Ok s) [0..<NPDENTRIES] s1)
          (kfree pgdir)))"

definition clearpteu :: "addr \<Rightarrow> addr \<Rightarrow> 'z kmem_st_scheme \<Rightarrow> 'z kmem_st_scheme kres" where
  "clearpteu pgdir uva s =
     kbind (walkpgdir pgdir uva False s) (\<lambda>(pte, s1).
     if pte = 0 then Panic ''clearpteu''
     else Ok (s1\<lparr>mem := store32 (mem s1) pte (load32 (mem s1) pte AND NOT PTE_U)\<rparr>))"

section \<open>Access to user memory\<close>

definition uva2ka :: "addr \<Rightarrow> addr \<Rightarrow> 'z kmem_st_scheme \<Rightarrow> addr kres" where
  "uva2ka pgdir uva s =
     kbind (walkpgdir pgdir uva False s) (\<lambda>(pte, s1).
     if pte = 0 then Fault ''null pointer''
     else let e = load32 (mem s1) pte in
       if e AND PTE_P = 0 then Ok 0
       else if e AND PTE_U = 0 then Ok 0
       else Ok (P2V (PTE_ADDR e)))"

lemma unat_page_offset: "unat (va - PGROUNDDOWN va) = unat va mod PGSIZE"
proof -
  have "PGROUNDDOWN va \<le> va" by (simp add: word_le_nat_alt unat_PGROUNDDOWN)
  then show ?thesis by (simp add: unat_sub unat_PGROUNDDOWN minus_div_mult_eq_mod)
qed

text \<open>\<open>n\<close> of \<^verbatim>\<open>copyout\<close>: the bytes up to the end of the page, at most \<open>len\<close>.\<close>

definition chunk :: "addr \<Rightarrow> 32 word \<Rightarrow> 32 word" where
  "chunk va len = (let n = pg - (va - PGROUNDDOWN va) in if n > len then len else n)"

lemma unat_chunk: "unat (chunk va len) = min (PGSIZE - unat va mod PGSIZE) (unat len)"
proof -
  have "unat va mod PGSIZE < PGSIZE" by (simp add: PGSIZE_def)
  moreover have "unat pg = PGSIZE" by (simp add: pg_def PGSIZE_def)
  ultimately have "unat (pg - (va - PGROUNDDOWN va)) = PGSIZE - unat va mod PGSIZE"
    using unat_page_offset [of va] by (simp add: unat_sub word_le_nat_alt)
  then show ?thesis by (simp add: chunk_def Let_def word_less_nat_alt)
qed

function copyout ::
  "addr \<Rightarrow> addr \<Rightarrow> addr \<Rightarrow> 32 word \<Rightarrow> 'z kmem_st_scheme \<Rightarrow> (int \<times> 'z kmem_st_scheme) kres" where
  "copyout pgdir va buf len s =
     (if len > 0 then
        let va0 = PGROUNDDOWN va in
        kbind (uva2ka pgdir va0 s) (\<lambda>pa0.
        if pa0 = 0 then Ok (-1, s)
        else let n = chunk va len;
                 s1 = s\<lparr>mem := memmove (mem s) (pa0 + (va - va0)) buf n\<rparr>
             in copyout pgdir (va0 + pg) (buf + n) (len - n) s1)
      else Ok (0, s))"
  by pat_completeness auto
termination
proof (relation "measure (\<lambda>(pgdir, va, buf, len, s). unat len)")
  fix va len :: addr and pgdir va0 pa0 buf n :: addr and s s1 :: "'z kmem_st_scheme"
  assume "len > 0" and n: "n = chunk va len"
  have "unat va mod PGSIZE < PGSIZE" by (simp add: PGSIZE_def)
  then have "0 < unat n" "unat n \<le> unat len"
    using \<open>len > 0\<close> by (simp_all add: n unat_chunk word_less_nat_alt)
  then show "((pgdir, va0 + pg, buf + n, len - n, s1), pgdir, va, buf, len, s) \<in>
      measure (\<lambda>(pgdir, va, buf, len, s). unat len)"
    by (simp add: unat_sub word_le_nat_alt)
qed simp

declare copyout.simps [simp del]

section \<open>Kernel mappings and the hardware\<close>

definition STA_X :: "4 word" where "STA_X = 0x8"
definition STA_W :: "4 word" where "STA_W = 0x2"
definition STA_R :: "4 word" where "STA_R = 0x2"
definition STS_T32A :: "4 word" where "STS_T32A = 0x9"
definition DPL_USER :: "2 word" where "DPL_USER = 3"

definition SEG_KCODE :: nat where "SEG_KCODE = 1"
definition SEG_KDATA :: nat where "SEG_KDATA = 2"
definition SEG_UCODE :: nat where "SEG_UCODE = 3"
definition SEG_UDATA :: nat where "SEG_UDATA = 4"
definition SEG_TSS :: nat where "SEG_TSS = 5"

record segdesc =
  lim_15_0 :: "16 word"
  base_15_0 :: "16 word"
  base_23_16 :: "8 word"
  sd_type :: "4 word"
  sd_s :: bool
  sd_dpl :: "2 word"
  sd_p :: bool
  lim_19_16 :: "4 word"
  sd_avl :: bool
  sd_rsv1 :: bool
  sd_db :: bool
  sd_g :: bool
  base_31_24 :: "8 word"

definition SEG :: "4 word \<Rightarrow> 32 word \<Rightarrow> 32 word \<Rightarrow> 2 word \<Rightarrow> segdesc" where
  "SEG ty base lim dpl =
     \<lparr>lim_15_0 = ucast (drop_bit 12 lim AND 0xffff), base_15_0 = ucast (base AND 0xffff),
      base_23_16 = ucast (drop_bit 16 base AND 0xff), sd_type = ty, sd_s = True, sd_dpl = dpl, sd_p = True,
      lim_19_16 = ucast (drop_bit 28 lim), sd_avl = False, sd_rsv1 = False, sd_db = True, sd_g = True,
      base_31_24 = ucast (drop_bit 24 base)\<rparr>"

definition SEG16 :: "4 word \<Rightarrow> 32 word \<Rightarrow> 32 word \<Rightarrow> 2 word \<Rightarrow> segdesc" where
  "SEG16 ty base lim dpl =
     \<lparr>lim_15_0 = ucast (lim AND 0xffff), base_15_0 = ucast (base AND 0xffff),
      base_23_16 = ucast (drop_bit 16 base AND 0xff), sd_type = ty, sd_s = True, sd_dpl = dpl, sd_p = True,
      lim_19_16 = ucast (drop_bit 16 lim), sd_avl = False, sd_rsv1 = False, sd_db = True, sd_g = False,
      base_31_24 = ucast (drop_bit 24 base)\<rparr>"

text \<open>The fields of \<^verbatim>\<open>struct taskstate\<close> the kernel writes.\<close>

record taskstate =
  ts_ss0 :: "16 word"
  ts_esp0 :: "32 word"
  ts_iomb :: "16 word"

text \<open>
  \<open>gdts\<close> and \<open>tss\<close> are the fields \<^verbatim>\<open>gdt\<close> and \<^verbatim>\<open>ts\<close> of \<^verbatim>\<open>cpus[i]\<close>, \<open>ts_at i\<close> the address of that \<^verbatim>\<open>ts\<close>;
  \<open>cr3\<close>, \<open>tr\<close> and \<open>gdtr\<close> are the registers of the processor with the given APIC id.
\<close>

record vm_st = proc_st +
  kpgdir :: addr
  kdata :: addr
  gdts :: "nat \<Rightarrow> segdesc list"
  tss :: "nat \<Rightarrow> taskstate"
  ts_at :: "nat \<Rightarrow> addr"
  cr3 :: "8 word \<Rightarrow> addr"
  tr :: "8 word \<Rightarrow> 16 word"
  gdtr :: "8 word \<Rightarrow> nat option"

definition seginit :: "'z vm_st_scheme \<Rightarrow> 'z vm_st_scheme kres" where
  "seginit s =
     kbind (cpuid s) (\<lambda>c.
     Ok (s\<lparr>gdts := (gdts s)(c := (gdts s c)
            [SEG_KCODE := SEG (STA_X OR STA_R) 0 0xffffffff 0,
             SEG_KDATA := SEG STA_W 0 0xffffffff 0,
             SEG_UCODE := SEG (STA_X OR STA_R) 0 0xffffffff DPL_USER,
             SEG_UDATA := SEG STA_W 0 0xffffffff DPL_USER]),
           gdtr := (gdtr s)(me s := Some c)\<rparr>))"

definition switchkvm :: "'z vm_st_scheme \<Rightarrow> 'z vm_st_scheme" where
  "switchkvm s = s\<lparr>cr3 := (cr3 s)(me s := V2P (kpgdir s))\<rparr>"

definition switchuvm :: "nat option \<Rightarrow> 'z vm_st_scheme \<Rightarrow> 'z vm_st_scheme kres" where
  "switchuvm p s =
     (case p of None \<Rightarrow> Panic ''switchuvm: no process''
      | Some p \<Rightarrow>
        if p_kstack (procs s ! p) = 0 then Panic ''switchuvm: no kstack''
        else if p_pgdir (procs s ! p) = 0 then Panic ''switchuvm: no pgdir''
        else kbind (pushcli s) (\<lambda>s1.
          kbind (mycpu s1) (\<lambda>c.
          let s2 = s1\<lparr>gdts := (gdts s1)(c := (gdts s1 c)
                        [SEG_TSS := (SEG16 STS_T32A (ts_at s1 c) 103 0)\<lparr>sd_s := False\<rparr>]),
                      tss := (tss s1)(c := \<lparr>ts_ss0 = push_bit 3 (of_nat SEG_KDATA),
                        ts_esp0 = p_kstack (procs s1 ! p) + of_nat KSTACKSIZE, ts_iomb = 0xFFFF\<rparr>),
                      cr3 := (cr3 s1)(me s1 := V2P (p_pgdir (procs s1 ! p))),
                      tr := (tr s1)(me s1 := push_bit 3 (of_nat SEG_TSS))\<rparr>
          in popcli s2)))"

text \<open>The table \<^verbatim>\<open>kmap\<close>: virtual address, physical start and end, permissions.\<close>

definition kmap :: "addr \<Rightarrow> (addr \<times> 32 word \<times> 32 word \<times> 32 word) list" where
  "kmap data =
     [(KERNBASE, 0, EXTMEM, PTE_W), (KERNLINK, V2P KERNLINK, V2P data, 0),
      (data, V2P data, PHYSTOP, PTE_W), (DEVSPACE, DEVSPACE, 0, PTE_W)]"

primrec setupkvm_loop ::
  "addr \<Rightarrow> (addr \<times> 32 word \<times> 32 word \<times> 32 word) list \<Rightarrow> 'z kmem_st_scheme \<Rightarrow>
     (addr \<times> 'z kmem_st_scheme) kres" where
  "setupkvm_loop pgdir [] s = Ok (pgdir, s)"
| "setupkvm_loop pgdir (k # ks) s =
     (case k of (virt, phys_start, phys_end, perm) \<Rightarrow>
      kbind (mappages pgdir virt (phys_end - phys_start) phys_start perm s) (\<lambda>(r, s1).
      if r < 0 then kbind (freevm pgdir s1) (\<lambda>s2. Ok (0, s2))
      else setupkvm_loop pgdir ks s1))"

definition setupkvm :: "'z vm_st_scheme \<Rightarrow> (addr \<times> 'z vm_st_scheme) kres" where
  "setupkvm s =
     kbind (kalloc s) (\<lambda>(pgdir, s1).
     if pgdir = 0 then Ok (0, s1)
     else let s2 = s1\<lparr>mem := memset (mem s1) pgdir 0 pg\<rparr> in
       if P2V PHYSTOP > DEVSPACE then Panic ''PHYSTOP too high''
       else setupkvm_loop pgdir (kmap (kdata s2)) s2)"

definition kvmalloc :: "'z vm_st_scheme \<Rightarrow> 'z vm_st_scheme kres" where
  "kvmalloc s = kbind (setupkvm s) (\<lambda>(pgdir, s1). Ok (switchkvm (s1\<lparr>kpgdir := pgdir\<rparr>)))"

text \<open>
  \<^verbatim>\<open>inituvm\<close> does not test the result of \<^verbatim>\<open>kalloc\<close> (clearing page 0 is a null pointer access) nor
  that of \<^verbatim>\<open>mappages\<close>.
\<close>

definition inituvm :: "addr \<Rightarrow> addr \<Rightarrow> 32 word \<Rightarrow> 'z kmem_st_scheme \<Rightarrow> 'z kmem_st_scheme kres" where
  "inituvm pgdir init sz s =
     (if sz \<ge> pg then Panic ''inituvm: more than a page''
      else kbind (kalloc s) (\<lambda>(mem0, s1).
        if mem0 = 0 then Fault ''null pointer''
        else let s2 = s1\<lparr>mem := memset (mem s1) mem0 0 pg\<rparr> in
          kbind (mappages pgdir 0 pg (V2P mem0) (PTE_W OR PTE_U) s2) (\<lambda>(_, s3).
          Ok (s3\<lparr>mem := memmove (mem s3) mem0 init sz\<rparr>))))"

partial_function (option) copyuvm_loop ::
  "addr \<Rightarrow> addr \<Rightarrow> 32 word \<Rightarrow> 32 word \<Rightarrow> 'z kmem_st_scheme \<Rightarrow> (addr \<times> 'z kmem_st_scheme) kres option"
where
  "copyuvm_loop pgdir d i sz s =
     (if i < sz then
        kobind (walkpgdir pgdir i False s) (\<lambda>(pte, s1).
        if pte = 0 then Some (Panic ''copyuvm: pte should exist'')
        else let e = load32 (mem s1) pte in
          if e AND PTE_P = 0 then Some (Panic ''copyuvm: page not present'')
          else kobind (kalloc s1) (\<lambda>(mem0, s2).
            if mem0 = 0 then kobind (freevm d s2) (\<lambda>s3. Some (Ok (0, s3)))
            else let s3 = s2\<lparr>mem := memmove (mem s2) mem0 (P2V (PTE_ADDR e)) pg\<rparr> in
              kobind (mappages d i pg (V2P mem0) (PTE_FLAGS e) s3) (\<lambda>(r, s4).
              if r < 0 then
                kobind (kfree mem0 s4) (\<lambda>s5. kobind (freevm d s5) (\<lambda>s6. Some (Ok (0, s6))))
              else copyuvm_loop pgdir d (i + pg) sz s4)))
      else Some (Ok (d, s)))"

definition copyuvm :: "addr \<Rightarrow> 32 word \<Rightarrow> 'z vm_st_scheme \<Rightarrow> (addr \<times> 'z vm_st_scheme) kres" where
  "copyuvm pgdir sz s =
     kbind (setupkvm s) (\<lambda>(d, s1).
     if d = 0 then Ok (0, s1) else krun (copyuvm_loop pgdir d 0 sz s1))"

section \<open>Page tables as functions\<close>

text \<open>
  \<open>ent m p i\<close> is the \<open>i\<close>-th word of the page \<open>p\<close>.  \<open>pd_table\<close> is the page table a directory entry points
  to and \<open>pt_get\<close> the present page-table entry of a virtual address.
\<close>

definition aligned :: "addr \<Rightarrow> bool" where
  "aligned p \<longleftrightarrow> unat p mod PGSIZE = 0"

definition ent :: "memory \<Rightarrow> addr \<Rightarrow> nat \<Rightarrow> 32 word" where
  "ent m p i = load32 m (p + of_nat (4 * i))"

definition set_ent :: "memory \<Rightarrow> addr \<Rightarrow> nat \<Rightarrow> 32 word \<Rightarrow> memory" where
  "set_ent m p i v = store32 m (p + of_nat (4 * i)) v"

definition pdx :: "addr \<Rightarrow> nat" where "pdx va = unat va div 2 ^ 22"
definition ptx :: "addr \<Rightarrow> nat" where "ptx va = unat va div 2 ^ 12 mod 1024"

definition pd_table :: "memory \<Rightarrow> addr \<Rightarrow> nat \<Rightarrow> addr option" where
  "pd_table m pgdir i =
     (if ent m pgdir i AND PTE_P \<noteq> 0 then Some (P2V (PTE_ADDR (ent m pgdir i))) else None)"

definition pt_get :: "memory \<Rightarrow> addr \<Rightarrow> addr \<Rightarrow> 32 word option" where
  "pt_get m pgdir va =
     (case pd_table m pgdir (pdx va) of None \<Rightarrow> None
      | Some t \<Rightarrow> if ent m t (ptx va) AND PTE_P \<noteq> 0 then Some (ent m t (ptx va)) else None)"

text \<open>
  The directory and its tables are pairwise different pages of the allocator's range, none of
  them free.
\<close>

definition pt_wf :: "'z kmem_st_scheme \<Rightarrow> addr \<Rightarrow> addr list \<Rightarrow> bool" where
  "pt_wf s pgdir ps \<longleftrightarrow> page_ok s pgdir \<and> pgdir \<notin> set ps \<and>
     (\<forall>i<NPDENTRIES. \<forall>t. pd_table (mem s) pgdir i = Some t \<longrightarrow>
        page_ok s t \<and> t \<noteq> pgdir \<and> t \<notin> set ps \<and>
        (\<forall>j<NPDENTRIES. j \<noteq> i \<longrightarrow> pd_table (mem s) pgdir j \<noteq> Some t))"

lemma page_ok_aligned: "page_ok s p \<Longrightarrow> aligned p"
  by (simp add: page_ok_def aligned_def)

lemma slot_unat:
  assumes "aligned p" and "i < 1024"
  shows "unat (p + of_nat (4 * i)) = unat p + 4 * i"
  using page_no_wrap [of p "4 * i"] assms unat_offset [of p "4 * i"] by (simp add: aligned_def PGSIZE_def)

lemma slot_aligned4:
  assumes "aligned p" and "i < 1024"
  shows "4 dvd uint (p + of_nat (4 * i))"
proof -
  have "4096 dvd unat p" using assms(1) by (simp add: aligned_def PGSIZE_def mod_eq_0_iff_dvd)
  then have "4 dvd unat p" by (rule dvd_trans [rotated]) simp
  then have "4 dvd unat (p + of_nat (4 * i))" using slot_unat [OF assms] by simp
  then show ?thesis by (metis int_dvd_int_iff of_nat_numeral uint_nat)
qed

lemma slot_inj:
  assumes "aligned p" and "aligned q" and "i < 1024" and "j < 1024"
    and eq: "p + of_nat (4 * i) = q + of_nat (4 * j)"
  shows "p = q \<and> i = j"
proof -
  obtain a where a: "unat p = 4096 * a"
    using assms(1) by (auto simp: aligned_def PGSIZE_def mod_eq_0_iff_dvd)
  obtain b where b: "unat q = 4096 * b"
    using assms(2) by (auto simp: aligned_def PGSIZE_def mod_eq_0_iff_dvd)
  have e: "4096 * a + 4 * i = 4096 * b + 4 * j"
    using slot_unat [OF assms(1,3)] slot_unat [OF assms(2,4)] eq a b by simp
  have "(4096 * a + 4 * i) div 4096 = a" "(4096 * b + 4 * j) div 4096 = b"
    using assms(3,4) by simp_all
  then have "a = b" using e by simp
  then show ?thesis using a b e by (simp add: word_unat_eq_iff)
qed

lemma ent_set_ent:
  assumes "aligned p" and "aligned q" and "i < 1024" and "j < 1024"
  shows "ent (set_ent m p i v) q j = (if q = p \<and> j = i then v else ent m q j)"
proof (cases "q = p \<and> j = i")
  case True
  then show ?thesis by (simp add: ent_def set_ent_def)
next
  case False
  then have "p + of_nat (4 * i) \<noteq> q + of_nat (4 * j)" using slot_inj [OF assms] by auto
  then show ?thesis
    using False load32_store32_other [OF slot_aligned4 [OF assms(1,3)] slot_aligned4 [OF assms(2,4)]]
    unfolding ent_def set_ent_def by (metis (no_types))
qed

lemma unat_pg: "unat pg = PGSIZE"
  by (simp add: pg_def PGSIZE_def)

lemma ent_cong:
  assumes "\<And>k. k < PGSIZE \<Longrightarrow> m' (q + of_nat k) = m (q + of_nat k)" and "j < 1024"
  shows "ent m' q j = ent m q j"
  unfolding ent_def
proof (rule load32_cong)
  fix k :: nat assume "k < 4"
  then have "4 * j + k < PGSIZE" using assms(2) by (simp add: PGSIZE_def)
  from assms(1) [OF this] show "m' (q + of_nat (4 * j) + of_nat k) = m (q + of_nat (4 * j) + of_nat k)"
    by (simp add: algebra_simps)
qed

lemma load32_zero: "(\<And>k. k < 4 \<Longrightarrow> m (a + of_nat k) = 0) \<Longrightarrow> load32 m a = 0"
  using load32_cong [of m a "\<lambda>_. 0"] by (simp add: load32_def)

lemma ent_memset0:
  assumes "aligned p" and "aligned q" and "j < 1024"
  shows "ent (memset m p 0 pg) q j = (if q = p then 0 else ent m q j)"
proof (cases "q = p")
  case True
  have "memset m p 0 pg (p + of_nat (4 * j) + of_nat k) = 0" if "k < 4" for k
    using within_offset [of "4 * j + k" p PGSIZE] that assms(3)
    by (simp add: PGSIZE_def algebra_simps memset_fill unat_pg)
  then have "load32 (memset m p 0 pg) (p + of_nat (4 * j)) = 0" by (rule load32_zero)
  then show ?thesis using True by (simp add: ent_def)
next
  case False
  have "memset m p 0 pg (q + of_nat k) = m (q + of_nat k)" if "k < PGSIZE" for k
    using page_disjoint [OF _ _ _ that, of p q] assms(1,2) False
    by (simp add: memset_fill unat_pg aligned_def)
  then have "ent (memset m p 0 pg) q j = ent m q j" using assms(3) by (rule ent_cong)
  then show ?thesis using False by simp
qed

lemma pdx_bound: "pdx va < 1024"
  using unat_bound32 [of va] by (simp add: pdx_def less_mult_imp_div_less)

lemma ptx_bound: "ptx va < 1024"
  by (simp add: ptx_def)

lemma mask10: "(0x3FF :: 32 word) = mask 10"
  by (simp add: mask_eq_exp_minus_1)

lemma unat_PDX: "unat (PDX va) = pdx va"
proof -
  have "PDX va = drop_bit 22 va"
    unfolding PDX_def mask10 by (rule bit_word_eqI, auto simp: bit_simps) (drule bit_imp_le_length, simp)
  then show ?thesis by (simp add: pdx_def unat_drop_bit_eq drop_bit_eq_div unat_div)
qed

lemma unat_PTX: "unat (PTX va) = ptx va"
proof -
  have "PTX va = take_bit 10 (drop_bit 12 va)"
    unfolding PTX_def mask10 by (simp add: take_bit_eq_mask)
  then show ?thesis by (simp add: ptx_def unsigned_take_bit_eq unat_drop_bit_eq drop_bit_eq_div take_bit_eq_mod
        unat_div unat_mod)
qed

lemma four_PDX: "4 * PDX va = of_nat (4 * pdx va)"
  using unat_PDX [of va, symmetric] by simp

lemma four_PTX: "4 * PTX va = of_nat (4 * ptx va)"
  using unat_PTX [of va, symmetric] by simp

section \<open>What the operations do to the tables\<close>

definition same_page :: "memory \<Rightarrow> memory \<Rightarrow> addr \<Rightarrow> bool" where
  "same_page m m' q \<longleftrightarrow> (\<forall>k<PGSIZE. m' (q + of_nat k) = m (q + of_nat k))"

definition tables :: "memory \<Rightarrow> addr \<Rightarrow> addr set" where
  "tables m pgdir = {t. \<exists>i<NPDENTRIES. pd_table m pgdir i = Some t}"

lemma same_page_refl [simp]: "same_page m m q"
  by (simp add: same_page_def)

lemma same_page_trans: "same_page m m' q \<Longrightarrow> same_page m' m'' q \<Longrightarrow> same_page m m'' q"
  by (simp add: same_page_def)

lemma same_page_ent: "same_page m m' q \<Longrightarrow> j < 1024 \<Longrightarrow> ent m' q j = ent m q j"
  unfolding same_page_def by (rule ent_cong) simp_all

lemma same_page_memset:
  assumes "aligned p" and "aligned q" and "q \<noteq> p"
  shows "same_page m (memset m p c pg) q"
  unfolding same_page_def
proof (intro allI impI)
  fix k assume "k < PGSIZE"
  from page_disjoint [OF _ _ _ this, of p q] assms show "memset m p c pg (q + of_nat k) = m (q + of_nat k)"
    by (auto simp: memset_fill unat_pg aligned_def)
qed

lemma same_page_set_ent:
  assumes "aligned p" and "aligned q" and "q \<noteq> p" and "i < 1024"
  shows "same_page m (set_ent m p i v) q"
  unfolding same_page_def
proof (intro allI impI)
  fix k assume k: "k < PGSIZE"
  have "q + of_nat k \<noteq> p + of_nat (4 * i + j)" if "j < 4" for j
  proof
    have "4 * i + j < PGSIZE" using that assms(4) by (simp add: PGSIZE_def)
    then have "within p PGSIZE (p + of_nat (4 * i + j))" using within_offset [of "4 * i + j" p PGSIZE] by (simp add: PGSIZE_def)
    moreover assume "q + of_nat k = p + of_nat (4 * i + j)"
    ultimately show False using page_disjoint [OF _ _ _ k, of p q] assms by (auto simp: aligned_def)
  qed
  from this [of 0] this [of 1] this [of 2] this [of 3]
  show "set_ent m p i v (q + of_nat k) = m (q + of_nat k)"
    by (simp add: set_ent_def store32_def algebra_simps)
qed

lemma page_mask12: "(0xFFF :: 32 word) = of_nat PGSIZE - 1"
  by (simp add: PGSIZE_def)

lemma PTE_ADDR_aligned: "aligned x \<Longrightarrow> PTE_ADDR x = x"
proof -
  assume "aligned x"
  then have "unat (PGROUNDDOWN x) = unat x"
    by (auto simp: unat_PGROUNDDOWN aligned_def PGSIZE_def mod_eq_0_iff_dvd)
  then show ?thesis
    unfolding PTE_ADDR_def page_mask12 PGROUNDDOWN_def [symmetric] by (simp add: word_unat_eq_iff)
qed

lemma PTE_ADDR_or: "PTE_ADDR (x OR y) = PTE_ADDR x OR PTE_ADDR y"
  unfolding PTE_ADDR_def by (rule bit_word_eqI) (auto simp: bit_simps)

lemma PTE_ADDR_flag_bits [simp]: "PTE_ADDR PTE_P = 0" "PTE_ADDR PTE_W = 0" "PTE_ADDR PTE_U = 0"
  by (simp_all add: PTE_ADDR_def PTE_P_def PTE_W_def PTE_U_def)

lemma present_or [simp]: "(x OR PTE_P) AND PTE_P \<noteq> 0"
proof -
  have "(x OR PTE_P) AND PTE_P = PTE_P" by (rule bit_word_eqI) (auto simp: bit_simps)
  then show ?thesis by (simp add: PTE_P_def)
qed

lemma present_or2 [simp]: "(x OR PTE_P OR y) AND PTE_P \<noteq> 0"
proof -
  have "(x OR PTE_P OR y) AND PTE_P = PTE_P" by (rule bit_word_eqI) (auto simp: bit_simps)
  then show ?thesis by (simp add: PTE_P_def)
qed

lemma V2P_aligned: "page_ok s p \<Longrightarrow> aligned (V2P p)"
proof -
  assume p: "page_ok s p"
  then have r: "0x80000000 \<le> unat p" using page_range by blast
  then have "unat (V2P p) = unat p - 0x80000000"
    by (simp add: V2P_def KERNBASE_def unat_sub word_le_nat_alt)
  moreover obtain c where "unat p = 4096 * c"
    using p by (auto simp: page_ok_def PGSIZE_def mod_eq_0_iff_dvd)
  ultimately have "unat (V2P p) = 4096 * (c - 0x80000)" by simp
  then show ?thesis by (simp add: aligned_def PGSIZE_def)
qed

lemma P2V_V2P [simp]: "P2V (V2P p) = p"
  by (simp add: P2V_def V2P_def)

lemma table_entry: "page_ok s p \<Longrightarrow> P2V (PTE_ADDR (V2P p OR PTE_P OR PTE_W OR PTE_U)) = p"
  by (simp add: PTE_ADDR_or PTE_ADDR_aligned V2P_aligned)

lemma pt_wf_table:
  assumes "pt_wf s pgdir ps" and "pd_table (mem s) pgdir i = Some t" and "i < 1024"
  shows "page_ok s t" and "aligned t" and "t \<noteq> pgdir" and "t \<notin> set ps"
  using assms page_ok_aligned by (auto simp: pt_wf_def NPDENTRIES_def)

lemma pt_wf_inj:
  assumes "pt_wf s pgdir ps" and "pd_table (mem s) pgdir i = Some t" and "pd_table (mem s) pgdir j = Some t"
    and "i < 1024" and "j < 1024"
  shows "i = j"
proof (rule ccontr)
  assume "i \<noteq> j"
  moreover have "\<forall>j<NPDENTRIES. j \<noteq> i \<longrightarrow> pd_table (mem s) pgdir j \<noteq> Some t"
    using assms(1,2,4) unfolding pt_wf_def NPDENTRIES_def by blast
  ultimately show False using assms(3,5) by (simp add: NPDENTRIES_def)
qed

lemma pt_wf_dir: "pt_wf s pgdir ps \<Longrightarrow> page_ok s pgdir \<and> aligned pgdir \<and> pgdir \<notin> set ps"
  using page_ok_aligned by (auto simp: pt_wf_def)

lemma slot_nonzero: "page_ok s t \<Longrightarrow> i < 1024 \<Longrightarrow> t + of_nat (4 * i) \<noteq> 0"
  using slot_unat [of t i] page_range [of s t] page_ok_aligned [of s t]
  by (metis add_is_0 not_numeral_le_zero unat_0)

lemma page_ok_frame: "kend t = kend s \<Longrightarrow> page_ok t p = page_ok s p"
  by (simp add: page_ok_def)

lemma free_pages_page_ok: "free_pages s ps \<Longrightarrow> p \<in> set ps \<Longrightarrow> page_ok s p"
  by (simp add: free_pages_def)

lemma free_pages_frame:
  assumes "free_pages s ps" and "\<forall>q \<in> set ps. same_page (mem s) m' q"
  shows "free_pages (s\<lparr>mem := m'\<rparr>) ps"
proof -
  have "load32 m' q = load32 (mem s) q" if "q \<in> set ps" for q
    using same_page_ent [of "mem s" m' q 0] assms(2) that by (simp add: ent_def)
  then have "free_chain m' (freelist s) ps = free_chain (mem s) (freelist s) ps"
    by (rule free_chain_cong)
  then show ?thesis using assms(1) by (simp add: free_pages_def kmem_ready_def page_ok_def)
qed

lemma walk_entry: "load32 m (pgdir + 4 * PDX va) = ent m pgdir (pdx va)"
  by (simp add: ent_def four_PDX)

lemma walkpgdir_present:
  "pd_table (mem s) pgdir (pdx va) = Some t \<Longrightarrow>
     walkpgdir pgdir va al s = Ok (t + of_nat (4 * ptx va), s)"
  by (simp only: walkpgdir_def Let_def walk_entry four_PTX pd_table_def) (simp split: if_splits)

lemma walkpgdir_absent:
  "pd_table (mem s) pgdir (pdx va) = None \<Longrightarrow> walkpgdir pgdir va False s = Ok (0, s)"
  by (simp only: walkpgdir_def Let_def walk_entry pd_table_def) (simp split: if_splits)

text \<open>What an operation on the tables of \<open>pgdir\<close> keeps: the allocator and everything outside the
  directory, its tables and the pages that were free.\<close>

definition vm_frame :: "addr \<Rightarrow> addr list \<Rightarrow> 'z kmem_st_scheme \<Rightarrow> 'z kmem_st_scheme \<Rightarrow> bool" where
  "vm_frame pgdir ps s t \<longleftrightarrow> kend t = kend s \<and> use_lock t = use_lock s \<and> (quiet s \<longrightarrow> quiet t) \<and>
     (\<forall>q. aligned q \<longrightarrow> q \<noteq> pgdir \<longrightarrow> q \<notin> tables (mem s) pgdir \<longrightarrow> q \<notin> set ps \<longrightarrow>
        same_page (mem s) (mem t) q)"

lemma walkpgdir_alloc:
  assumes fp: "free_pages s (p # ps)" and wf: "pt_wf s pgdir (p # ps)"
    and none: "pd_table (mem s) pgdir (pdx va) = None"
  shows "\<exists>t. walkpgdir pgdir va True s = Ok (p + of_nat (4 * ptx va), t) \<and> free_pages t ps \<and>
     pt_wf t pgdir ps \<and> vm_frame pgdir (p # ps) s t \<and>
     (\<forall>i<1024. pd_table (mem t) pgdir i = (if i = pdx va then Some p else pd_table (mem s) pgdir i)) \<and>
     (\<forall>va'. pt_get (mem t) pgdir va' = pt_get (mem s) pgdir va') \<and>
     (\<forall>j<1024. ent (mem t) p j = 0)"
proof -
  obtain u where u: "kalloc s = Ok (p, u)" "free_pages u ps" "kend u = kend s" "use_lock u = use_lock s"
    "mem u = mem s" "quiet s \<longrightarrow> quiet u"
    using kalloc_spec [OF fp] by auto
  have pk: "page_ok s p" "aligned p" "p \<noteq> 0" "p \<notin> set ps"
    using free_pages_page_ok [OF fp, of p] page_ok_aligned page_nonzero fp by (auto simp: free_pages_def)
  have dir: "page_ok s pgdir" "aligned pgdir" "pgdir \<notin> set (p # ps)" using pt_wf_dir [OF wf] by auto
  let ?e = "V2P p OR PTE_P OR PTE_W OR PTE_U"
  define m where "m = set_ent (memset (mem s) p 0 pg) pgdir (pdx va) ?e"
  let ?t = "u\<lparr>mem := m\<rparr>"
  have ne: "ent (mem s) pgdir (pdx va) AND PTE_P = 0"
    using none by (simp add: pd_table_def split: if_splits)
  have w: "walkpgdir pgdir va True s = Ok (p + of_nat (4 * ptx va), ?t)"
    using u(1,5) pk(3) ne
    by (simp only: walkpgdir_def Let_def walk_entry four_PTX) (simp add: m_def set_ent_def four_PDX)
  have entm: "ent m q j = (if q = pgdir \<and> j = pdx va then ?e else if q = p then 0 else ent (mem s) q j)"
    if "aligned q" "j < 1024" for q j
    using that dir pk pdx_bound [of va] by (auto simp: m_def ent_set_ent ent_memset0)
  have pd: "pd_table m pgdir i = (if i = pdx va then Some p else pd_table (mem s) pgdir i)" if "i < 1024" for i
    using entm [OF dir(2) that] dir(3) table_entry [OF pk(1)] by (auto simp: pd_table_def)
  have sp: "same_page (mem s) m q" if "aligned q" "q \<noteq> pgdir" "q \<noteq> p" for q
    unfolding m_def
    using same_page_trans [OF same_page_memset same_page_set_ent] pk dir that pdx_bound by metis
  have fpt: "free_pages ?t ps"
  proof (rule free_pages_frame [OF u(2)], intro ballI)
    fix q assume q: "q \<in> set ps"
    then have "aligned q" "q \<noteq> pgdir" "q \<noteq> p"
      using fp dir(3) pk(4) page_ok_aligned free_pages_page_ok [OF fp, of q] by auto
    then show "same_page (mem u) m q" using sp u(5) by simp
  qed
  have fr: "vm_frame pgdir (p # ps) s ?t"
    using u(3,4,6) sp by (simp add: vm_frame_def)
  have wft: "pt_wf ?t pgdir ps"
    unfolding pt_wf_def NPDENTRIES_def
  proof (intro conjI allI impI)
    show "page_ok ?t pgdir" "pgdir \<notin> set ps" using dir u(3) by (simp_all add: page_ok_def)
    fix i t' assume i: "i < 1024" "pd_table (mem ?t) pgdir i = Some t'"
    have "page_ok s t' \<and> t' \<noteq> pgdir \<and> t' \<notin> set ps"
      using i pd pk dir pt_wf_table [OF wf, of i t'] by (cases "i = pdx va") auto
    then show "page_ok ?t t'" "t' \<noteq> pgdir" "t' \<notin> set ps" using u(3) by (simp_all add: page_ok_def)
    fix j assume j: "j < 1024" "j \<noteq> i"
    show "pd_table (mem ?t) pgdir j \<noteq> Some t'"
    proof
      assume a: "pd_table (mem ?t) pgdir j = Some t'"
      have old: "pd_table (mem s) pgdir k \<noteq> Some p" if "k < 1024" for k
        using pt_wf_table(4) [OF wf _ that] by auto
      show False
      proof (cases "i = pdx va \<or> j = pdx va")
        case True
        then show False using i a j pd [OF i(1)] pd [OF j(1)] old by (auto split: if_splits)
      next
        case False
        then have "pd_table (mem s) pgdir i = Some t'" "pd_table (mem s) pgdir j = Some t'"
          using i a j pd by simp_all
        then show False using pt_wf_inj [OF wf] i(1) j by blast
      qed
    qed
  qed
  have get: "pt_get m pgdir va' = pt_get (mem s) pgdir va'" for va'
  proof (cases "pdx va' = pdx va")
    case True
    then show ?thesis
      using pd [OF pdx_bound, of va'] none entm [OF pk(2) ptx_bound, of va'] dir(3)
      by (auto simp: pt_get_def)
  next
    case False
    show ?thesis
    proof (cases "pd_table (mem s) pgdir (pdx va')")
      case None
      then show ?thesis using pd [OF pdx_bound, of va'] False by (simp add: pt_get_def)
    next
      case (Some t)
      note tt = pt_wf_table [OF wf Some pdx_bound]
      have "ent m t (ptx va') = ent (mem s) t (ptx va')"
        using entm [OF tt(2) ptx_bound, of va'] tt by auto
      then show ?thesis using pd [OF pdx_bound, of va'] False Some by (simp add: pt_get_def)
    qed
  qed
  have z: "ent m p j = 0" if "j < 1024" for j
    using entm [OF pk(2) that] dir(3) by auto
  show ?thesis using w fpt wft fr pd get z by (intro exI [of _ ?t]) simp
qed

text \<open>Writing one page-table entry.\<close>

lemma set_pte:
  fixes s :: "'z kmem_st_scheme" and v :: "32 word"
  assumes fp: "free_pages s ps" and wf: "pt_wf s pgdir ps" and t: "pd_table (mem s) pgdir (pdx va) = Some t"
  defines "u \<equiv> s\<lparr>mem := set_ent (mem s) t (ptx va) v\<rparr>"
  shows "free_pages u ps" and "pt_wf u pgdir ps" and "vm_frame pgdir ps s u"
    and "pt_get (mem u) pgdir va' =
       (if pdx va' = pdx va \<and> ptx va' = ptx va then (if v AND PTE_P \<noteq> 0 then Some v else None)
        else pt_get (mem s) pgdir va')"
    and "i < 1024 \<Longrightarrow> pd_table (mem u) pgdir i = pd_table (mem s) pgdir i"
proof -
  note tt = pt_wf_table [OF wf t pdx_bound] and dir = pt_wf_dir [OF wf]
  let ?m = "set_ent (mem s) t (ptx va) v"
  have entm: "ent ?m q j = (if q = t \<and> j = ptx va then v else ent (mem s) q j)" if "aligned q" "j < 1024" for q j
    using that tt ptx_bound by (simp add: ent_set_ent)
  have sp: "same_page (mem s) ?m q" if "aligned q" "q \<noteq> t" for q
    using same_page_set_ent [OF tt(2) that ptx_bound] .
  show fpu: "free_pages u ps"
    unfolding u_def
  proof (rule free_pages_frame [OF fp], intro ballI)
    fix q assume "q \<in> set ps"
    then show "same_page (mem s) ?m q"
      using sp tt(4) page_ok_aligned free_pages_page_ok [OF fp, of q] by metis
  qed
  have pd: "pd_table ?m pgdir i = pd_table (mem s) pgdir i" if "i < 1024" for i
    using entm [of pgdir i] dir tt(3) that by (simp add: pd_table_def)
  then show "i < 1024 \<Longrightarrow> pd_table (mem u) pgdir i = pd_table (mem s) pgdir i" by (simp add: u_def)
  show "pt_wf u pgdir ps"
    using wf pd by (simp add: pt_wf_def NPDENTRIES_def u_def page_ok_def)
  have "t \<in> tables (mem s) pgdir" using t pdx_bound by (auto simp: tables_def NPDENTRIES_def)
  then show "vm_frame pgdir ps s u" using sp by (auto simp: vm_frame_def u_def)
  show "pt_get (mem u) pgdir va' =
       (if pdx va' = pdx va \<and> ptx va' = ptx va then (if v AND PTE_P \<noteq> 0 then Some v else None)
        else pt_get (mem s) pgdir va')"
  proof (cases "pd_table (mem s) pgdir (pdx va')")
    case None
    then show ?thesis using t pd [OF pdx_bound, of va'] by (auto simp: pt_get_def u_def)
  next
    case (Some t')
    have "t' = t \<longleftrightarrow> pdx va' = pdx va"
      using t Some pt_wf_inj [OF wf Some _ pdx_bound pdx_bound, of va] by auto
    then show ?thesis
      using Some t pd [OF pdx_bound, of va'] entm [OF _ ptx_bound, of t' va'] pt_wf_table(2) [OF wf Some pdx_bound]
      by (auto simp: pt_get_def u_def)
  qed
qed

lemma aligned_round:
  assumes "aligned va"
  shows "PGROUNDDOWN va = va" and "PGROUNDDOWN (va + pg - 1) = va"
proof -
  obtain c where c: "unat va = 4096 * c" using assms by (auto simp: aligned_def PGSIZE_def mod_eq_0_iff_dvd)
  show "PGROUNDDOWN va = va" using c by (simp add: word_unat_eq_iff unat_PGROUNDDOWN PGSIZE_def)
  have e: "va + pg - 1 = va + of_nat 4095" by (simp add: pg_def PGSIZE_def)
  have "unat (va + of_nat 4095) = unat va + 4095"
    using page_no_wrap [of va 4095] assms by (intro unat_offset) (simp add: aligned_def PGSIZE_def)
  then have "unat (PGROUNDDOWN (va + pg - 1)) = unat va"
    using c unfolding e by (simp add: unat_PGROUNDDOWN PGSIZE_def)
  then show "PGROUNDDOWN (va + pg - 1) = va" by (simp add: word_unat_eq_iff)
qed

lemma same_indices:
  assumes "aligned va" and "aligned va'" and "pdx va' = pdx va" and "ptx va' = ptx va"
  shows "va' = va"
proof -
  have split: "unat w = 4096 * (1024 * pdx w + ptx w)" if "aligned w" for w
  proof -
    have "unat w = 4096 * (unat w div 4096)" using that by (auto simp: aligned_def PGSIZE_def mod_eq_0_iff_dvd)
    moreover have "unat w div 4096 = 1024 * (unat w div 4096 div 1024) + unat w div 4096 mod 1024" by simp
    ultimately show ?thesis by (simp add: pdx_def ptx_def div_mult2_eq [symmetric])
  qed
  then show ?thesis using assms by (simp add: word_unat_eq_iff)
qed

text \<open>Mapping one page adds exactly that translation; without a page for a table it fails and
  changes nothing.\<close>

lemma mappages_page:
  assumes fp: "free_pages s ps" and wf: "pt_wf s pgdir ps" and al: "aligned va"
    and new: "pt_get (mem s) pgdir va = None"
    and room: "pd_table (mem s) pgdir (pdx va) \<noteq> None \<or> ps \<noteq> []"
  shows "\<exists>t. let qs = (if pd_table (mem s) pgdir (pdx va) = None then tl ps else ps) in
     mappages pgdir va pg pa perm s = Ok (0, t) \<and> free_pages t qs \<and> pt_wf t pgdir qs \<and>
     vm_frame pgdir ps s t \<and> pd_table (mem t) pgdir (pdx va) \<noteq> None \<and>
     tables (mem t) pgdir \<subseteq> tables (mem s) pgdir \<union> set ps \<and>
     (\<forall>va'. aligned va' \<longrightarrow> pt_get (mem t) pgdir va' =
        (if va' = va then Some (pa OR perm OR PTE_P) else pt_get (mem s) pgdir va'))"
proof -
  define qs where "qs = (if pd_table (mem s) pgdir (pdx va) = None then tl ps else ps)"
  have "\<exists>u t. walkpgdir pgdir va True s = Ok (t + of_nat (4 * ptx va), u) \<and> free_pages u qs \<and>
     pt_wf u pgdir qs \<and> vm_frame pgdir ps s u \<and> pd_table (mem u) pgdir (pdx va) = Some t \<and>
     tables (mem u) pgdir \<subseteq> tables (mem s) pgdir \<union> set ps \<and>
     (\<forall>va'. pt_get (mem u) pgdir va' = pt_get (mem s) pgdir va')"
  proof (cases "pd_table (mem s) pgdir (pdx va)")
    case (Some t)
    then show ?thesis
      using walkpgdir_present [OF Some] fp wf
      by (intro exI [of _ s] exI [of _ t]) (auto simp: qs_def vm_frame_def)
  next
    case None
    then obtain p ps' where ps: "ps = p # ps'" using room by (cases ps) auto
    obtain u where u: "walkpgdir pgdir va True s = Ok (p + of_nat (4 * ptx va), u)" "free_pages u ps'"
      "pt_wf u pgdir ps'" "vm_frame pgdir (p # ps') s u"
      "\<forall>i<1024. pd_table (mem u) pgdir i = (if i = pdx va then Some p else pd_table (mem s) pgdir i)"
      "\<forall>va'. pt_get (mem u) pgdir va' = pt_get (mem s) pgdir va'"
      using walkpgdir_alloc [OF _ _ None] fp wf ps by blast
    have "tables (mem u) pgdir \<subseteq> tables (mem s) pgdir \<union> set ps"
    proof
      fix x assume "x \<in> tables (mem u) pgdir"
      then obtain i where i: "i < 1024" "pd_table (mem u) pgdir i = Some x"
        by (auto simp: tables_def NPDENTRIES_def)
      then show "x \<in> tables (mem s) pgdir \<union> set ps"
        using u(5) ps by (cases "i = pdx va") (auto simp: tables_def NPDENTRIES_def)
    qed
    then show ?thesis
      using u None ps pdx_bound [of va] by (intro exI [of _ u] exI [of _ p]) (simp add: qs_def)
  qed
  then obtain u t where u: "walkpgdir pgdir va True s = Ok (t + of_nat (4 * ptx va), u)" "free_pages u qs"
    "pt_wf u pgdir qs" "vm_frame pgdir ps s u" "pd_table (mem u) pgdir (pdx va) = Some t"
    "tables (mem u) pgdir \<subseteq> tables (mem s) pgdir \<union> set ps"
    "\<forall>va'. pt_get (mem u) pgdir va' = pt_get (mem s) pgdir va'"
    by blast
  let ?v = "pa OR perm OR PTE_P"
  let ?w = "u\<lparr>mem := set_ent (mem u) t (ptx va) ?v\<rparr>"
  note tt = pt_wf_table [OF u(3,5) pdx_bound]
  note sp = set_pte [OF u(2,3,5), where v = ?v]
  have "pt_get (mem u) pgdir va = None" using new u(7) by simp
  then have absent: "ent (mem u) t (ptx va) AND PTE_P = 0"
    using u(5) by (simp add: pt_get_def split: if_splits)
  then have "mappages_loop pgdir va va pa perm s = Some (Ok (0, ?w))"
    using u(1) slot_nonzero [OF tt(1) ptx_bound, of va]
    by (subst mappages_loop.simps) (simp add: ent_def set_ent_def Let_def)
  then have "mappages pgdir va pg pa perm s = Ok (0, ?w)"
    by (simp add: mappages_def aligned_round [OF al])
  moreover have "vm_frame pgdir ps s ?w"
  proof -
    have "set qs \<subseteq> set ps" by (cases ps) (auto simp: qs_def)
    then have "same_page (mem s) (mem ?w) q"
      if "aligned q" "q \<noteq> pgdir" "q \<notin> tables (mem s) pgdir" "q \<notin> set ps" for q
      using that u(4,6) sp(3) same_page_trans unfolding vm_frame_def by blast
    then show ?thesis using u(4) by (simp add: vm_frame_def)
  qed
  moreover have "tables (mem ?w) pgdir = tables (mem u) pgdir"
    using sp(5) by (auto simp: tables_def NPDENTRIES_def)
  moreover have "pt_get (mem ?w) pgdir va' = (if va' = va then Some ?v else pt_get (mem s) pgdir va')"
    if "aligned va'" for va'
    using sp(4) [of va'] u(7) same_indices [OF al that] present_or [of "pa OR perm"] by (auto simp: or.assoc)
  ultimately show ?thesis
    using sp(1,2) sp(5) [OF pdx_bound, of va] u(5,6)
    unfolding qs_def [symmetric] Let_def by (intro exI [of _ ?w]) auto
qed

end
