(* ===== verification/Cprintf.thy ===== *)
theory Cprintf
  imports Vm "HOL-Library.Char_ord"
begin

unbundle bit_operations_syntax

text \<open>
  Console output: \<^verbatim>\<open>printint\<close>, \<^verbatim>\<open>cprintf\<close>, \<^verbatim>\<open>cgaputc\<close> and \<^verbatim>\<open>consputc\<close> of \<^verbatim>\<open>console.c\<close> and \<^verbatim>\<open>uartputc\<close> of \<^verbatim>\<open>uart.c\<close>.

  The serial line is the list of bytes sent (\<open>uart_out\<close>), the screen is the array \<^verbatim>\<open>crt\<close> of CGA cells
  with the cursor register \<open>crt_pos\<close>.  The bounded wait for the transmitter in \<^verbatim>\<open>uartputc\<close> has no effect
  on the state.  A format string is a list of characters without its terminating NUL; the
  variable arguments are a list of words and string pointers, and reading past the end of that
  list or at the wrong type is undefined behaviour.
\<close>

section \<open>State\<close>

record con_st = vm_st +
  cons_locking :: bool
  panicked :: bool
  uart :: bool
  uart_out :: "byte list"
  crt :: "nat \<Rightarrow> 16 word"
  crt_pos :: int

datatype parg = PInt "32 word" | PStr "string option"

definition BACKSPACE :: int where "BACKSPACE = 0x100"

section \<open>Putting characters\<close>

definition uartputc :: "int \<Rightarrow> 'z con_st_scheme \<Rightarrow> 'z con_st_scheme" where
  "uartputc c s = (if \<not> uart s then s else s\<lparr>uart_out := uart_out s @ [word_of_int c]\<rparr>)"

definition cgaputc :: "int \<Rightarrow> 'z con_st_scheme \<Rightarrow> 'z con_st_scheme kres" where
  "cgaputc c s =
     (let pos0 = crt_pos s;
          pos1 = (if c = 10 then pos0 + (80 - pos0 mod 80)
                  else if c = BACKSPACE then (if pos0 > 0 then pos0 - 1 else pos0)
                  else pos0 + 1);
          crt1 = (if c = 10 \<or> c = BACKSPACE then crt s
                  else (crt s)(nat pos0 := word_of_int (c mod 256) OR 0x0700))
      in if pos1 < 0 \<or> pos1 > 25 * 80 then Panic ''pos under/overflow''
         else let scroll = (pos1 div 80 \<ge> 24);
                  pos2 = (if scroll then pos1 - 80 else pos1);
                  crt2 = (if scroll
                          then (\<lambda>i. if nat pos2 \<le> i \<and> i < 24 * 80 then 0
                                     else if i < 23 * 80 then crt1 (i + 80) else crt1 i)
                          else crt1)
              in Ok (s\<lparr>crt := crt2(nat pos2 := 0x20 OR 0x0700), crt_pos := pos2\<rparr>))"

definition consputc :: "int \<Rightarrow> 'z con_st_scheme \<Rightarrow> 'z con_st_scheme kres" where
  "consputc c s =
     (if panicked s then Spin
      else let s1 = (if c = BACKSPACE then uartputc 8 (uartputc 0x20 (uartputc 8 s)) else uartputc c s)
           in cgaputc c s1)"

definition putchar :: "char \<Rightarrow> 'z con_st_scheme \<Rightarrow> 'z con_st_scheme kres" where
  "putchar c s = consputc (int (of_char c)) s"

section \<open>Numbers\<close>

definition digit :: "nat \<Rightarrow> char" where
  "digit i = ''0123456789abcdef'' ! i"

text \<open>\<^verbatim>\<open>buf[i++] = c\<close> for the array \<^verbatim>\<open>char buf[16]\<close>, filled from the left.\<close>

definition buf_put :: "char list \<Rightarrow> char \<Rightarrow> char list kres" where
  "buf_put buf c = (if length buf < 16 then Ok (buf @ [c]) else Fault ''array index out of range'')"

lemma buf_put_eq_Ok [kres_iff]: "buf_put buf c = Ok b \<longleftrightarrow> length buf < 16 \<and> b = buf @ [c]"
  by (auto simp: buf_put_def)

function printint_loop :: "nat \<Rightarrow> nat \<Rightarrow> char list \<Rightarrow> char list kres" where
  "printint_loop x base buf =
     kbind (buf_put buf (digit (x mod base))) (\<lambda>buf1.
     if x div base \<noteq> 0 then printint_loop (x div base) base buf1 else Ok buf1)"
  by pat_completeness auto
termination
  by (relation "measure (\<lambda>(x, base, buf). 16 - length buf)") (auto simp: kres_iff)

declare printint_loop.simps [simp del]

definition printint_buf :: "32 word \<Rightarrow> nat \<Rightarrow> bool \<Rightarrow> char list kres" where
  "printint_buf xx base sign =
     (let neg = (sign \<and> sint xx < 0); x = (if neg then - xx else xx) in
      kbind (printint_loop (unat x) base []) (\<lambda>buf.
      if neg then buf_put buf (CHR ''-'') else Ok buf))"

definition printint :: "32 word \<Rightarrow> nat \<Rightarrow> bool \<Rightarrow> 'z con_st_scheme \<Rightarrow> 'z con_st_scheme kres" where
  "printint xx base sign s =
     kbind (printint_buf xx base sign) (\<lambda>buf. foldk putchar (rev buf) s)"

section \<open>Formatted output\<close>

fun next_int :: "parg list \<Rightarrow> (32 word \<times> parg list) kres" where
  "next_int (PInt w # args) = Ok (w, args)"
| "next_int _ = Fault ''argument''"

fun next_str :: "parg list \<Rightarrow> (string \<times> parg list) kres" where
  "next_str (PStr (Some x) # args) = Ok (x, args)"
| "next_str (PStr None # args) = Ok (''(null)'', args)"
| "next_str _ = Fault ''argument''"

fun cprintf_loop :: "string \<Rightarrow> parg list \<Rightarrow> 'z con_st_scheme \<Rightarrow> 'z con_st_scheme kres" where
  "cprintf_loop [] args s = Ok s"
| "cprintf_loop (c # fmt) args s =
     (if c \<noteq> CHR ''%'' then kbind (putchar c s) (cprintf_loop fmt args)
      else case fmt of [] \<Rightarrow> Ok s
        | d # fmt' \<Rightarrow>
          if d = CHR ''d'' then
            kbind (next_int args) (\<lambda>(w, args'). kbind (printint w 10 True s) (cprintf_loop fmt' args'))
          else if d = CHR ''x'' \<or> d = CHR ''p'' then
            kbind (next_int args) (\<lambda>(w, args'). kbind (printint w 16 False s) (cprintf_loop fmt' args'))
          else if d = CHR ''s'' then
            kbind (next_str args) (\<lambda>(x, args'). kbind (foldk putchar x s) (cprintf_loop fmt' args'))
          else if d = CHR ''%'' then kbind (putchar (CHR ''%'') s) (cprintf_loop fmt' args)
          else kbind (putchar (CHR ''%'') s) (\<lambda>s1. kbind (putchar d s1) (cprintf_loop fmt' args)))"

definition cprintf :: "string \<Rightarrow> parg list \<Rightarrow> 'z con_st_scheme \<Rightarrow> 'z con_st_scheme kres" where
  "cprintf fmt args s =
     (let locking = cons_locking s in
      kbind (if locking then acquire ConsLock s else Ok s) (\<lambda>s1.
      kbind (cprintf_loop fmt args s1) (\<lambda>s2.
      if locking then release ConsLock s2 else Ok s2)))"

section \<open>Printing numbers\<close>

definition digit_val :: "char \<Rightarrow> nat" where
  "digit_val c = (if of_char c < (58 :: nat) then of_char c - 48 else of_char c - 87)"

definition num_of :: "nat \<Rightarrow> string \<Rightarrow> nat" where
  "num_of base = foldl (\<lambda>n c. n * base + digit_val c) 0"

fun read_int :: "nat \<Rightarrow> string \<Rightarrow> int" where
  "read_int base cs = (if cs \<noteq> [] \<and> hd cs = CHR ''-'' then - int (num_of base (tl cs)) else int (num_of base cs))"

declare read_int.simps [simp del]

lemma digit_val_digit:
  assumes "i < 16"
  shows "digit_val (digit i) = i" and "digit i \<noteq> CHR ''-''"
proof -
  have "\<forall>i \<in> set [0..<16]. digit_val (digit i) = i \<and> digit i \<noteq> CHR ''-''"
    by (simp add: digit_def digit_val_def upt_rec)
  then show "digit_val (digit i) = i" "digit i \<noteq> CHR ''-''" using assms by auto
qed

lemma num_of_snoc: "num_of base (cs @ [c]) = num_of base cs * base + digit_val c"
  by (simp add: num_of_def)

lemma printint_loop_digits:
  assumes "2 \<le> base" and "base \<le> 16" and "x < base ^ k" and "length buf + k \<le> 16" and "0 < k"
  shows "\<exists>ds. printint_loop x base buf = Ok (buf @ ds) \<and> ds \<noteq> [] \<and> length ds \<le> k \<and>
     CHR ''-'' \<notin> set ds \<and> num_of base (rev ds) = x"
  using assms(3-5)
proof (induction k arbitrary: x buf)
  case 0
  then show ?case by simp
next
  case (Suc k)
  let ?d = "digit (x mod base)"
  have d: "x mod base < 16" using assms(1,2) by (meson less_le_trans mod_less_divisor zero_less_numeral)
  have put: "buf_put buf ?d = Ok (buf @ [?d])" using Suc.prems(2) by (simp add: buf_put_def)
  show ?case
  proof (cases "x div base = 0")
    case True
    then have "x < base" using assms(1) by (simp add: div_eq_0_iff)
    then show ?thesis
      using put True digit_val_digit [OF d]
      by (intro exI [of _ "[?d]"]) (simp add: printint_loop.simps [of x] num_of_def)
  next
    case False
    have "x div base < base ^ k" using Suc.prems(1) assms(1) by (simp add: less_mult_imp_div_less mult.commute)
    moreover from this False have "0 < k" by (cases k) auto
    ultimately obtain ds where ds: "printint_loop (x div base) base (buf @ [?d]) = Ok ((buf @ [?d]) @ ds)"
      "ds \<noteq> []" "length ds \<le> k" "CHR ''-'' \<notin> set ds" "num_of base (rev ds) = x div base"
      using Suc.IH [of "x div base" "buf @ [?d]"] Suc.prems(2) by auto
    show ?thesis
      using put False ds digit_val_digit [OF d]
      by (intro exI [of _ "?d # ds"]) (auto simp: printint_loop.simps [of x] num_of_snoc)
  qed
qed

lemma neg_mod: 
  fixes k :: int
  assumes "-2147483648 \<le> k" "k < 0"
  shows "k mod 4294967296 = k + 4294967296" "- (k + 4294967296) mod 4294967296 = - k" 
proof -
  have "(k + 4294967296) mod 4294967296 = k + 4294967296" using assms by (intro mod_pos_pos_trivial) auto
  then show "k mod 4294967296 = k + 4294967296" by simp
  have "(- k) mod 4294967296 = - k" using assms by (intro mod_pos_pos_trivial) auto
  moreover have "(- k - 4294967296) mod 4294967296 = (- k) mod 4294967296" by (rule minus_mod_self2)
  ultimately show "- (k + 4294967296) mod 4294967296 = - k" by (simp add: algebra_simps)
qed

lemma uint_sint_mod: "uint w = sint w mod 4294967296" for w :: "32 word"
proof -
  have e: "(word_of_int (sint w) :: 32 word) = w" by (metis of_int_sint scast_id)
  have l: "2 ^ LENGTH(32) = (4294967296 :: int)" by simp
  show ?thesis using uint_word_of_int [of "sint w", where 'a = 32, unfolded e] unfolding l .
qed

lemma sint_bounds32: "- 2147483648 \<le> sint w \<and> sint w < 2147483648" for w :: "32 word"
  using sint_range_size [of w] by (simp add: word_size)

lemma sint_nonneg:
  fixes w :: "32 word"
  assumes "0 \<le> sint w"
  shows "sint w = uint w"
proof -
  have "sint w mod 4294967296 = sint w"
    using assms sint_bounds32 [of w] by (intro mod_pos_pos_trivial) auto
  then show ?thesis by (simp only: uint_sint_mod)
qed

lemma sint_negative:
  fixes w :: "32 word"
  assumes "sint w < 0"
  shows "sint w = - int (unat (- w))"
proof -
  have b: "- 2147483648 \<le> sint w" using sint_bounds32 by blast
  have u: "uint w = sint w + 4294967296" 
    unfolding uint_sint_mod by (rule neg_mod(1) [OF b assms])
  have n: "uint (- w) = (- uint w) mod 4294967296" by (simp add: uint_word_ariths)
  then have "uint (- w) = - sint w" unfolding u using neg_mod(2) [OF b assms] by (rule trans)
  moreover have "uint (- w) = int (unat (- w))" by (rule uint_nat)
  ultimately show ?thesis by linarith
qed
text \<open>Ten decimal or eight hexadecimal digits hold every 32-bit value.\<close>

lemma printint_buf_value:
  assumes "base = 10 \<or> base = 16"
  shows "\<exists>buf. printint_buf xx base sign = Ok buf \<and> length buf \<le> 11 \<and>
     read_int base (rev buf) = (if sign then sint xx else uint xx)"
proof -
  define neg where "neg = (sign \<and> sint xx < 0)"
  define x where "x = (if neg then - xx else xx)"
  have "unat x < base ^ 10" using unat_bound32 [of x] assms by auto
  then obtain ds where ds: "printint_loop (unat x) base [] = Ok ds" "ds \<noteq> []" "length ds \<le> 10"
    "CHR ''-'' \<notin> set ds" "num_of base (rev ds) = unat x"
    using printint_loop_digits [of base "unat x" 10 "[]"] assms by auto
  have hd: "hd (rev ds) \<noteq> CHR ''-''" using ds(2,4) by (metis hd_in_set rev_is_Nil_conv set_rev)
  have pb: "printint_buf xx base sign = (if neg then buf_put ds (CHR ''-'') else Ok ds)"
    unfolding printint_buf_def Let_def neg_def [symmetric] x_def [symmetric] ds(1) by simp
  show ?thesis
  proof (cases neg)
    case True
    then have v: "sint xx = - int (unat x)" and sg: "sign"
      using sint_negative [of xx] unfolding neg_def x_def by auto
    have "printint_buf xx base sign = Ok (ds @ [CHR ''-''])"
      using pb True ds(3) by (simp only: buf_put_def if_True) simp
    moreover have "read_int base (rev (ds @ [CHR ''-''])) = - int (unat x)"
      using ds(5) by (simp add: read_int.simps)
    ultimately show ?thesis using ds(3) v sg by (intro exI [of _ "ds @ [CHR ''-'']"]) simp
  next
    case False
    have "read_int base (rev ds) = int (unat xx)"
      using ds(5) hd False by (simp only: read_int.simps x_def) simp
    moreover have "int (unat xx) = (if sign then sint xx else uint xx)"
      using False sint_nonneg [of xx] uint_nat [of xx] unfolding neg_def by (metis not_less)
    ultimately show ?thesis using pb False ds(3) by (intro exI [of _ ds]) (simp only: if_False, simp)
  qed
qed

section \<open>What the console prints\<close>

text \<open>The text \<^verbatim>\<open>cprintf\<close> produces, as a function of the format and the arguments.\<close>

fun render :: "string \<Rightarrow> parg list \<Rightarrow> string kres" where
  "render [] args = Ok []"
| "render (c # fmt) args =
     (if c \<noteq> CHR ''%'' then kbind (render fmt args) (\<lambda>r. Ok (c # r))
      else case fmt of [] \<Rightarrow> Ok []
        | d # fmt' \<Rightarrow>
          if d = CHR ''d'' then
            kbind (next_int args) (\<lambda>(w, args'). kbind (printint_buf w 10 True) (\<lambda>b.
              kbind (render fmt' args') (\<lambda>r. Ok (rev b @ r))))
          else if d = CHR ''x'' \<or> d = CHR ''p'' then
            kbind (next_int args) (\<lambda>(w, args'). kbind (printint_buf w 16 False) (\<lambda>b.
              kbind (render fmt' args') (\<lambda>r. Ok (rev b @ r))))
          else if d = CHR ''s'' then
            kbind (next_str args) (\<lambda>(x, args'). kbind (render fmt' args') (\<lambda>r. Ok (x @ r)))
          else if d = CHR ''%'' then kbind (render fmt' args) (\<lambda>r. Ok (CHR ''%'' # r))
          else kbind (render fmt' args) (\<lambda>r. Ok (CHR ''%'' # d # r)))"

definition con_ok :: "'z con_st_scheme \<Rightarrow> bool" where
  "con_ok s \<longleftrightarrow> \<not> panicked s \<and> 0 \<le> crt_pos s \<and> crt_pos s < 24 * 80"

definition byte_of :: "char \<Rightarrow> byte" where
  "byte_of c = of_nat (of_char c)"

definition sent :: "string \<Rightarrow> 'z con_st_scheme \<Rightarrow> byte list" where
  "sent out s = (if uart s then map byte_of out else [])"

text \<open>The text has been sent and nothing but the devices changed.\<close>

definition printed :: "string \<Rightarrow> 'z con_st_scheme \<Rightarrow> 'z con_st_scheme \<Rightarrow> bool" where
  "printed out s t \<longleftrightarrow> con_ok t \<and> (\<exists>c p. t = s\<lparr>uart_out := uart_out s @ sent out s, crt := c, crt_pos := p\<rparr>)"

lemma printed_Nil: "con_ok s \<Longrightarrow> printed [] s s"
  unfolding printed_def
  by (intro conjI exI [of _ "crt s"] exI [of _ "crt_pos s"]) (simp_all add: sent_def)

lemma printed_trans: "printed x s t \<Longrightarrow> printed y t u \<Longrightarrow> printed (x @ y) s u"
  unfolding printed_def by (elim conjE exE) (auto simp: sent_def)

lemma printed_con_ok: "printed x s t \<Longrightarrow> con_ok t"
  by (simp add: printed_def)

lemma printed_core: "printed x s t \<Longrightarrow> same_core t s"
  by (auto simp: printed_def same_core_def)

lemma putchar_prints:
  assumes "con_ok s"
  shows "\<exists>t. putchar c s = Ok t \<and> printed [c] s t"
proof -
  have c: "int (of_char c) \<noteq> BACKSPACE"
    using nat_of_char_less_256 [of c] unfolding BACKSPACE_def
    by (metis less_irrefl of_nat_eq_iff of_nat_numeral)
  let ?u = "s\<lparr>uart_out := uart_out s @ sent [c] s\<rparr>"
  have u: "consputc (int (of_char c)) s = cgaputc (int (of_char c)) ?u"
    using assms c by (simp add: consputc_def con_ok_def uartputc_def sent_def byte_of_def)
  have "\<exists>t. cgaputc x v = Ok t \<and> con_ok t \<and> (\<exists>k p. t = v\<lparr>crt := k, crt_pos := p\<rparr>)"
    if "con_ok v" for x and v :: "'a con_st_scheme"
  proof -
    have p: "0 \<le> crt_pos v" "crt_pos v < 1920" "\<not> panicked v" using that by (simp_all add: con_ok_def)
    define q where "q = (if x = 10 then crt_pos v + (80 - crt_pos v mod 80)
                  else if x = BACKSPACE then (if crt_pos v > 0 then crt_pos v - 1 else crt_pos v)
                  else crt_pos v + 1)"
    have "crt_pos v div 80 \<le> 23" using p by simp
    then have "crt_pos v - crt_pos v mod 80 \<le> 1840" using minus_mod_eq_mult_div [of "crt_pos v" 80] by simp
    moreover have "crt_pos v mod 80 < 80" by simp
    ultimately have q0: "0 \<le> q" "q \<le> 1920" using p by (simp_all add: q_def)
    then have q: "0 \<le> q" "q < 2000" "q div 80 \<ge> 24 \<Longrightarrow> q \<ge> 1920" "\<not> q div 80 \<ge> 24 \<Longrightarrow> q < 1920"
      by auto
    show ?thesis
      unfolding cgaputc_def Let_def q_def [symmetric]
      using q p by (auto simp: con_ok_def)
  qed
  moreover have "con_ok ?u" using assms by (simp add: con_ok_def)
  ultimately obtain t k p where "cgaputc (int (of_char c)) ?u = Ok t" "con_ok t" "t = ?u\<lparr>crt := k, crt_pos := p\<rparr>"
    by blast
  then show ?thesis unfolding putchar_def u printed_def by auto
qed

lemma foldk_putchar:
  "con_ok s \<Longrightarrow> \<exists>t. foldk putchar out s = Ok t \<and> printed out s t"
proof (induction out arbitrary: s)
  case Nil
  then show ?case by (simp add: printed_Nil)
next
  case (Cons c out)
  obtain u where u: "putchar c s = Ok u" "printed [c] s u" using putchar_prints [OF Cons.prems] by blast
  obtain t where "foldk putchar out u = Ok t" "printed out u t"
    using Cons.IH [OF printed_con_ok [OF u(2)]] by blast
  then show ?case using u printed_trans [OF u(2)] by auto
qed

lemma printed_then:
  assumes "con_ok s" and "\<And>u. con_ok u \<Longrightarrow> \<exists>t. k u = Ok t \<and> printed y u t"
  shows "\<exists>t. kbind (foldk putchar x s) k = Ok t \<and> printed (x @ y) s t"
proof -
  obtain u where u: "foldk putchar x s = Ok u" "printed x s u" using foldk_putchar [OF assms(1)] by blast
  obtain t where "k u = Ok t" "printed y u t" using assms(2) [OF printed_con_ok [OF u(2)]] by blast
  then show ?thesis using u printed_trans by auto
qed

lemma putchar_then:
  assumes "con_ok s" and "\<And>u. con_ok u \<Longrightarrow> \<exists>t. k u = Ok t \<and> printed y u t"
  shows "\<exists>t. kbind (putchar c s) k = Ok t \<and> printed (c # y) s t"
  using printed_then [OF assms, where x = "[c]"] by simp

lemma cprintf_loop_prints:
  "con_ok s \<Longrightarrow> render fmt args = Ok out \<Longrightarrow> \<exists>t. cprintf_loop fmt args s = Ok t \<and> printed out s t"
proof (induction fmt args arbitrary: s out rule: render.induct)
  case (1 args)
  then show ?case by (simp add: printed_Nil)
next
  case (2 c fmt args)
  show ?case
  proof (cases "c = CHR ''%''")
    case False
    then obtain r where r: "render fmt args = Ok r" "out = c # r" using 2(8) by (auto simp: kres_iff)
    then show ?thesis using putchar_then [OF 2(7)] 2(1) [OF False _ r(1)] False by simp
  next
    case True
    show ?thesis
    proof (cases fmt)
      case Nil
      then show ?thesis using 2(7,8) True by (simp add: printed_Nil)
    next
      case (Cons d fmt')
      note IH = 2(2-6) [OF _ Cons] and prem = 2(8) and ok = 2(7)
      consider "d = CHR ''d''" | "d = CHR ''x'' \<or> d = CHR ''p''" "d \<noteq> CHR ''d''" | "d = CHR ''s''"
        | "d = CHR ''%''" | "d \<notin> {CHR ''d'', CHR ''x'', CHR ''p'', CHR ''s'', CHR ''%''}"
        by blast
      then show ?thesis
      proof cases
        case 1
        then obtain w rest b r where x: "next_int args = Ok (w, rest)" "printint_buf w 10 True = Ok b"
          "render fmt' rest = Ok r" "out = rev b @ r"
          using prem True Cons by (auto simp: kres_iff)
        have "\<exists>t. cprintf_loop fmt' rest u = Ok t \<and> printed r u t" if "con_ok u" for u :: "'a con_st_scheme"
          using IH(1) [of _ _ _ b] that True 1 x by auto
        then show ?thesis
          using printed_then [OF ok, of "cprintf_loop fmt' rest" r "rev b"] True Cons 1 x
          by (simp add: printint_def)
      next
        case 2
        then obtain w rest b r where x: "next_int args = Ok (w, rest)" "printint_buf w 16 False = Ok b"
          "render fmt' rest = Ok r" "out = rev b @ r"
          using prem True Cons by (auto simp: kres_iff)
        have "\<exists>t. cprintf_loop fmt' rest u = Ok t \<and> printed r u t" if "con_ok u" for u :: "'a con_st_scheme"
          using IH(2) [of _ _ _ b] that True 2 x by auto
        then show ?thesis
          using printed_then [OF ok, of "cprintf_loop fmt' rest" r "rev b"] True Cons 2 x
          by (auto simp: printint_def)
      next
        case 3
        then obtain y rest r where x: "next_str args = Ok (y, rest)" "render fmt' rest = Ok r" "out = y @ r"
          using prem True Cons by (auto simp: kres_iff)
        have "\<exists>t. cprintf_loop fmt' rest u = Ok t \<and> printed r u t" if "con_ok u" for u :: "'a con_st_scheme"
          using IH(3) that True 3 x by auto
        then show ?thesis
          using printed_then [OF ok, of "cprintf_loop fmt' rest" r y] True Cons 3 x by simp
      next
        case 4
        then obtain r where x: "render fmt' args = Ok r" "out = CHR ''%'' # r"
          using prem True Cons by (auto simp: kres_iff)
        have "\<exists>t. cprintf_loop fmt' args u = Ok t \<and> printed r u t" if "con_ok u" for u :: "'a con_st_scheme"
          using IH(4) that True 4 x by auto
        then show ?thesis
          using putchar_then [OF ok, of "cprintf_loop fmt' args" r] True Cons 4 x by simp
      next
        case 5
        then obtain r where x: "render fmt' args = Ok r" "out = CHR ''%'' # d # r"
          using prem True Cons by (auto simp: kres_iff)
        have "\<exists>t. cprintf_loop fmt' args u = Ok t \<and> printed r u t" if "con_ok u" for u :: "'a con_st_scheme"
          using IH(5) that True 5 x by auto
        then have "\<exists>t. kbind (putchar d u) (cprintf_loop fmt' args) = Ok t \<and> printed (d # r) u t"
          if "con_ok u" for u :: "'a con_st_scheme"
          using putchar_then [OF that] by blast
        then show ?thesis
          using putchar_then [OF ok, of "\<lambda>u. kbind (putchar d u) (cprintf_loop fmt' args)" "d # r" "CHR ''%''"]
            True Cons 5 x by auto
      qed
    qed
  qed
qed

lemma con_acq_rel [simp]:
  "uart_out (acq l s) = uart_out s" "uart_out (rel l s) = uart_out s" "uart (acq l s) = uart s"
  "uart (rel l s) = uart s" "con_ok (acq l s) = con_ok s" "con_ok (rel l s) = con_ok s"
  "cons_locking (acq l s) = cons_locking s" "cons_locking (rel l s) = cons_locking s"
  by (simp_all add: acq_def rel_def push_def pop_def Let_def con_ok_def)

lemma sent_acq [simp]: "sent out (acq l s) = sent out s"
  by (simp add: sent_def)

lemma printed_uart: "printed out s t \<Longrightarrow> uart_out t = uart_out s @ sent out s"
  by (auto simp: printed_def)

text \<open>\<^verbatim>\<open>cprintf\<close> returns, and the processor and lock state is that of \<^verbatim>\<open>acquire\<close> and \<^verbatim>\<open>release\<close> of the
  console lock, if it locks.\<close>

lemma cprintf_prints:
  assumes "con_ok s" and "render fmt args = Ok out" and "cons_locking s \<longrightarrow> lock_ready ConsLock s"
  shows "\<exists>u. cprintf fmt args s = Ok (if cons_locking s then rel ConsLock u else u) \<and>
     printed out (if cons_locking s then acq ConsLock s else s) u"
proof (cases "cons_locking s")
  case True
  obtain u where u: "cprintf_loop fmt args (acq ConsLock s) = Ok u" "printed out (acq ConsLock s) u"
    using cprintf_loop_prints [of "acq ConsLock s" fmt args out] assms(1,2) by auto
  have r: "lock_ready ConsLock s" using True assms(3) by simp
  then have "lock_held ConsLock u"
    using acq_props(5) [OF r] same_coreD(6) [OF printed_core [OF u(2)]] by blast
  then show ?thesis using True u r by (auto simp: cprintf_def acquire_ok release_ok Let_def)
next
  case False
  then show ?thesis using cprintf_loop_prints [OF assms(1,2)] by (auto simp: cprintf_def)
qed

section \<open>Properties\<close>

text \<open>C28: Printing numbers is invertible.  \<^verbatim>\<open>printint\<close> fills at most 11 of the 16 bytes of its buffer,
  and reading the digits back gives the signed value in base 10 and the unsigned in base 16,
  for every 32-bit argument including the smallest negative one.\<close>

theorem printint_roundtrip:
  assumes "base = 10 \<or> base = 16"
  shows "\<exists>buf. printint_buf xx base sign = Ok buf \<and> length buf \<le> 11 \<and>
     read_int base (rev buf) = (if sign then sint xx else uint xx)"
  by (rule printint_buf_value [OF assms])

theorem printint_roundtrip_witness:
  "\<exists>buf. printint_buf (- 2147483648) 10 True = Ok buf \<and> length buf \<le> 11 \<and>
     read_int 10 (rev buf) = sint (- 2147483648 :: 32 word)"
  using printint_roundtrip [of 10 "- 2147483648" True] by (simp only: if_True, blast)

text \<open>C29: \<^verbatim>\<open>cprintf\<close> sends exactly the rendered text.  On a console that has not panicked, with the
  cursor on the screen and the arguments the format asks for, it returns, the serial line
  has received the text of the specification \<open>render\<close>, the cursor is still on the screen, and no
  lock stays held.\<close>

theorem cprintf_renders:
  assumes "con_ok s" and "render fmt args = Ok out" and "quiet s"
  shows "\<exists>t. cprintf fmt args s = Ok t \<and> uart_out t = uart_out s @ sent out s \<and> con_ok t \<and> quiet t"
proof -
  obtain u where u: "cprintf fmt args s = Ok (if cons_locking s then rel ConsLock u else u)"
    "printed out (if cons_locking s then acq ConsLock s else s) u"
    using cprintf_prints [OF assms(1,2)] quiet_ready [OF assms(3)] by blast
  have "quiet (if cons_locking s then rel ConsLock u else u)"
    using quiet_section [OF assms(3)] printed_core [OF u(2)] same_coreD(7) [of u s] assms(3)
    by (auto split: if_splits)
  then show ?thesis
    using u(1) printed_uart [OF u(2)] printed_con_ok [OF u(2)] by (auto split: if_splits)
qed

text \<open>A machine on top of a process table, with the console on.\<close>

definition vm_of :: "proc_st \<Rightarrow> vm_st" where
  "vm_of p = proc_st.extend p
     \<lparr>kpgdir = 0x80100000, kdata = 0x80108000, gdts = (\<lambda>_. []),
      tss = (\<lambda>_. \<lparr>ts_ss0 = 0, ts_esp0 = 0, ts_iomb = 0\<rparr>), ts_at = (\<lambda>_. 0), cr3 = (\<lambda>_. 0), tr = (\<lambda>_. 0),
      gdtr = (\<lambda>_. None)\<rparr>"

definition con_of :: "vm_st \<Rightarrow> con_st" where
  "con_of v = vm_st.extend v
     \<lparr>cons_locking = True, panicked = False, uart = True, uart_out = [], crt = (\<lambda>_. 0), crt_pos = 0\<rparr>"

lemma con_of_core [simp]: "same_core (con_of (vm_of p)) p"
  by (simp add: same_core_def con_of_def vm_of_def vm_st.defs proc_st.defs)

lemma con_of_fields [simp]:
  "con_ok (con_of v)" "uart (con_of v)" "uart_out (con_of v) = []"
  by (simp_all add: con_of_def vm_st.defs con_ok_def)

lemma mlfq_ex_quiet: "quiet mlfq_ex"
proof -
  have "same_core mlfq_ex kmem_ex"
    by (simp add: same_core_def mlfq_ex_def proc_st_of_def kmem_st.defs)
  then show ?thesis using kmem_ex_quiet same_coreD(7) by blast
qed

lemma con_of_quiet: "quiet p \<Longrightarrow> quiet (con_of (vm_of p))"
  using same_coreD(7) [OF con_of_core] by blast

theorem cprintf_renders_witness:
  "\<exists>t. cprintf ''%s=%x%%'' [PStr None, PInt 255] (con_of (vm_of mlfq_ex)) = Ok t \<and>
     uart_out t = map byte_of ''(null)=ff%''"
proof -
  have "render ''%s=%x%%'' [PStr None, PInt 255] = Ok ''(null)=ff%''"
    by (simp add: printint_buf_def printint_loop.simps buf_put_def digit_def)
  from cprintf_renders [OF _ this con_of_quiet [OF mlfq_ex_quiet]] show ?thesis by (auto simp: sent_def)
qed

end
