(* ===== verification/Vm_Space.thy ===== *)
theory Vm_Space
  imports Vm
begin

unbundle bit_operations_syntax

text \<open>
  Address spaces as a whole: what \<^verbatim>\<open>allocuvm\<close> and \<^verbatim>\<open>deallocuvm\<close> of \<^verbatim>\<open>vm.c\<close> do to the user part of a page
  directory.  \<open>uvm_wf\<close> is the ownership invariant: the directory, its tables and the frames of the
  mapped user pages are pairwise different pages of the allocator, none of them free.
\<close>

section \<open>Growing an address space\<close>

text \<open>
  The user part of an address space: every mapped user page has its own frame, which is neither
  free nor used for the page tables.
\<close>

definition frame :: "32 word \<Rightarrow> addr" where
  "frame e = P2V (PTE_ADDR e)"

definition user_va :: "addr \<Rightarrow> bool" where
  "user_va va \<longleftrightarrow> aligned va \<and> va < KERNBASE"

definition uvm_wf :: "'z kmem_st_scheme \<Rightarrow> addr \<Rightarrow> addr list \<Rightarrow> bool" where
  "uvm_wf s pgdir ps \<longleftrightarrow> free_pages s ps \<and> pt_wf s pgdir ps \<and>
     (\<forall>va e. user_va va \<longrightarrow> pt_get (mem s) pgdir va = Some e \<longrightarrow>
        page_ok s (frame e) \<and> frame e \<noteq> pgdir \<and> frame e \<notin> tables (mem s) pgdir \<and> frame e \<notin> set ps \<and>
        (\<forall>va' e'. user_va va' \<longrightarrow> va' \<noteq> va \<longrightarrow> pt_get (mem s) pgdir va' = Some e' \<longrightarrow> frame e' \<noteq> frame e))"

definition user_entry :: "addr \<Rightarrow> 32 word" where
  "user_entry p = V2P p OR (PTE_W OR PTE_U) OR PTE_P"

definition zero_page :: "memory \<Rightarrow> addr \<Rightarrow> bool" where
  "zero_page m p \<longleftrightarrow> (\<forall>k<PGSIZE. m (p + of_nat k) = 0)"

text \<open>The frames of the user pages mapped in both states hold the same bytes.\<close>

definition frames_kept :: "addr \<Rightarrow> memory \<Rightarrow> memory \<Rightarrow> bool" where
  "frames_kept pgdir m m' \<longleftrightarrow>
     (\<forall>va e. user_va va \<longrightarrow> pt_get m pgdir va = Some e \<longrightarrow> same_page m m' (frame e))"

lemma frame_user_entry: "page_ok s p \<Longrightarrow> frame (user_entry p) = p"
  by (simp add: frame_def user_entry_def PTE_ADDR_or PTE_ADDR_aligned V2P_aligned)

lemma pt_get_same:
  assumes wf: "pt_wf s pgdir ps" and "same_page (mem s) m' pgdir"
    and "\<forall>t \<in> tables (mem s) pgdir. same_page (mem s) m' t"
  shows "\<And>i. i < 1024 \<Longrightarrow> pd_table m' pgdir i = pd_table (mem s) pgdir i"
    and "\<And>va. pt_get m' pgdir va = pt_get (mem s) pgdir va"
proof -
  show pd: "pd_table m' pgdir i = pd_table (mem s) pgdir i" if "i < 1024" for i
    using same_page_ent [OF assms(2) that] by (simp add: pd_table_def)
  fix va
  show "pt_get m' pgdir va = pt_get (mem s) pgdir va"
  proof (cases "pd_table (mem s) pgdir (pdx va)")
    case None
    then show ?thesis using pd [OF pdx_bound, of va] by (simp add: pt_get_def)
  next
    case (Some t)
    then have "same_page (mem s) m' t"
      using assms(3) pdx_bound by (auto simp: tables_def NPDENTRIES_def)
    from same_page_ent [OF this ptx_bound] show ?thesis
      using pd [OF pdx_bound, of va] Some by (simp add: pt_get_def)
  qed
qed

lemma tables_page:
  assumes "pt_wf s pgdir ps" and "t \<in> tables (mem s) pgdir"
  shows "aligned t" and "t \<noteq> pgdir" and "t \<notin> set ps"
proof -
  obtain i where "pd_table (mem s) pgdir i = Some t" "i < 1024"
    using assms(2) by (auto simp: tables_def NPDENTRIES_def)
  from pt_wf_table [OF assms(1) this] show "aligned t" "t \<noteq> pgdir" "t \<notin> set ps" by blast+
qed

text \<open>One iteration of \<^verbatim>\<open>allocuvm\<close>.\<close>

lemma alloc_page_step:
  assumes uw: "uvm_wf s pgdir ps" and two: "2 \<le> length ps" and a: "user_va a"
    and new: "pt_get (mem s) pgdir a = None"
  shows "\<exists>p u t qs. kalloc s = Ok (p, u) \<and> p \<noteq> 0 \<and>
     mappages pgdir a pg (V2P p) (PTE_W OR PTE_U) (u\<lparr>mem := memset (mem u) p 0 pg\<rparr>) = Ok (0, t) \<and>
     uvm_wf t pgdir qs \<and> length ps \<le> length qs + 2 \<and> frames_kept pgdir (mem s) (mem t) \<and>
     (\<forall>va. aligned va \<longrightarrow> pt_get (mem t) pgdir va =
        (if va = a then Some (user_entry p) else pt_get (mem s) pgdir va)) \<and>
     frame (user_entry p) = p \<and> zero_page (mem t) p \<and> kend t = kend s \<and> use_lock t = use_lock s \<and> (quiet s \<longrightarrow> quiet t)"
proof -
  obtain p ps1 where ps: "ps = p # ps1" using two by (cases ps) auto
  have fp: "free_pages s (p # ps1)" and wf: "pt_wf s pgdir (p # ps1)" using uw ps by (auto simp: uvm_wf_def)
  obtain u where u: "kalloc s = Ok (p, u)" "free_pages u ps1" "kend u = kend s" "use_lock u = use_lock s"
    "mem u = mem s" "quiet s \<longrightarrow> quiet u"
    using kalloc_spec [OF fp] by auto
  have pk: "page_ok s p" "aligned p" "p \<noteq> 0" "p \<notin> set ps1"
    using free_pages_page_ok [OF fp, of p] page_ok_aligned page_nonzero fp by (auto simp: free_pages_def)
  have dir: "aligned pgdir" "pgdir \<noteq> p" "pgdir \<notin> set ps1" using pt_wf_dir [OF wf] by auto
  define m where "m = memset (mem s) p 0 pg"
  define v where "v = u\<lparr>mem := m\<rparr>"
  have sp: "same_page (mem s) m q" if "aligned q" "q \<noteq> p" for q
    unfolding m_def by (rule same_page_memset [OF pk(2) that])
  have tb: "same_page (mem s) m t" if "t \<in> tables (mem s) pgdir" for t
    using sp tables_page [OF wf that] by auto
  note same = pt_get_same [OF wf sp [OF dir(1,2)]]
  have pd: "pd_table m pgdir i = pd_table (mem s) pgdir i" if "i < 1024" for i
    using same(1) tb that by blast
  have get: "pt_get m pgdir va = pt_get (mem s) pgdir va" for va using same(2) tb by blast
  have tabs: "tables m pgdir = tables (mem s) pgdir" using pd by (auto simp: tables_def NPDENTRIES_def)
  have fv: "free_pages v ps1" unfolding v_def
  proof (rule free_pages_frame [OF u(2)], intro ballI)
    fix q assume q: "q \<in> set ps1"
    then show "same_page (mem u) m q"
      using sp u(5) pk(4) page_ok_aligned free_pages_page_ok [OF fp, of q] by auto
  qed
  have wv: "pt_wf v pgdir ps1"
    using wf pd u(3) by (simp add: pt_wf_def NPDENTRIES_def v_def page_ok_def)
  have ne1: "ps1 \<noteq> []" using two ps by auto
  define qs where "qs = (if pd_table (mem v) pgdir (pdx a) = None then tl ps1 else ps1)"
  have al: "aligned a" using a by (simp add: user_va_def)
  have newv: "pt_get (mem v) pgdir a = None" using get new by (simp add: v_def)
  obtain t where t: "mappages pgdir a pg (V2P p) (PTE_W OR PTE_U) v = Ok (0, t)" "free_pages t qs"
    "pt_wf t pgdir qs" "vm_frame pgdir ps1 v t"
    "tables (mem t) pgdir \<subseteq> tables (mem v) pgdir \<union> set ps1"
    "\<forall>va'. aligned va' \<longrightarrow> pt_get (mem t) pgdir va' =
        (if va' = a then Some (V2P p OR (PTE_W OR PTE_U) OR PTE_P) else pt_get (mem v) pgdir va')"
    using mappages_page [OF fv wv al newv, of "V2P p" "PTE_W OR PTE_U"] ne1
    unfolding qs_def [symmetric] Let_def by blast
  have qs: "set qs \<subseteq> set ps1" "length ps1 \<le> length qs + 1" by (cases ps1; auto simp: qs_def)+
  have g: "pt_get (mem t) pgdir va = (if va = a then Some (user_entry p) else pt_get (mem s) pgdir va)"
    if "aligned va" for va
    using t(6) that get by (simp add: user_entry_def v_def)
  have kept: "same_page (mem s) (mem t) q"
    if "aligned q" "q \<noteq> p" "q \<noteq> pgdir" "q \<notin> tables (mem s) pgdir" "q \<notin> set ps1" for q
    using same_page_trans [OF sp [OF that(1,2)]] t(4) that tabs by (auto simp: vm_frame_def v_def)
  have old: "page_ok s (frame e) \<and> frame e \<noteq> pgdir \<and> frame e \<notin> tables (mem s) pgdir \<and> frame e \<notin> set ps \<and>
      (\<forall>va' e'. user_va va' \<longrightarrow> va' \<noteq> va \<longrightarrow> pt_get (mem s) pgdir va' = Some e' \<longrightarrow> frame e' \<noteq> frame e)"
    if "user_va va" "pt_get (mem s) pgdir va = Some e" for va e
    using uw that unfolding uvm_wf_def by blast
  have ptab: "p \<notin> tables (mem s) pgdir" using tables_page(3) [OF wf] by auto
  note fe = frame_user_entry [OF pk(1)]
  have kt: "kend t = kend s" "use_lock t = use_lock s" "quiet s \<longrightarrow> quiet t"
    using t(4) u by (auto simp: vm_frame_def v_def)
  have "uvm_wf t pgdir qs"
    unfolding uvm_wf_def
  proof (intro conjI allI impI)
    fix va e assume va: "user_va va" "pt_get (mem t) pgdir va = Some e"
    have ava: "aligned va" using va(1) by (simp add: user_va_def)
    have props: "page_ok s (frame e) \<and> frame e \<noteq> pgdir \<and> frame e \<notin> tables (mem s) pgdir \<and> frame e \<notin> set ps1"
    proof (cases "va = a")
      case True
      then show ?thesis using g [OF ava] va(2) fe pk dir ptab by auto
    next
      case False
      then show ?thesis using g [OF ava] va old ps by auto
    qed
    then show "page_ok t (frame e)" "frame e \<noteq> pgdir" using kt(1) by (simp_all add: page_ok_def)
    show "frame e \<notin> tables (mem t) pgdir" using props t(5) tabs by (auto simp: v_def)
    show "frame e \<notin> set qs" using props qs(1) by auto
    fix va' e' assume va': "user_va va'" "va' \<noteq> va" "pt_get (mem t) pgdir va' = Some e'"
    have ava': "aligned va'" using va'(1) by (simp add: user_va_def)
    show "frame e' \<noteq> frame e"
    proof (cases "va = a \<or> va' = a")
      case True
      then show ?thesis
        using g [OF ava] g [OF ava'] va va' old [of va e] old [of va' e'] fe ps by (auto split: if_splits)
    next
      case False
      then show ?thesis using g [OF ava] g [OF ava'] va va' old [of va e] by auto
    qed
  qed (rule t(2), rule t(3))
  moreover have "frames_kept pgdir (mem s) (mem t)"
    unfolding frames_kept_def using kept old ps page_ok_aligned by (metis list.set_intros(1) list.set_intros(2))
  moreover have "zero_page (mem t) p"
  proof -
    have "same_page m (mem t) p"
      using t(4) pk(2,4) dir(2) ptab tabs by (auto simp: vm_frame_def v_def)
    moreover have "m (p + of_nat k) = 0" if "k < PGSIZE" for k
      using that within_offset [of k p PGSIZE] by (simp add: m_def memset_fill unat_pg PGSIZE_def)
    ultimately show ?thesis by (simp add: same_page_def zero_page_def)
  qed
  ultimately show ?thesis
    using u(1) pk(3) t(1) qs(2) ps g fe kt u(5) unfolding v_def m_def
    by (intro exI [of _ p] exI [of _ u] exI [of _ t] exI [of _ qs]) auto
qed

text \<open>
  The address space \<open>t\<close> extends \<open>s\<close> by fresh zeroed pages at the page addresses in \<open>[a, newsz)\<close>.
\<close>

definition grown :: "addr \<Rightarrow> addr \<Rightarrow> addr \<Rightarrow> 'z kmem_st_scheme \<Rightarrow> 'z kmem_st_scheme \<Rightarrow> bool" where
  "grown pgdir a newsz s t \<longleftrightarrow> frames_kept pgdir (mem s) (mem t) \<and>
     (\<forall>va. aligned va \<longrightarrow>
        (if a \<le> va \<and> va < newsz
         then \<exists>p. pt_get (mem t) pgdir va = Some (user_entry p) \<and> frame (user_entry p) = p \<and> zero_page (mem t) p
         else pt_get (mem t) pgdir va = pt_get (mem s) pgdir va)) \<and>
     kend t = kend s \<and> use_lock t = use_lock s \<and> (quiet s \<longrightarrow> quiet t)"

lemma next_page:
  assumes "user_va a"
  shows "unat (a + pg) = unat a + PGSIZE" and "aligned (a + pg)"
proof -
  have "unat a < 0x80000000" using assms by (simp add: user_va_def word_less_nat_alt KERNBASE_def)
  then show u: "unat (a + pg) = unat a + PGSIZE"
    unfolding pg_def by (intro unat_offset) (simp add: PGSIZE_def)
  show "aligned (a + pg)" using assms by (simp add: aligned_def u user_va_def)
qed

lemma aligned_between:
  assumes "user_va a" and "aligned va" and "a \<le> va" and "va \<noteq> a"
  shows "a + pg \<le> va"
proof -
  obtain c where c: "unat a = 4096 * c"
    using assms(1) by (auto simp: user_va_def aligned_def PGSIZE_def mod_eq_0_iff_dvd)
  obtain d where d: "unat va = 4096 * d"
    using assms(2) by (auto simp: aligned_def PGSIZE_def mod_eq_0_iff_dvd)
  have "c < d" using assms(3,4) c d by (simp add: word_le_nat_alt word_unat_eq_iff)
  then show ?thesis using next_page(1) [OF assms(1)] c d by (simp add: word_le_nat_alt PGSIZE_def)
qed

lemma same_page_zero: "same_page m m' p \<Longrightarrow> zero_page m p \<Longrightarrow> zero_page m' p"
  by (simp add: same_page_def zero_page_def)

lemma allocuvm_loop_spec:
  assumes "uvm_wf s pgdir ps" and "aligned a" and "newsz \<le> KERNBASE"
    and "unat newsz \<le> unat a + n * PGSIZE" and "2 * n \<le> length ps"
    and "\<forall>va. aligned va \<longrightarrow> a \<le> va \<longrightarrow> va < newsz \<longrightarrow> pt_get (mem s) pgdir va = None"
  shows "\<exists>t qs. allocuvm_loop pgdir a oldsz newsz s = Some (Ok (newsz, t)) \<and> uvm_wf t pgdir qs \<and>
     grown pgdir a newsz s t"
  using assms
proof (induction n arbitrary: a s ps)
  case 0
  then have "\<not> a < newsz" by (simp add: word_less_nat_alt)
  then show ?case using 0 by (subst allocuvm_loop.simps) (auto simp: grown_def frames_kept_def)
next
  case (Suc n)
  show ?case
  proof (cases "a < newsz")
    case False
    then show ?thesis using Suc.prems by (subst allocuvm_loop.simps) (auto simp: grown_def frames_kept_def)
  next
    case True
    have ua: "user_va a" using True Suc.prems(2,3) by (auto simp: user_va_def)
    have "2 \<le> length ps" using Suc.prems(5) by simp
    then obtain p u t qs where st: "kalloc s = Ok (p, u)" "p \<noteq> 0"
      "mappages pgdir a pg (V2P p) (PTE_W OR PTE_U) (u\<lparr>mem := memset (mem u) p 0 pg\<rparr>) = Ok (0, t)"
      "uvm_wf t pgdir qs" "length ps \<le> length qs + 2" "frames_kept pgdir (mem s) (mem t)"
      "\<forall>va. aligned va \<longrightarrow> pt_get (mem t) pgdir va = (if va = a then Some (user_entry p) else pt_get (mem s) pgdir va)"
      "frame (user_entry p) = p" "zero_page (mem t) p" "kend t = kend s" "use_lock t = use_lock s" "quiet s \<longrightarrow> quiet t"
      using alloc_page_step [OF Suc.prems(1) _ ua] Suc.prems(6) Suc.prems(2) True by auto
    note np = next_page [OF ua]
    have "\<forall>va. aligned va \<longrightarrow> a + pg \<le> va \<longrightarrow> va < newsz \<longrightarrow> pt_get (mem t) pgdir va = None"
    proof (intro allI impI)
      fix va assume va: "aligned va" "a + pg \<le> va" "va < newsz"
      then have "a \<le> va" "va \<noteq> a" using np(1) by (auto simp: word_le_nat_alt PGSIZE_def)
      then show "pt_get (mem t) pgdir va = None" using st(7) va Suc.prems(6) by simp
    qed
    then obtain w rs where w: "allocuvm_loop pgdir (a + pg) oldsz newsz t = Some (Ok (newsz, w))"
      "uvm_wf w pgdir rs" "grown pgdir (a + pg) newsz t w"
      using Suc.IH [OF st(4) np(2) Suc.prems(3)] Suc.prems(4,5) st(5) np(1) by auto
    have loop: "allocuvm_loop pgdir a oldsz newsz s = Some (Ok (newsz, w))"
      using True st(1-3) w(1) by (subst allocuvm_loop.simps) simp
    have ga: "pt_get (mem t) pgdir a = Some (user_entry p)" using st(7) Suc.prems(2) by simp
    have "same_page (mem t) (mem w) p"
      using w(3) ga ua st(8) unfolding grown_def frames_kept_def by metis
    then have zp: "zero_page (mem w) p" using st(9) same_page_zero by blast
    have "frames_kept pgdir (mem s) (mem w)"
      unfolding frames_kept_def
    proof (intro allI impI)
      fix va e assume va: "user_va va" "pt_get (mem s) pgdir va = Some e"
      have "va \<noteq> a" using va(2) Suc.prems(2,6) True by auto
      then have "pt_get (mem t) pgdir va = Some e" using st(7) va by (simp add: user_va_def)
      then have "same_page (mem t) (mem w) (frame e)"
        using w(3) va(1) unfolding grown_def frames_kept_def by blast
      then show "same_page (mem s) (mem w) (frame e)"
        using st(6) va same_page_trans unfolding frames_kept_def by blast
    qed
    moreover have "if a \<le> va \<and> va < newsz
         then \<exists>p. pt_get (mem w) pgdir va = Some (user_entry p) \<and> frame (user_entry p) = p \<and> zero_page (mem w) p
         else pt_get (mem w) pgdir va = pt_get (mem s) pgdir va" if va: "aligned va" for va
    proof (cases "va = a")
      case True
      have "\<not> a + pg \<le> a" using np(1) by (simp add: word_le_nat_alt PGSIZE_def)
      then have "pt_get (mem w) pgdir a = Some (user_entry p)"
        using w(3) ga Suc.prems(2) unfolding grown_def by auto
      then show ?thesis using True \<open>a < newsz\<close> zp st(8) by auto
    next
      case False
      have "a + pg \<le> va \<longleftrightarrow> a \<le> va"
        using aligned_between [OF ua va _ False] np(1) by (auto simp: word_le_nat_alt)
      then show ?thesis using w(3) va st(7) False unfolding grown_def by auto
    qed
    ultimately have "grown pgdir a newsz s w"
      using w(3) st(10-12) by (auto simp: grown_def)
    then show ?thesis using loop w(2) by blast
  qed
qed

section \<open>Shrinking an address space\<close>

lemma free_frame_step:
  assumes uw: "uvm_wf s pgdir ps" and a: "user_va a" and e: "pt_get (mem s) pgdir a = Some e"
    and t: "pd_table (mem s) pgdir (pdx a) = Some t"
  shows "\<exists>u. kfree (frame e) s = Ok u \<and>
     (let w = u\<lparr>mem := set_ent (mem u) t (ptx a) 0\<rparr> in
      uvm_wf w pgdir (frame e # ps) \<and> kend w = kend s \<and> use_lock w = use_lock s \<and> (quiet s \<longrightarrow> quiet w) \<and>
      (\<forall>va. aligned va \<longrightarrow> pt_get (mem w) pgdir va = (if va = a then None else pt_get (mem s) pgdir va)) \<and>
      (\<forall>va e'. user_va va \<longrightarrow> va \<noteq> a \<longrightarrow> pt_get (mem s) pgdir va = Some e' \<longrightarrow>
         same_page (mem s) (mem w) (frame e')))"
proof -
  have fp: "free_pages s ps" and wf: "pt_wf s pgdir ps" using uw by (auto simp: uvm_wf_def)
  let ?f = "frame e"
  have al: "aligned a" using a by (simp add: user_va_def)
  have old: "page_ok s (frame x) \<and> frame x \<noteq> pgdir \<and> frame x \<notin> tables (mem s) pgdir \<and> frame x \<notin> set ps \<and>
      (\<forall>va' e'. user_va va' \<longrightarrow> va' \<noteq> va \<longrightarrow> pt_get (mem s) pgdir va' = Some e' \<longrightarrow> frame e' \<noteq> frame x)"
    if "user_va va" "pt_get (mem s) pgdir va = Some x" for va x
    using uw that unfolding uvm_wf_def by blast
  have f: "page_ok s ?f" "?f \<noteq> pgdir" "?f \<notin> tables (mem s) pgdir" "?f \<notin> set ps" "aligned ?f"
    using old [OF a e] page_ok_aligned by auto
  obtain u where u: "kfree ?f s = Ok u" "free_pages u (?f # ps)" "kend u = kend s" "use_lock u = use_lock s"
    "quiet s \<longrightarrow> quiet u" "\<forall>x. \<not> within ?f PGSIZE x \<longrightarrow> mem u x = mem s x"
    using kfree_spec [OF fp f(1,4)] by blast
  have sp: "same_page (mem s) (mem u) q" if "aligned q" "q \<noteq> ?f" for q
    using u(6) page_disjoint [of ?f q] f(5) that by (auto simp: same_page_def aligned_def)
  have tb: "same_page (mem s) (mem u) q" if "q \<in> tables (mem s) pgdir" for q
    using sp tables_page [OF wf that] f(3) that by auto
  have dir: "aligned pgdir" using pt_wf_dir [OF wf] by blast
  note same = pt_get_same [OF wf sp [OF dir f(2) [symmetric]]]
  have pd: "pd_table (mem u) pgdir i = pd_table (mem s) pgdir i" if "i < 1024" for i
    using same(1) tb that by blast
  have get: "pt_get (mem u) pgdir va = pt_get (mem s) pgdir va" for va using same(2) tb by blast
  have tabs: "tables (mem u) pgdir = tables (mem s) pgdir" using pd by (auto simp: tables_def NPDENTRIES_def)
  have wu: "pt_wf u pgdir (?f # ps)"
    unfolding pt_wf_def NPDENTRIES_def
  proof (intro conjI allI impI)
    show "page_ok u pgdir" "pgdir \<notin> set (?f # ps)" using pt_wf_dir [OF wf] f(2) u(3) by (auto simp: page_ok_def)
    fix i t' assume i: "i < 1024" "pd_table (mem u) pgdir i = Some t'"
    then have s': "pd_table (mem s) pgdir i = Some t'" using pd by simp
    then have "t' \<in> tables (mem s) pgdir" using i(1) by (auto simp: tables_def NPDENTRIES_def)
    then show "page_ok u t'" "t' \<noteq> pgdir" "t' \<notin> set (?f # ps)"
      using pt_wf_table [OF wf s' i(1)] u(3) f(3) by (auto simp: page_ok_def)
    fix j assume "j < 1024" "j \<noteq> i"
    then show "pd_table (mem u) pgdir j \<noteq> Some t'" using pd pt_wf_inj [OF wf s' _ i(1)] by auto
  qed
  have tu: "pd_table (mem u) pgdir (pdx a) = Some t" using t pd [OF pdx_bound] by simp
  define w where "w = u\<lparr>mem := set_ent (mem u) t (ptx a) 0\<rparr>"
  note st = set_pte [OF u(2) wu tu, where v = 0, folded w_def]
  have g: "pt_get (mem w) pgdir va = (if va = a then None else pt_get (mem s) pgdir va)" if "aligned va" for va
    using st(4) [of va] get same_indices [OF al that] by auto
  have "tables (mem w) pgdir = tables (mem u) pgdir" using st(5) by (auto simp: tables_def NPDENTRIES_def)
  then have tw: "tables (mem w) pgdir = tables (mem s) pgdir" using tabs by simp
  have kept: "same_page (mem s) (mem w) q"
    if "aligned q" "q \<noteq> ?f" "q \<noteq> pgdir" "q \<notin> tables (mem s) pgdir" "q \<notin> set ps" for q
  proof -
    have "same_page (mem u) (mem w) q" using st(3) that tabs unfolding vm_frame_def by auto
    then show ?thesis using sp [OF that(1,2)] same_page_trans by blast
  qed
  have kw: "kend w = kend s" "use_lock w = use_lock s" "quiet s \<longrightarrow> quiet w"
    using u(3-5) by (simp_all add: w_def)
  have "uvm_wf w pgdir (?f # ps)"
    unfolding uvm_wf_def
  proof (intro conjI allI impI)
    fix va x assume va: "user_va va" "pt_get (mem w) pgdir va = Some x"
    have "aligned va" using va(1) by (simp add: user_va_def)
    then have ne: "va \<noteq> a" and gx: "pt_get (mem s) pgdir va = Some x" using g va(2) by (auto split: if_splits)
    note o = old [OF va(1) gx]
    have nf: "frame x \<noteq> ?f" using o a e ne by metis
    show "page_ok w (frame x)" "frame x \<noteq> pgdir" "frame x \<notin> tables (mem w) pgdir" "frame x \<notin> set (?f # ps)"
      using o nf tw kw(1) by (auto simp: page_ok_def)
    fix va' e' assume va': "user_va va'" "va' \<noteq> va" "pt_get (mem w) pgdir va' = Some e'"
    then have "pt_get (mem s) pgdir va' = Some e'" using g [of va'] by (auto simp: user_va_def split: if_splits)
    then show "frame e' \<noteq> frame x" using o va'(1,2) by blast
  qed (rule st(1), rule st(2))
  moreover have "same_page (mem s) (mem w) (frame e')"
    if "user_va va" "va \<noteq> a" "pt_get (mem s) pgdir va = Some e'" for va e'
    using kept old [OF that(1,3)] a e that(2) page_ok_aligned by metis
  ultimately show ?thesis using u(1) g kw unfolding w_def Let_def by (intro exI [of _ u]) auto
qed

text \<open>
  The address space \<open>t\<close> is \<open>s\<close> without the pages in \<open>[a, oldsz)\<close>; \<open>range_frames\<close> are their frames.
\<close>

definition shrunk :: "addr \<Rightarrow> addr \<Rightarrow> addr \<Rightarrow> 'z kmem_st_scheme \<Rightarrow> 'z kmem_st_scheme \<Rightarrow> bool" where
  "shrunk pgdir a oldsz s t \<longleftrightarrow>
     (\<forall>va. aligned va \<longrightarrow> pt_get (mem t) pgdir va =
        (if a \<le> va \<and> va < oldsz then None else pt_get (mem s) pgdir va)) \<and>
     (\<forall>va e. user_va va \<longrightarrow> \<not> (a \<le> va \<and> va < oldsz) \<longrightarrow> pt_get (mem s) pgdir va = Some e \<longrightarrow>
        same_page (mem s) (mem t) (frame e)) \<and>
     kend t = kend s \<and> use_lock t = use_lock s \<and> (quiet s \<longrightarrow> quiet t)"

definition range_frames :: "memory \<Rightarrow> addr \<Rightarrow> addr \<Rightarrow> addr \<Rightarrow> addr set" where
  "range_frames m pgdir a oldsz =
     {frame e | va e. aligned va \<and> a \<le> va \<and> va < oldsz \<and> pt_get m pgdir va = Some e}"

lemma range_frames_skip:
  assumes "\<forall>va. aligned va \<longrightarrow> a \<le> va \<longrightarrow> va < oldsz \<longrightarrow> \<not> b \<le> va \<longrightarrow> pt_get m pgdir va = None" and "a \<le> b"
  shows "range_frames m pgdir a oldsz = range_frames m pgdir b oldsz"
proof -
  have "a \<le> va \<and> va < oldsz \<and> pt_get m pgdir va = Some e \<longleftrightarrow> b \<le> va \<and> va < oldsz \<and> pt_get m pgdir va = Some e"
    if "aligned va" for va e
    using assms that by (metis option.distinct(1) order_trans)
  then show ?thesis unfolding range_frames_def by blast
qed

lemma shrunk_skip:
  assumes "\<forall>va. aligned va \<longrightarrow> a \<le> va \<longrightarrow> va < oldsz \<longrightarrow> \<not> b \<le> va \<longrightarrow> pt_get (mem s) pgdir va = None" and "a \<le> b"
    and sh: "shrunk pgdir b oldsz s t"
  shows "shrunk pgdir a oldsz s t"
  unfolding shrunk_def
proof (intro conjI allI impI)
  fix va assume va: "aligned va"
  have "(if b \<le> va \<and> va < oldsz then None else pt_get (mem s) pgdir va) =
      (if a \<le> va \<and> va < oldsz then None else pt_get (mem s) pgdir va)"
    using assms(1,2) va by auto
  then show "pt_get (mem t) pgdir va = (if a \<le> va \<and> va < oldsz then None else pt_get (mem s) pgdir va)"
    using sh va unfolding shrunk_def by simp
next
  fix va e assume va: "user_va va" "\<not> (a \<le> va \<and> va < oldsz)" "pt_get (mem s) pgdir va = Some e"
  then have "\<not> (b \<le> va \<and> va < oldsz)" using assms(2) by auto
  then show "same_page (mem s) (mem t) (frame e)" using sh va unfolding shrunk_def by blast
qed (use sh in \<open>auto simp: shrunk_def\<close>)

lemma unat_of_nat32: "k < 2 ^ 32 \<Longrightarrow> unat (of_nat k :: addr) = k"
  by (simp add: unat_of_nat)

text \<open>The jump to the next page table: \<^verbatim>\<open>PGADDR(PDX(a) + 1, 0, 0)\<close>.\<close>

lemma next_table:
  assumes "user_va a"
  shows "unat (PGADDR (PDX a + 1) 0 0) = (pdx a + 1) * 2 ^ 22"
proof -
  have "unat a < 0x80000000" using assms by (simp add: user_va_def word_less_nat_alt KERNBASE_def)
  then have b: "pdx a < 512" by (simp add: pdx_def less_mult_imp_div_less)
  have "PGADDR (PDX a + 1) 0 0 = of_nat ((pdx a + 1) * 2 ^ 22)"
    using unat_PDX [of a, symmetric] by (simp add: PGADDR_def push_bit_eq_mult)
  moreover have "(pdx a + 1) * 2 ^ 22 < 2 ^ 32" using b by simp
  ultimately show ?thesis by (simp only: unat_of_nat32)
qed

lemma pdx_between:
  assumes "a \<le> va" and "unat va < (pdx a + 1) * 2 ^ 22"
  shows "pdx va = pdx a"
proof (rule antisym)
  show "pdx a \<le> pdx va" using assms(1) by (simp add: pdx_def word_le_nat_alt div_le_mono)
  show "pdx va \<le> pdx a"
    using assms(2) less_mult_imp_div_less [of "unat va" "pdx a + 1" "2 ^ 22"] by (simp add: pdx_def)
qed

lemma deallocuvm_loop_spec:
  assumes "uvm_wf s pgdir ps" and "aligned a" and "oldsz \<le> KERNBASE" and "KERNBASE < kend s"
  shows "\<exists>t qs. deallocuvm_loop pgdir a oldsz s = Some (Ok t) \<and> uvm_wf t pgdir (qs @ ps) \<and>
     shrunk pgdir a oldsz s t \<and> set qs = range_frames (mem s) pgdir a oldsz"
  using assms
proof (induction "unat oldsz - unat a" arbitrary: a s ps rule: less_induct)
  case less
  show ?case
  proof (cases "a < oldsz")
    case False
    then show ?thesis using less.prems
      by (subst deallocuvm_loop.simps) (auto simp: shrunk_def range_frames_def intro!: exI [of _ "[]"])
  next
    case True
    have ua: "user_va a" using True less.prems(2,3) by (auto simp: user_va_def)
    note np = next_page [OF ua]
    have au: "unat a < unat oldsz" using True by (simp add: word_less_nat_alt)
    show ?thesis
    proof (cases "pd_table (mem s) pgdir (pdx a)")
      case None
      let ?b = "PGADDR (PDX a + 1) 0 0"
      note nt = next_table [OF ua]
      have "unat a < (pdx a + 1) * 2 ^ 22"
        using dividend_less_div_times [of "2 ^ 22" "unat a"] by (simp add: pdx_def algebra_simps)
      then have ab: "a < ?b" using nt by (simp add: word_less_nat_alt)
      have alb: "aligned ?b" using nt by (simp add: aligned_def PGSIZE_def)
      have skip: "\<forall>va. aligned va \<longrightarrow> a \<le> va \<longrightarrow> va < oldsz \<longrightarrow> \<not> ?b \<le> va \<longrightarrow> pt_get (mem s) pgdir va = None"
        using pdx_between nt None by (auto simp: pt_get_def word_le_nat_alt)
      have step: "deallocuvm_loop pgdir a oldsz s = deallocuvm_loop pgdir ?b oldsz s"
        using True walkpgdir_absent [OF None] by (subst deallocuvm_loop.simps) simp
      have "unat oldsz - unat ?b < unat oldsz - unat a" using au ab by (simp add: word_less_nat_alt)
      from less.hyps [OF this less.prems(1) alb less.prems(3,4)] show ?thesis
        using step range_frames_skip [OF skip] shrunk_skip [OF skip] ab by (metis order_less_imp_le)
    next
      case (Some t)
      note tt = pt_wf_table [OF _ Some pdx_bound]
      have pok: "page_ok s t" using tt less.prems(1) by (auto simp: uvm_wf_def)
      have walk: "walkpgdir pgdir a False s = Ok (t + of_nat (4 * ptx a), s)" "t + of_nat (4 * ptx a) \<noteq> 0"
        using walkpgdir_present [OF Some] slot_nonzero [OF pok ptx_bound] by auto
      have dec: "unat oldsz - unat (a + pg) < unat oldsz - unat a" using au np(1) by (simp add: PGSIZE_def)
      have le: "a \<le> a + pg" using np(1) by (simp add: word_le_nat_alt)
      have only: "va = a" if "aligned va" "a \<le> va" "\<not> a + pg \<le> va" for va
        using aligned_between [OF ua that(1,2)] that(3) by blast
      show ?thesis
      proof (cases "pt_get (mem s) pgdir a")
        case None
        then have "load32 (mem s) (t + of_nat (4 * ptx a)) AND PTE_P = 0"
          using Some by (auto simp: pt_get_def ent_def split: if_splits)
        then have step: "deallocuvm_loop pgdir a oldsz s = deallocuvm_loop pgdir (a + pg) oldsz s"
          using True walk by (subst deallocuvm_loop.simps) simp
        have skip: "\<forall>va. aligned va \<longrightarrow> a \<le> va \<longrightarrow> va < oldsz \<longrightarrow> \<not> a + pg \<le> va \<longrightarrow> pt_get (mem s) pgdir va = None"
          using only None by auto
        from less.hyps [OF dec less.prems(1) np(2) less.prems(3,4)] show ?thesis
          using step range_frames_skip [OF skip le] shrunk_skip [OF skip le] by metis
      next
        case e: (Some e)
        then have ee: "load32 (mem s) (t + of_nat (4 * ptx a)) = e" "e AND PTE_P \<noteq> 0"
          using Some by (auto simp: pt_get_def ent_def split: if_splits)
        obtain u where u: "kfree (frame e) s = Ok u"
          "let w = u\<lparr>mem := set_ent (mem u) t (ptx a) 0\<rparr> in
           uvm_wf w pgdir (frame e # ps) \<and> kend w = kend s \<and> use_lock w = use_lock s \<and> (quiet s \<longrightarrow> quiet w) \<and>
           (\<forall>va. aligned va \<longrightarrow> pt_get (mem w) pgdir va = (if va = a then None else pt_get (mem s) pgdir va)) \<and>
           (\<forall>va e'. user_va va \<longrightarrow> va \<noteq> a \<longrightarrow> pt_get (mem s) pgdir va = Some e' \<longrightarrow>
              same_page (mem s) (mem w) (frame e'))"
          using free_frame_step [OF less.prems(1) ua e Some] by blast
        define w where "w = u\<lparr>mem := set_ent (mem u) t (ptx a) 0\<rparr>"
        note uw = u(2) [unfolded Let_def, folded w_def]
        have "page_ok s (frame e)" using less.prems(1) ua e unfolding uvm_wf_def by blast
        then have pa: "PTE_ADDR e \<noteq> 0"
          using less.prems(4) by (auto simp: page_ok_def frame_def P2V_def)
        have step: "deallocuvm_loop pgdir a oldsz s = deallocuvm_loop pgdir (a + pg) oldsz w"
          using True walk ee pa u(1) by (subst deallocuvm_loop.simps) (simp add: w_def set_ent_def frame_def)
        have "KERNBASE < kend w" using uw less.prems(4) by simp
        then obtain x qs where x: "deallocuvm_loop pgdir (a + pg) oldsz w = Some (Ok x)"
          "uvm_wf x pgdir (qs @ frame e # ps)" "shrunk pgdir (a + pg) oldsz w x"
          "set qs = range_frames (mem w) pgdir (a + pg) oldsz"
          using less.hyps [OF dec _ np(2) less.prems(3), of w "frame e # ps"] uw by blast
        have na: "\<not> a + pg \<le> a" using np(1) by (simp add: word_le_nat_alt PGSIZE_def)
        have rng: "a \<le> va \<longleftrightarrow> va = a \<or> a + pg \<le> va" if "aligned va" for va
          using only [OF that] le by (metis order.refl order_trans)
        have "range_frames (mem w) pgdir (a + pg) oldsz = range_frames (mem s) pgdir (a + pg) oldsz"
          using uw na unfolding range_frames_def by (metis (lifting))
        moreover have "range_frames (mem s) pgdir a oldsz = insert (frame e) (range_frames (mem s) pgdir (a + pg) oldsz)"
          using rng e True less.prems(2) unfolding range_frames_def by (auto; metis option.inject)
        ultimately have fr: "set (qs @ [frame e]) = range_frames (mem s) pgdir a oldsz" using x(4) by simp
        have "shrunk pgdir a oldsz s x"
          unfolding shrunk_def
        proof (intro conjI allI impI)
          fix va assume va: "aligned va"
          show "pt_get (mem x) pgdir va = (if a \<le> va \<and> va < oldsz then None else pt_get (mem s) pgdir va)"
            using x(3) uw va rng [OF va] True na unfolding shrunk_def by auto
        next
          fix va y assume va: "user_va va" "\<not> (a \<le> va \<and> va < oldsz)" "pt_get (mem s) pgdir va = Some y"
          have ne: "va \<noteq> a" and av: "aligned va" using va True by (auto simp: user_va_def)
          have "pt_get (mem w) pgdir va = Some y" using uw ne av va(3) by auto
          then have "same_page (mem w) (mem x) (frame y)"
            using x(3) va(1,2) rng [OF av] ne unfolding shrunk_def by blast
          then show "same_page (mem s) (mem x) (frame y)" using uw va ne same_page_trans by blast
        qed (use x(3) uw in \<open>auto simp: shrunk_def\<close>)
        then show ?thesis using step x(1,2) fr by (intro exI [of _ x] exI [of _ "qs @ [frame e]"]) simp
      qed
    qed
  qed
qed

section \<open>Properties\<close>

lemma PGROUNDUP_aligned:
  assumes "newsz \<le> KERNBASE"
  shows "aligned (PGROUNDUP newsz)" and "unat newsz \<le> unat (PGROUNDUP newsz)"
proof -
  have "unat newsz \<le> 0x80000000" using assms by (simp add: word_le_nat_alt KERNBASE_def)
  then have "unat (PGROUNDUP newsz) = (unat newsz + (PGSIZE - 1)) div PGSIZE * PGSIZE"
    by (intro unat_PGROUNDUP) (simp add: PGSIZE_def)
  then show "aligned (PGROUNDUP newsz)" "unat newsz \<le> unat (PGROUNDUP newsz)"
    by (simp_all add: aligned_def PGSIZE_def)
qed

lemma allocuvm_spec:
  assumes "uvm_wf s pgdir ps" and "oldsz \<le> newsz" and "newsz < KERNBASE"
    and "unat newsz \<le> unat (PGROUNDUP oldsz) + n * PGSIZE" and "2 * n \<le> length ps"
    and "\<forall>va. aligned va \<longrightarrow> PGROUNDUP oldsz \<le> va \<longrightarrow> va < newsz \<longrightarrow> pt_get (mem s) pgdir va = None"
  shows "\<exists>t qs. allocuvm pgdir oldsz newsz s = Ok (newsz, t) \<and> uvm_wf t pgdir qs \<and>
     grown pgdir (PGROUNDUP oldsz) newsz s t"
proof -
  have "aligned (PGROUNDUP oldsz)" using PGROUNDUP_aligned assms(2,3) by auto
  from allocuvm_loop_spec [OF assms(1) this less_imp_le [OF assms(3)] assms(4-6), of oldsz]
  obtain t qs where "allocuvm_loop pgdir (PGROUNDUP oldsz) oldsz newsz s = Some (Ok (newsz, t))"
    "uvm_wf t pgdir qs" "grown pgdir (PGROUNDUP oldsz) newsz s t" by blast
  then show ?thesis using assms(2,3) by (auto simp: allocuvm_def)
qed

lemma deallocuvm_spec:
  assumes "uvm_wf s pgdir ps" and "newsz < oldsz" and "oldsz \<le> KERNBASE" and "KERNBASE < kend s"
  shows "\<exists>t qs. deallocuvm pgdir oldsz newsz s = Ok (newsz, t) \<and> uvm_wf t pgdir (qs @ ps) \<and>
     shrunk pgdir (PGROUNDUP newsz) oldsz s t \<and> set qs = range_frames (mem s) pgdir (PGROUNDUP newsz) oldsz"
proof -
  have "aligned (PGROUNDUP newsz)" using PGROUNDUP_aligned assms(2,3) by auto
  from deallocuvm_loop_spec [OF assms(1) this assms(3,4)] show ?thesis
    using assms(2) by (auto simp: deallocuvm_def)
qed

text \<open>A machine with an empty page directory at \<^verbatim>\<open>0x80300000\<close> and two free pages.\<close>

definition uvm_ex :: kmem_st where
  "uvm_ex = kmem_ex\<lparr>mem := set_ent (\<lambda>_. 0) 0x80400000 0 0x80401000\<rparr>"

lemma page_literals: "aligned 0x80300000" "aligned 0x80400000" "aligned 0x80401000"
  by (simp_all add: aligned_def PGSIZE_def)

lemma ent_zero [simp]: "ent (\<lambda>_. 0) p i = 0"
  by (simp add: ent_def load32_def)

lemma uvm_ex_ent:
  "aligned q \<Longrightarrow> i < 1024 \<Longrightarrow> ent (mem uvm_ex) q i = (if q = 0x80400000 \<and> i = 0 then 0x80401000 else 0)"
  using ent_set_ent [of "0x80400000" q 0 i "\<lambda>_. 0" "0x80401000"] page_literals by (simp add: uvm_ex_def)

lemma uvm_ex_pt: "i < 1024 \<Longrightarrow> pd_table (mem uvm_ex) 0x80300000 i = None"
  using uvm_ex_ent [OF page_literals(1)] by (simp add: pd_table_def)

lemma uvm_ex_get: "pt_get (mem uvm_ex) 0x80300000 va = None"
  using uvm_ex_pt [OF pdx_bound] by (simp add: pt_get_def)

lemma uvm_ex_wf: "uvm_wf uvm_ex 0x80300000 [0x80400000, 0x80401000]"
proof -
  have "load32 (mem uvm_ex) 0x80400000 = 0x80401000" "load32 (mem uvm_ex) 0x80401000 = 0"
    using uvm_ex_ent [OF page_literals(2), of 0] uvm_ex_ent [OF page_literals(3), of 0]
    by (simp_all add: ent_def)
  moreover have "page_ok uvm_ex 0x80300000" "page_ok uvm_ex 0x80400000" "page_ok uvm_ex 0x80401000"
    by (simp_all add: page_ok_def uvm_ex_def PGSIZE_def V2P_def PHYSTOP_def KERNBASE_def
        word_le_nat_alt word_less_nat_alt)
  ultimately show ?thesis
    using quiet_ready [OF kmem_ex_quiet] uvm_ex_pt uvm_ex_get
    by (simp add: uvm_wf_def free_pages_def pt_wf_def kmem_ready_def NPDENTRIES_def) (simp add: uvm_ex_def)
qed

text \<open>C6: \<^verbatim>\<open>allocuvm\<close> with enough free pages succeeds and returns the new size.  Every page between
  the rounded old size and the new size is then mapped, user-accessible and writable, to a
  frame of its own that holds zeros; every other translation and the contents of all frames
  mapped before are unchanged, and the ownership invariant holds again.\<close>

theorem allocuvm_grows:
  assumes "uvm_wf s pgdir ps" and "oldsz \<le> newsz" and "newsz < KERNBASE"
    and "unat newsz \<le> unat (PGROUNDUP oldsz) + n * PGSIZE" and "2 * n \<le> length ps"
    and "\<forall>va. aligned va \<longrightarrow> PGROUNDUP oldsz \<le> va \<longrightarrow> va < newsz \<longrightarrow> pt_get (mem s) pgdir va = None"
  shows "\<exists>t qs. allocuvm pgdir oldsz newsz s = Ok (newsz, t) \<and> uvm_wf t pgdir qs \<and>
     grown pgdir (PGROUNDUP oldsz) newsz s t"
  by (rule allocuvm_spec [OF assms])

theorem allocuvm_grows_witness:
  "\<exists>t qs. allocuvm 0x80300000 0 4096 uvm_ex = Ok (4096, t) \<and> uvm_wf t 0x80300000 qs \<and>
     grown 0x80300000 0 4096 uvm_ex t"
  using allocuvm_grows [OF uvm_ex_wf, of 0 4096 1] uvm_ex_get
  by (simp add: KERNBASE_def PGROUNDUP_def PGSIZE_def)

text \<open>C26: \<^verbatim>\<open>deallocuvm\<close> removes exactly the translations between the rounded new size and the old
  size and gives exactly their frames back to the allocator, each once; every other
  translation and the contents of the remaining frames are unchanged.  It returns for every
  page directory, also where page tables are missing.\<close>

theorem deallocuvm_frees:
  assumes "uvm_wf s pgdir ps" and "newsz < oldsz" and "oldsz \<le> KERNBASE" and "KERNBASE < kend s"
  shows "\<exists>t qs. deallocuvm pgdir oldsz newsz s = Ok (newsz, t) \<and> uvm_wf t pgdir (qs @ ps) \<and>
     shrunk pgdir (PGROUNDUP newsz) oldsz s t \<and> set qs = range_frames (mem s) pgdir (PGROUNDUP newsz) oldsz"
  by (rule deallocuvm_spec [OF assms])

theorem deallocuvm_frees_witness:
  "\<exists>t qs. deallocuvm 0x80300000 0x80000000 0 uvm_ex = Ok (0, t) \<and>
     uvm_wf t 0x80300000 (qs @ [0x80400000, 0x80401000])"
proof -
  have "KERNBASE < kend uvm_ex" "(0x80000000 :: 32 word) \<le> KERNBASE" "(0 :: 32 word) < 0x80000000"
    by (simp_all add: uvm_ex_def KERNBASE_def word_less_nat_alt)
  then show ?thesis using deallocuvm_frees [OF uvm_ex_wf, of 0 "0x80000000"] by blast
qed

text \<open>C27: Growing an address space and shrinking it again restores every translation.\<close>

theorem alloc_dealloc_roundtrip:
  assumes "uvm_wf s pgdir ps" and "oldsz < newsz" and "newsz < KERNBASE" and "KERNBASE < kend s"
    and "unat newsz \<le> unat (PGROUNDUP oldsz) + n * PGSIZE" and "2 * n \<le> length ps"
    and "\<forall>va. aligned va \<longrightarrow> PGROUNDUP oldsz \<le> va \<longrightarrow> va < newsz \<longrightarrow> pt_get (mem s) pgdir va = None"
  shows "\<exists>t u qs. allocuvm pgdir oldsz newsz s = Ok (newsz, t) \<and>
     deallocuvm pgdir newsz oldsz t = Ok (oldsz, u) \<and> uvm_wf u pgdir qs \<and>
     (\<forall>va. aligned va \<longrightarrow> pt_get (mem u) pgdir va = pt_get (mem s) pgdir va)"
proof -
  obtain t qs where t: "allocuvm pgdir oldsz newsz s = Ok (newsz, t)" "uvm_wf t pgdir qs"
    "grown pgdir (PGROUNDUP oldsz) newsz s t"
    using allocuvm_spec [OF assms(1) less_imp_le [OF assms(2)] assms(3,5-7)] by blast
  have "KERNBASE < kend t" using t(3) assms(4) by (simp add: grown_def)
  then obtain u rs where u: "deallocuvm pgdir newsz oldsz t = Ok (oldsz, u)" "uvm_wf u pgdir (rs @ qs)"
    "shrunk pgdir (PGROUNDUP oldsz) newsz t u"
    using deallocuvm_spec [OF t(2) assms(2) less_imp_le [OF assms(3)]] by blast
  have "pt_get (mem u) pgdir va = pt_get (mem s) pgdir va" if "aligned va" for va
    using t(3) u(3) assms(7) that unfolding grown_def shrunk_def by auto
  with t(1) u(1,2) show ?thesis by blast
qed

theorem alloc_dealloc_roundtrip_witness:
  "\<exists>t u. allocuvm 0x80300000 0 4096 uvm_ex = Ok (4096, t) \<and> deallocuvm 0x80300000 4096 0 t = Ok (0, u)"
proof -
  have "KERNBASE < kend uvm_ex" by (simp add: uvm_ex_def KERNBASE_def word_less_nat_alt)
  then show ?thesis
    using alloc_dealloc_roundtrip [OF uvm_ex_wf, of 0 4096 1] uvm_ex_get
    by (auto simp: KERNBASE_def PGROUNDUP_def PGSIZE_def)
qed

end
