(* ===== verification/Proc.thy ===== *)
theory Proc
  imports Cprintf Vm_Space
begin

unbundle bit_operations_syntax

text \<open>
  Processes: allocation, giving up the processor, sleeping and waking, killing, waiting and the
  listings of \<^verbatim>\<open>proc.c\<close>.  (\<^verbatim>\<open>scheduler\<close> is in the theory \<open>Scheduler\<close>; \<^verbatim>\<open>userinit\<close>, \<^verbatim>\<open>fork\<close> and \<^verbatim>\<open>exit\<close> use the file
  system and come after it.)

  \<^verbatim>\<open>swtch\<close> leaves the kernel thread and returns when the scheduler resumes it; in between every
  other thread may run.  It is the parameter \<open>sw\<close> of the functions that give up the processor: the
  state at the call is mapped to the state in which the thread is resumed.
  \<^verbatim>\<open>trapret\<close> and \<^verbatim>\<open>forkret\<close> are addresses of code, fields that no operation writes.
\<close>

section \<open>State and layout\<close>

record sched_st = con_st +
  trapret_at :: addr
  forkret_at :: addr

text \<open>Sizes and offsets of \<^verbatim>\<open>struct trapframe\<close> (\<^verbatim>\<open>x86.h\<close>) and \<^verbatim>\<open>struct context\<close> (\<^verbatim>\<open>proc.h\<close>).\<close>

definition TF_SIZE :: nat where "TF_SIZE = 76"
definition CONTEXT_SIZE :: nat where "CONTEXT_SIZE = 20"
definition tf_eax :: "addr \<Rightarrow> addr" where "tf_eax tf = tf + 28"
definition tf_es :: "addr \<Rightarrow> addr" where "tf_es tf = tf + 40"
definition tf_ds :: "addr \<Rightarrow> addr" where "tf_ds tf = tf + 44"
definition tf_trapno :: "addr \<Rightarrow> addr" where "tf_trapno tf = tf + 48"
definition tf_err :: "addr \<Rightarrow> addr" where "tf_err tf = tf + 52"
definition tf_eip :: "addr \<Rightarrow> addr" where "tf_eip tf = tf + 56"
definition tf_cs :: "addr \<Rightarrow> addr" where "tf_cs tf = tf + 60"
definition tf_eflags :: "addr \<Rightarrow> addr" where "tf_eflags tf = tf + 64"
definition tf_esp :: "addr \<Rightarrow> addr" where "tf_esp tf = tf + 68"
definition tf_ss :: "addr \<Rightarrow> addr" where "tf_ss tf = tf + 72"
definition context_ebp :: "addr \<Rightarrow> addr" where "context_ebp c = c + 12"
definition context_eip :: "addr \<Rightarrow> addr" where "context_eip c = c + 16"

definition set_cpu_proc :: "nat \<Rightarrow> nat option \<Rightarrow> 'z kcore_scheme \<Rightarrow> 'z kcore_scheme" where
  "set_cpu_proc c p s = s\<lparr>cpus := (cpus s)[c := (cpus s ! c)\<lparr>cpu_proc := p\<rparr>]\<rparr>"

definition myproc :: "'z kcore_scheme \<Rightarrow> (nat option \<times> 'z kcore_scheme) kres" where
  "myproc s =
     kbind (pushcli s) (\<lambda>s1. kbind (mycpu s1) (\<lambda>c. kbind (popcli s1) (\<lambda>s2.
     Ok (cpu_proc (cpus s1 ! c), s2))))"

section \<open>Allocating a process\<close>

definition pinit :: "'z proc_st_scheme \<Rightarrow> 'z proc_st_scheme" where
  "pinit s = initlock PtableLock ''ptable'' s"

definition allocproc :: "'z sched_st_scheme \<Rightarrow> (nat option \<times> 'z sched_st_scheme) kres" where
  "allocproc s =
     kbind (acquire PtableLock s) (\<lambda>s1.
     case find (\<lambda>p. pstate s1 p = UNUSED) [0..<NPROC] of
       None \<Rightarrow> kbind (release PtableLock s1) (\<lambda>s2. Ok (None, s2))
     | Some p \<Rightarrow>
       kbind (if p_pid (procs s1 ! p) > 0
              then kbind (deleteQueue Q0 p s1) (\<lambda>s2. kbind (deleteQueue Q0 p s2) (deleteQueue Q0 p))
              else Ok s1) (\<lambda>s2.
       let s3 = upd_proc p (\<lambda>x. x\<lparr>p_state := EMBRYO, p_pid := nextpid s2, p_priority := 0\<rparr>)
                  (s2\<lparr>nextpid := nextpid s2 + 1\<rparr>)
       in kbind (addQueue Q0 p s3) (\<lambda>s4.
          let s5 = upd_proc p (\<lambda>x. x\<lparr>p_num_stat_used := 0\<rparr>) s4 in
          kbind (release PtableLock s5) (\<lambda>s6.
          kbind (kalloc s6) (\<lambda>(kstack, s7).
          let s8 = upd_proc p (\<lambda>x. x\<lparr>p_kstack := kstack\<rparr>) s7 in
          if kstack = 0 then Ok (None, upd_proc p (\<lambda>x. x\<lparr>p_state := UNUSED\<rparr>) s8)
          else
            let sp0 = kstack + of_nat KSTACKSIZE;
                tf = sp0 - of_nat TF_SIZE;
                sp1 = tf - 4;
                ctx = sp1 - of_nat CONTEXT_SIZE;
                m1 = store32 (mem s8) sp1 (trapret_at s8);
                m2 = memset m1 ctx 0 (of_nat CONTEXT_SIZE);
                m3 = store32 m2 (context_eip ctx) (forkret_at s8)
            in Ok (Some p, upd_proc p (\<lambda>x. x\<lparr>p_tf := tf, p_context := ctx\<rparr>) (s8\<lparr>mem := m3\<rparr>)))))))"

section \<open>Giving up the processor\<close>

definition sched ::
  "('z sched_st_scheme \<Rightarrow> 'z sched_st_scheme kres) \<Rightarrow> 'z sched_st_scheme \<Rightarrow> 'z sched_st_scheme kres" where
  "sched sw s =
     kbind (myproc s) (\<lambda>(p, s1).
     kbind (holding PtableLock s1) (\<lambda>(h, s2).
     kbind (panic_if (\<not> h) ''sched ptable.lock'') (\<lambda>_.
     kbind (mycpu s2) (\<lambda>c.
     kbind (panic_if (ncli (cpus s2 ! c) \<noteq> 1) ''sched locks'') (\<lambda>_.
     kbind (deref p) (\<lambda>p.
     kbind (panic_if (pstate s2 p = RUNNING) ''sched running'') (\<lambda>_.
     kbind (panic_if (iflag s2 (me s2)) ''sched interruptible'') (\<lambda>_.
     let ie = intena (cpus s2 ! c) in
     kbind (sw s2) (\<lambda>s3.
     kbind (mycpu s3) (\<lambda>c'.
     Ok (s3\<lparr>cpus := (cpus s3)[c' := (cpus s3 ! c')\<lparr>intena := ie\<rparr>]\<rparr>)))))))))))"

definition yield ::
  "('z sched_st_scheme \<Rightarrow> 'z sched_st_scheme kres) \<Rightarrow> 'z sched_st_scheme \<Rightarrow> 'z sched_st_scheme kres" where
  "yield sw s =
     kbind (acquire PtableLock s) (\<lambda>s1.
     kbind (myproc s1) (\<lambda>(p, s2).
     kbind (deref p) (\<lambda>p.
     kbind (sched sw (upd_proc p (\<lambda>x. x\<lparr>p_state := RUNNABLE\<rparr>) s2)) (release PtableLock))))"

definition sleep ::
  "('z sched_st_scheme \<Rightarrow> 'z sched_st_scheme kres) \<Rightarrow> chan \<Rightarrow> lockid option \<Rightarrow> 'z sched_st_scheme \<Rightarrow>
     'z sched_st_scheme kres" where
  "sleep sw ch lk s =
     kbind (myproc s) (\<lambda>(p, s1).
     case p of None \<Rightarrow> Panic ''sleep''
     | Some p \<Rightarrow>
       (case lk of None \<Rightarrow> Panic ''sleep without lk''
        | Some l \<Rightarrow>
          kbind (if l \<noteq> PtableLock then kbind (acquire PtableLock s1) (release l) else Ok s1) (\<lambda>s2.
          kbind (sched sw (upd_proc p (\<lambda>x. x\<lparr>p_chan := Some ch, p_state := SLEEPING\<rparr>) s2)) (\<lambda>s3.
          let s4 = upd_proc p (\<lambda>x. x\<lparr>p_chan := None\<rparr>) s3 in
          if l \<noteq> PtableLock then kbind (release PtableLock s4) (acquire l) else Ok s4))))"

section \<open>Waking and killing\<close>

definition wakeup1 :: "chan \<Rightarrow> 'z proc_st_scheme \<Rightarrow> 'z proc_st_scheme kres" where
  "wakeup1 ch s =
     foldk (\<lambda>p s.
       if pstate s p = SLEEPING \<and> p_chan (procs s ! p) = Some ch
       then Ok (upd_proc p (\<lambda>x. x\<lparr>p_state := RUNNABLE\<rparr>) s) else Ok s) [0..<NPROC] s"

definition wakeup :: "chan \<Rightarrow> 'z proc_st_scheme \<Rightarrow> 'z proc_st_scheme kres" where
  "wakeup ch s =
     kbind (acquire PtableLock s) (\<lambda>s1. kbind (wakeup1 ch s1) (release PtableLock))"

definition kill :: "int \<Rightarrow> 'z proc_st_scheme \<Rightarrow> (int \<times> 'z proc_st_scheme) kres" where
  "kill pid s =
     kbind (acquire PtableLock s) (\<lambda>s1.
     case find (\<lambda>p. p_pid (procs s1 ! p) = pid) [0..<NPROC] of
       Some p \<Rightarrow>
         let s2 = upd_proc p (\<lambda>x. x\<lparr>p_killed := True\<rparr>) s1;
             s3 = (if pstate s2 p = SLEEPING then upd_proc p (\<lambda>x. x\<lparr>p_state := RUNNABLE\<rparr>) s2 else s2)
         in kbind (release PtableLock s3) (\<lambda>s4. Ok (0, s4))
     | None \<Rightarrow> kbind (release PtableLock s1) (\<lambda>s2. Ok (-1, s2)))"

section \<open>Waiting for children\<close>

definition reap :: "nat \<Rightarrow> 'z proc_st_scheme \<Rightarrow> (int \<times> 'z proc_st_scheme) kres" where
  "reap p s =
     (let pid = p_pid (procs s ! p) in
      kbind (kfree (p_kstack (procs s ! p)) s) (\<lambda>s1.
      let s2 = upd_proc p (\<lambda>x. x\<lparr>p_kstack := 0\<rparr>) s1 in
      kbind (freevm (p_pgdir (procs s2 ! p)) s2) (\<lambda>s3.
      Ok (pid, upd_proc p (\<lambda>x. x\<lparr>p_pid := 0, p_parent := None, p_name := (p_name x)[0 := 0],
                                 p_killed := False, p_state := UNUSED\<rparr>) s3))))"

partial_function (option) wait_loop ::
  "('z sched_st_scheme \<Rightarrow> 'z sched_st_scheme kres) \<Rightarrow> nat \<Rightarrow> 'z sched_st_scheme \<Rightarrow>
     (int \<times> 'z sched_st_scheme) kres option"
where
  "wait_loop sw cur s =
     (case find (\<lambda>p. p_parent (procs s ! p) = Some cur \<and> pstate s p = ZOMBIE) [0..<NPROC] of
        Some p \<Rightarrow>
          kobind (reap p s) (\<lambda>(pid, s1).
          kobind (release PtableLock s1) (\<lambda>s2. Some (Ok (pid, s2))))
      | None \<Rightarrow>
          if find (\<lambda>p. p_parent (procs s ! p) = Some cur) [0..<NPROC] = None \<or> p_killed (procs s ! cur)
          then kobind (release PtableLock s) (\<lambda>s1. Some (Ok (-1, s1)))
          else kobind (sleep sw (ChProc cur) (Some PtableLock) s) (\<lambda>s1. wait_loop sw cur s1))"

definition wait ::
  "('z sched_st_scheme \<Rightarrow> 'z sched_st_scheme kres) \<Rightarrow> 'z sched_st_scheme \<Rightarrow>
     (int \<times> 'z sched_st_scheme) kres" where
  "wait sw s =
     kbind (myproc s) (\<lambda>(p, s1). kbind (deref p) (\<lambda>cur.
     kbind (acquire PtableLock s1) (\<lambda>s2. krun (wait_loop sw cur s2))))"

definition growproc :: "int \<Rightarrow> 'z vm_st_scheme \<Rightarrow> (int \<times> 'z vm_st_scheme) kres" where
  "growproc n s =
     kbind (myproc s) (\<lambda>(p, s1). kbind (deref p) (\<lambda>p.
     let sz = p_sz (procs s1 ! p); pgdir = p_pgdir (procs s1 ! p) in
     kbind (if n > 0 then allocuvm pgdir sz (sz + word_of_int n) s1
            else if n < 0 then deallocuvm pgdir sz (sz + word_of_int n) s1
            else Ok (sz, s1)) (\<lambda>(sz1, s2).
     if n \<noteq> 0 \<and> sz1 = 0 then Ok (-1, s2)
     else kbind (switchuvm (Some p) (upd_proc p (\<lambda>x. x\<lparr>p_sz := sz1\<rparr>) s2)) (\<lambda>s3. Ok (0, s3)))))"

section \<open>Listings\<close>

text \<open>The characters of a NUL-terminated byte array.\<close>

definition cstr :: "byte list \<Rightarrow> string" where
  "cstr bs = map (\<lambda>b. char_of (unat b)) (takeWhile (\<lambda>b. b \<noteq> 0) bs)"

definition nl :: string where "nl = [CHR 0x0A]"

definition pint :: "int \<Rightarrow> parg" where "pint x = PInt (word_of_int x)"

primrec state_name :: "procstate \<Rightarrow> string" where
  "state_name UNUSED = ''unused''"
| "state_name EMBRYO = ''embryo''"
| "state_name SLEEPING = ''sleep ''"
| "state_name RUNNABLE = ''runble''"
| "state_name RUNNING = ''run   ''"
| "state_name ZOMBIE = ''zombie''"

fun getcallerpcs_loop :: "memory \<Rightarrow> addr \<Rightarrow> nat \<Rightarrow> 32 word list" where
  "getcallerpcs_loop m ebp 0 = []"
| "getcallerpcs_loop m ebp (Suc n) =
     (if ebp = 0 \<or> ebp < KERNBASE \<or> ebp = 0xffffffff then replicate (Suc n) 0
      else load32 m (ebp + 4) # getcallerpcs_loop m (load32 m ebp) n)"

definition getcallerpcs :: "addr \<Rightarrow> memory \<Rightarrow> 32 word list" where
  "getcallerpcs v m = getcallerpcs_loop m (v - 8) 10"

definition procdump :: "'z con_st_scheme \<Rightarrow> 'z con_st_scheme kres" where
  "procdump s =
     foldk (\<lambda>p s.
       let x = procs s ! p in
       if p_state x = UNUSED then Ok s
       else kbind (cprintf ''%d %s %s''
                    [pint (p_pid x), PStr (Some (state_name (p_state x))), PStr (Some (cstr (p_name x)))] s) (\<lambda>s1.
         kbind (if p_state x = SLEEPING
                then let pc = getcallerpcs (load32 (mem s1) (context_ebp (p_context x)) + 8) (mem s1) in
                  foldk (\<lambda>w. cprintf '' %p'' [PInt w]) (takeWhile (\<lambda>w. w \<noteq> 0) pc) s1
                else Ok s1)
           (cprintf nl []))) [0..<NPROC] s"

definition print_pstat_info :: "nat \<Rightarrow> 'z con_st_scheme \<Rightarrow> 'z con_st_scheme kres" where
  "print_pstat_info p s =
     (let x = procs s ! p in
      kbind (cprintf (''************************'' @ nl) [] s) (\<lambda>s.
      kbind (cprintf ''PID: %d, '' [pint (p_pid x)] s) (\<lambda>s.
      kbind (cprintf (''Name: %s'' @ nl) [PStr (Some (cstr (p_name x)))] s) (\<lambda>s.
      kbind (cprintf (''   scheduled in q0: %d times'' @ nl) [pint (p_times x ! 0)] s) (\<lambda>s.
      kbind (cprintf (''   scheduled in q1: %d times'' @ nl) [pint (p_times x ! 1)] s) (\<lambda>s.
      kbind (cprintf (''   scheduled in q2: %d times'' @ nl) [pint (p_times x ! 2)] s) (\<lambda>s.
      kbind (foldk (\<lambda>i s.
          kbind (aread (p_stats x) (p_num_stat_used x)) (\<lambda>st.
          cprintf (''start = %d, duration = %d, priority = %d'' @ nl)
            [PInt (start_tick st), PInt (duration st), pint (st_priority st)] s))
          [0..<nat (p_num_stat_used x)] s) (\<lambda>s.
      cprintf (''************************'' @ nl) [] s))))))))"

definition getpinfo :: "int \<Rightarrow> 'z con_st_scheme \<Rightarrow> (int \<times> 'z con_st_scheme) kres" where
  "getpinfo pid s =
     kbind (acquire PtableLock s) (\<lambda>s1.
     case find (\<lambda>p. p_pid (procs s1 ! p) = pid) [0..<NPROC] of
       Some p \<Rightarrow>
         let x = procs s1 ! p in
         kbind (cprintf (''*****************'' @ nl @ ''name = %s, pid = %d'' @ nl @ ''times: {%d, %d, %d}'' @ nl @
              ''ticks: {%d, %d, %d}'' @ nl @ ''*******************'' @ nl)
            [PStr (Some (cstr (p_name x))), pint (p_pid x),
             pint (p_times x ! 0), pint (p_times x ! 1), pint (p_times x ! 2),
             pint (p_ticks x ! 0), pint (p_ticks x ! 1), pint (p_ticks x ! 2)] s1) (\<lambda>s2.
         kbind (foldk (\<lambda>i s.
             kbind (aread (p_stats x) (int i)) (\<lambda>st.
             cprintf (''start = %d, duration = %d, priority = %d'' @ nl)
               [PInt (start_tick st), PInt (duration st), pint (st_priority st)] s))
             [0..<nat (p_num_stat_used x)] s2) (\<lambda>s3.
         kbind (release PtableLock s3) (\<lambda>s4. Ok (0, s4))))
     | None \<Rightarrow> kbind (release PtableLock s1) (\<lambda>s2. Ok (0, s2)))"

section \<open>Frames\<close>

lemma proc_acq_rel [simp]:
  "procs (acq l s) = procs s" "procs (rel l s) = procs s" "getq qi (acq l s) = getq qi s"
  "getq qi (rel l s) = getq qi s" "nextpid (acq l s) = nextpid s" "nextpid (rel l s) = nextpid s"
  "TOTAL (acq l s) = TOTAL s" "TOTAL (rel l s) = TOTAL s" "ticks (acq l s) = ticks s" "ticks (rel l s) = ticks s"
  by (cases qi; simp add: acq_def rel_def push_def pop_def Let_def)+

lemma level_acq_rel [simp]: "level (acq l s) = level s" "level (rel l s) = level s"
  by (simp_all add: level_def fun_eq_iff)

lemma mlfq_wf_acq_rel [simp]: "mlfq_wf (acq l s) = mlfq_wf s" "mlfq_wf (rel l s) = mlfq_wf s"
  by (simp_all add: mlfq_wf_def)

lemma same_core_procs [simp]:
  "same_core (s\<lparr>procs := x\<rparr>) t = same_core s t" "same_core (upd_proc p f s) t = same_core s t"
  "same_core (s\<lparr>nextpid := n\<rparr>) t = same_core s t"
  by (simp_all add: same_core_def upd_proc_def)

lemma proc_lock_frame [simp]:
  "lock_ready l (s\<lparr>procs := x\<rparr>) = lock_ready l s" "lock_held l (s\<lparr>procs := x\<rparr>) = lock_held l s"
  "quiet (s\<lparr>procs := x\<rparr>) = quiet s" "cpu_ready (s\<lparr>procs := x\<rparr>) = cpu_ready s"
  "depth (s\<lparr>procs := x\<rparr>) = depth s" "my_index (s\<lparr>procs := x\<rparr>) = my_index s"
  "lock_ready l (upd_proc p f s) = lock_ready l s" "lock_held l (upd_proc p f s) = lock_held l s"
  "quiet (upd_proc p f s) = quiet s" "cpu_ready (upd_proc p f s) = cpu_ready s"
  "depth (upd_proc p f s) = depth s" "my_index (upd_proc p f s) = my_index s"
  by (rule same_coreD; simp)+

lemma upd_proc_core [simp]: "cpus (upd_proc p f s) = cpus s" "iflag (upd_proc p f s) = iflag s"
  "me (upd_proc p f s) = me s" "locks (upd_proc p f s) = locks s" "mem (upd_proc p f s) = mem s"
  "ncpu (upd_proc p f s) = ncpu s" "freelist (upd_proc p f s) = freelist s" "use_lock (upd_proc p f s) = use_lock s"
  "kend (upd_proc p f s) = kend s" "nextpid (upd_proc p f s) = nextpid s" "TOTAL (upd_proc p f s) = TOTAL s"
  "ticks (upd_proc p f s) = ticks s"
  by (simp_all add: upd_proc_def)

text \<open>The process running on this processor.\<close>

definition cur_proc :: "'z kcore_scheme \<Rightarrow> nat option" where
  "cur_proc s = cpu_proc (cpus s ! my_index s)"

lemma cur_proc_push: "cpu_ready s \<Longrightarrow> cur_proc (push s) = cur_proc s"
  using cpu_ready_bound [of s] push_props(2) [of s] by (simp add: cur_proc_def push_def Let_def)

lemma cur_proc_acq: "lock_ready l s \<Longrightarrow> cur_proc (acq l s) = cur_proc s"
  using cur_proc_push [of s] acq_props(2) [of l s] push_props(2) [of s]
  by (simp add: cur_proc_def lock_ready_def) (simp add: acq_def)

lemma cur_proc_rel:
  assumes "lock_held l s"
  shows "cur_proc (rel l s) = cur_proc s"
proof -
  let ?b = "s\<lparr>locks := (locks s)(l := (locks s l)\<lparr>lk_cpu := None, lk_locked := False\<rparr>)\<rparr>"
  have i: "my_index ?b = my_index s" by (simp add: my_index_def)
  have "cpu_ready s" using assms by (simp add: lock_held_def)
  then show ?thesis
    using rel_props(2) [OF assms] cpu_ready_bound [of s]
    by (simp add: cur_proc_def rel_def) (simp add: pop_def i Let_def)
qed

lemma myproc_ok: "cpu_ready s \<Longrightarrow> myproc s = Ok (cur_proc s, pop (push s))"
  using push_props [of s] cur_proc_push [of s]
  by (simp add: myproc_def pushcli_ok mycpu_ok popcli_ok cpu_ready_def cur_proc_def)

lemma myproc_nested: "cpu_ready s \<Longrightarrow> 0 < depth s \<Longrightarrow> myproc s = Ok (cur_proc s, s)"
  by (simp add: myproc_ok pop_push)

lemma cur_proc_upd [simp]: "cur_proc (upd_proc p f s) = cur_proc s" "cur_proc (s\<lparr>procs := x\<rparr>) = cur_proc s"
  by (simp_all add: cur_proc_def)

section \<open>Waking and killing\<close>

definition wake :: "chan \<Rightarrow> proc \<Rightarrow> proc" where
  "wake ch x = (if p_state x = SLEEPING \<and> p_chan x = Some ch then x\<lparr>p_state := RUNNABLE\<rparr> else x)"

lemma wakeup1_ok:
  assumes "length (procs s) = NPROC"
  shows "wakeup1 ch s = Ok (s\<lparr>procs := map (wake ch) (procs s)\<rparr>)"
  unfolding wakeup1_def
proof (rule foldk_procs_all [OF assms])
  fix i and ps :: "proc list"
  assume i: "i < NPROC" "ps ! i = procs s ! i" "length ps = NPROC"
  then have "ps[i := procs s ! i] = ps" by (metis list_update_id)
  then show "(if pstate (s\<lparr>procs := ps\<rparr>) i = SLEEPING \<and> p_chan (procs (s\<lparr>procs := ps\<rparr>) ! i) = Some ch
       then Ok (upd_proc i (\<lambda>x. x\<lparr>p_state := RUNNABLE\<rparr>) (s\<lparr>procs := ps\<rparr>)) else Ok (s\<lparr>procs := ps\<rparr>)) =
      Ok (s\<lparr>procs := ps[i := wake ch (ps ! i)]\<rparr>)"
    using i(2) by (simp add: pstate_def wake_def upd_proc_def)
qed

lemma wakeup_ok:
  assumes "lock_ready PtableLock s" and "length (procs s) = NPROC"
  shows "wakeup ch s = Ok (rel PtableLock ((acq PtableLock s)\<lparr>procs := map (wake ch) (procs s)\<rparr>))"
proof -
  have "lock_held PtableLock ((acq PtableLock s)\<lparr>procs := map (wake ch) (procs s)\<rparr>)"
    using acq_props(5) [OF assms(1)] by simp
  then show ?thesis
    using assms by (simp add: wakeup_def acquire_ok wakeup1_ok release_ok)
qed

lemma quiet_wakeup:
  assumes "quiet s" and "length (procs s) = NPROC"
  shows "\<exists>t. wakeup ch s = Ok t \<and> quiet t \<and> procs t = map (wake ch) (procs s)"
  using wakeup_ok [OF quiet_ready [OF assms(1)] assms(2), of ch]
    quiet_section [OF assms(1), of "(acq PtableLock s)\<lparr>procs := map (wake ch) (procs s)\<rparr>" PtableLock]
  by simp

definition kill_one :: "proc \<Rightarrow> proc" where
  "kill_one x = x\<lparr>p_killed := True, p_state := if p_state x = SLEEPING then RUNNABLE else p_state x\<rparr>"

lemma kill_ok:
  assumes "quiet s" and "length (procs s) = NPROC"
  shows "\<exists>t. quiet t \<and>
     (case find (\<lambda>p. p_pid (procs s ! p) = pid) [0..<NPROC] of
        None \<Rightarrow> kill pid s = Ok (-1, t) \<and> procs t = procs s
      | Some p \<Rightarrow> kill pid s = Ok (0, t) \<and> procs t = (procs s)[p := kill_one (procs s ! p)])"
proof -
  have r: "lock_ready PtableLock s" using assms(1) by (rule quiet_ready)
  have h: "lock_held PtableLock (acq PtableLock s)" using acq_props(5) [OF r] .
  show ?thesis
  proof (cases "find (\<lambda>p. p_pid (procs s ! p) = pid) [0..<NPROC]")
    case None
    then show ?thesis
      using r h quiet_section [OF assms(1), of "acq PtableLock s"]
      by (intro exI [of _ "rel PtableLock (acq PtableLock s)"]) (simp add: kill_def acquire_ok release_ok)
  next
    case (Some p)
    then have p: "p < length (procs s)" using assms(2) by (auto simp: find_Some_iff)
    let ?u = "(acq PtableLock s)\<lparr>procs := (procs s)[p := kill_one (procs s ! p)]\<rparr>"
    have "kill pid s = Ok (0, rel PtableLock ?u)"
      using Some r h p by (simp add: kill_def acquire_ok release_ok Let_def pstate_def kill_one_def upd_proc_def)
    moreover have "quiet (rel PtableLock ?u)"
      using quiet_section [OF assms(1), of ?u PtableLock] by simp
    ultimately show ?thesis using Some by (intro exI [of _ "rel PtableLock ?u"]) simp
  qed
qed

section \<open>Giving up the processor\<close>

definition resume :: "bool \<Rightarrow> 'z kcore_scheme \<Rightarrow> 'z kcore_scheme kres" where
  "resume ie = (\<lambda>t. kbind (mycpu t) (\<lambda>c. Ok (t\<lparr>cpus := (cpus t)[c := (cpus t ! c)\<lparr>intena := ie\<rparr>]\<rparr>)))"

text \<open>With only the table lock held and the state of the process changed, none of the tests of
  \<^verbatim>\<open>sched\<close> panics.\<close>

lemma sched_ok:
  assumes "lock_held PtableLock s" and "depth s = 1" and "cur_proc s = Some p" and "pstate s p \<noteq> RUNNING"
  shows "sched sw s = kbind (sw s) (resume (intena (cpus s ! my_index s)))"
proof -
  have r: "cpu_ready s" using assms(1) by (simp add: lock_held_def)
  have f: "\<not> iflag s (me s)" using r assms(2) by (simp add: cpu_ready_def)
  show ?thesis
    using r f assms myproc_nested [OF r] holding_ok [OF r, of PtableLock] mycpu_ok [OF r f]
    by (simp add: sched_def lock_held_def depth_def resume_def Let_def)
qed

lemma acq_intena:
  assumes "lock_ready l s" and "depth s = 0"
  shows "intena (cpus (acq l s) ! my_index s) = iflag s (me s)"
proof -
  have r: "cpu_ready s" using assms(1) by (simp add: lock_ready_def)
  then show ?thesis
    using assms(2) cpu_ready_bound [OF r] by (simp add: acq_def push_def Let_def depth_def)
qed

lemma yield_ok:
  assumes "quiet s" and "cur_proc s = Some p" and "p < length (procs s)"
  defines "u \<equiv> upd_proc p (\<lambda>x. x\<lparr>p_state := RUNNABLE\<rparr>) (acq PtableLock s)"
  shows "yield sw s = kbind (sw u) (\<lambda>t. kbind (resume (iflag s (me s)) t) (release PtableLock))"
    and "lock_held PtableLock u" and "depth u = 1"
proof -
  have r: "lock_ready PtableLock s" using assms(1) by (rule quiet_ready)
  note a = acq_props [OF r]
  have d: "depth s = 0" using assms(1) by (simp add: quiet_def)
  show h: "lock_held PtableLock u" and du: "depth u = 1" using a(3,5) d by (simp_all add: u_def)
  have c: "cur_proc u = Some p" using cur_proc_acq [OF r] assms(2) by (simp add: u_def)
  have "pstate u p \<noteq> RUNNING" using assms(3) by (simp add: u_def pstate_def)
  from sched_ok [OF h du c this, of sw]
  have "sched sw u = kbind (sw u) (resume (iflag s (me s)))"
    using acq_intena [OF r d] a(2) by (simp add: u_def)
  moreover have "myproc (acq PtableLock s) = Ok (Some p, acq PtableLock s)"
    using myproc_nested [OF a(1)] a(3) d cur_proc_acq [OF r] assms(2) by simp
  ultimately show "yield sw s = kbind (sw u) (\<lambda>t. kbind (resume (iflag s (me s)) t) (release PtableLock))"
    using r by (simp add: yield_def acquire_ok u_def)
qed

text \<open>What is left of \<^verbatim>\<open>sleep\<close> when the thread is resumed.\<close>

definition after_sleep :: "nat \<Rightarrow> lockid \<Rightarrow> bool \<Rightarrow> 'z sched_st_scheme \<Rightarrow> 'z sched_st_scheme kres" where
  "after_sleep p l ie = (\<lambda>t. kbind (resume ie t) (\<lambda>t1.
       kbind (release PtableLock (upd_proc p (\<lambda>x. x\<lparr>p_chan := None\<rparr>) t1)) (acquire l)))"

lemma resume_ok:
  assumes "lock_held l t"
  shows "\<exists>u. resume ie t = Ok u \<and> lock_held l u \<and> depth u = depth t \<and> locks u = locks t \<and>
     (\<exists>cs. u = t\<lparr>cpus := cs\<rparr>)"
proof -
  let ?i = "my_index t"
  let ?u = "t\<lparr>cpus := (cpus t)[?i := (cpus t ! ?i)\<lparr>intena := ie\<rparr>]\<rparr>"
  have r: "cpu_ready t" "\<not> iflag t (me t)" using assms by (auto simp: lock_held_def cpu_ready_def)
  have b: "?i < length (cpus t)" by (rule cpu_ready_bound [OF r(1)])
  have idx: "cpu_index ?u = cpu_index t"
    using r(1) by (intro cpu_index_cong) (simp_all add: cpu_ready_def map_update map_update_same)
  then have mi: "my_index ?u = ?i" by (simp add: my_index_def)
  then have d: "depth ?u = depth t" using b by (simp add: depth_def)
  have "lock_held l ?u" using assms idx mi d by (simp add: lock_held_def cpu_ready_def)
  then show ?thesis using d mycpu_ok [OF r] by (intro exI [of _ ?u]) (auto simp: resume_def)
qed

lemma after_sleep_ok:
  assumes "lock_held PtableLock t" and "\<not> lk_locked (locks t l)" and "l \<noteq> PtableLock" and "p < length (procs t)"
  shows "\<exists>u. after_sleep p l ie t = Ok u \<and> lock_held l u \<and> \<not> lk_locked (locks u PtableLock) \<and>
     procs u = (procs t)[p := (procs t ! p)\<lparr>p_chan := None\<rparr>]"
proof -
  obtain v cs where v: "resume ie t = Ok v" "lock_held PtableLock v" "locks v = locks t" "v = t\<lparr>cpus := cs\<rparr>"
    using resume_ok [OF assms(1), of ie] by blast
  let ?w = "upd_proc p (\<lambda>x. x\<lparr>p_chan := None\<rparr>) v"
  have h: "lock_held PtableLock ?w" using v(2) by simp
  have rl: "lock_ready l ?w" using v(2,3) assms(2) by (simp add: lock_ready_def lock_held_def)
  have rr: "lock_ready l (rel PtableLock ?w)" using lock_ready_rel [OF h rl assms(3)] .
  have "after_sleep p l ie t = Ok (acq l (rel PtableLock ?w))"
    using v(1) h rr by (simp add: after_sleep_def release_ok acquire_ok)
  moreover have "lock_held l (acq l (rel PtableLock ?w))" using acq_props(5) [OF rr] .
  moreover have "\<not> lk_locked (locks (acq l (rel PtableLock ?w)) PtableLock)"
    using rel_props(5) [OF h] acq_props(6) [OF rr, of PtableLock] assms(3) by (simp add: lock_ready_def)
  ultimately show ?thesis using v(4) by simp
qed

lemma sleep_ok:
  fixes ch :: chan and s :: "'z sched_st_scheme"
  assumes l: "l \<noteq> PtableLock" and h: "lock_held l s" and d: "depth s = 1"
    and r: "lock_ready PtableLock s" and c: "cur_proc s = Some p" and p: "p < length (procs s)"
  defines "u \<equiv> upd_proc p (\<lambda>x. x\<lparr>p_chan := Some ch, p_state := SLEEPING\<rparr>) (rel l (acq PtableLock s))"
  shows "sleep sw ch (Some l) s = kbind (sw u) (after_sleep p l (intena (cpus u ! my_index u)))"
    and "lock_held PtableLock u" and "depth u = 1" and "\<not> lk_locked (locks u l)"
proof -
  let ?a = "acq PtableLock s"
  note a = acq_props [OF r]
  have hl: "lock_held l ?a" using lock_held_acq [OF r h] l by simp
  have hp: "lock_held PtableLock (rel l ?a)"
    using lock_held_rel [OF hl a(5)] l a(3) d by simp
  then show hu: "lock_held PtableLock u" by (simp add: u_def)
  show du: "depth u = 1" using rel_props(3) [OF hl] a(3) d by (simp add: u_def)
  show "\<not> lk_locked (locks u l)" using rel_props(5) [OF hl] by (simp add: u_def lock_ready_def)
  have "cur_proc (rel l ?a) = Some p"
    using cur_proc_acq [OF r] cur_proc_rel [OF hl] c by simp
  then have cu: "cur_proc u = Some p" by (simp add: u_def)
  have "pstate u p \<noteq> RUNNING" using p by (simp add: u_def pstate_def)
  from sched_ok [OF hu du cu this, of sw]
  have "sched sw u = kbind (sw u) (resume (intena (cpus u ! my_index u)))" .
  moreover have "myproc s = Ok (Some p, s)"
    using myproc_nested [of s] h d c by (simp add: lock_held_def)
  ultimately show "sleep sw ch (Some l) s = kbind (sw u) (after_sleep p l (intena (cpus u ! my_index u)))"
    using l r hl by (simp add: sleep_def acquire_ok release_ok u_def Let_def after_sleep_def)
qed

lemma acquire_busy:
  assumes "cpu_ready s" and "lk_locked (locks s l)" and "\<not> lk_held_by (locks s l) (my_index s)"
  shows "acquire l s = Spin"
proof -
  note p = push_props [OF assms(1)]
  have "0 < depth (push s)" using p(3) assms(1) by (simp add: cpu_ready_def)
  then show ?thesis using assms p by (simp add: acquire_def pushcli_ok holding_ok)
qed

section \<open>The new process\<close>

text \<open>The contents \<^verbatim>\<open>allocproc\<close> leaves on the kernel stack of the new process.\<close>

definition new_stack :: "memory \<Rightarrow> addr \<Rightarrow> addr \<Rightarrow> addr \<Rightarrow> memory" where
  "new_stack m kstack trapret forkret =
     (let tf = kstack + of_nat KSTACKSIZE - of_nat TF_SIZE; ctx = tf - 4 - of_nat CONTEXT_SIZE in
      store32 (memset (store32 m (tf - 4) trapret) ctx 0 (of_nat CONTEXT_SIZE)) (context_eip ctx) forkret)"

definition alloc_fields :: "int \<Rightarrow> addr \<Rightarrow> proc \<Rightarrow> proc" where
  "alloc_fields pid kstack x =
     (let tf = kstack + of_nat KSTACKSIZE - of_nat TF_SIZE in
      x\<lparr>p_state := EMBRYO, p_pid := pid, p_Ticks := 0, p_priority := 0, p_num_stat_used := 0,
        p_kstack := kstack, p_tf := tf, p_context := tf - 4 - of_nat CONTEXT_SIZE\<rparr>)"

lemma new_stack_words:
  fixes k :: addr
  defines "tf \<equiv> k + of_nat KSTACKSIZE - of_nat TF_SIZE"
  shows "load32 (new_stack m k w f) (context_eip (tf - 4 - of_nat CONTEXT_SIZE)) = f"
    and "load32 (new_stack m k w f) (tf - 4) = w"
proof -
  let ?c = "tf - 4 - of_nat CONTEXT_SIZE"
  show "load32 (new_stack m k w f) (context_eip ?c) = f"
    by (simp add: new_stack_def Let_def tf_def)
  have d: "tf - 4 + j - ?c = 20 + j" for j by (simp add: CONTEXT_SIZE_def algebra_simps)
  have b: "new_stack m k w f (tf - 4 + j) = store32 m (tf - 4) w (tf - 4 + j)"
    if "j = 0 \<or> j = 1 \<or> j = 2 \<or> j = 3" for j
  proof -
    have "\<not> within ?c (unat (of_nat CONTEXT_SIZE :: 32 word)) (tf - 4 + j)"
      unfolding within_def d using that by (auto simp: CONTEXT_SIZE_def)
    moreover have "tf - 4 + j \<noteq> context_eip ?c + i" if "i = 0 \<or> i = 1 \<or> i = 2 \<or> i = 3" for i
    proof -
      have "tf - 4 + j - (context_eip ?c + i) = 4 + j - i"
        by (simp add: CONTEXT_SIZE_def context_eip_def algebra_simps)
      moreover have "4 + j - i \<noteq> 0" using that \<open>j = 0 \<or> j = 1 \<or> j = 2 \<or> j = 3\<close> by auto
      ultimately show ?thesis by (metis eq_iff_diff_eq_0)
    qed
    from this [of 0] this [of 1] this [of 2] this [of 3]
    have "\<forall>i \<in> {0, 1, 2, 3}. tf - 4 + j \<noteq> context_eip ?c + i" by simp
    ultimately show ?thesis by (simp add: new_stack_def Let_def memset_fill flip: tf_def) (simp add: store32_def)
  qed
  have "load32 (new_stack m k w f) (tf - 4) = load32 (store32 m (tf - 4) w) (tf - 4)"
    using b [of 0] b [of 1] b [of 2] b [of 3] by (simp add: load32_def)
  then show "load32 (new_stack m k w f) (tf - 4) = w" by simp
qed

lemma sched_acq_rel [simp]:
  "trapret_at (acq l s) = trapret_at s" "trapret_at (rel l s) = trapret_at s"
  "forkret_at (acq l s) = forkret_at s" "forkret_at (rel l s) = forkret_at s"
  "trapret_at (upd_proc p f s) = trapret_at s" "forkret_at (upd_proc p f s) = forkret_at s"
  by (simp_all add: acq_def rel_def push_def pop_def Let_def upd_proc_def)

lemma upd_proc_twice [simp]: "p < length (procs s) \<Longrightarrow> upd_proc p f (upd_proc p g s) = upd_proc p (\<lambda>x. f (g x)) s"
  by (simp add: upd_proc_def)

lemma mlfq_fields [simp]:
  "mlfq_wf (s\<lparr>nextpid := n\<rparr>) = mlfq_wf s" "level (s\<lparr>nextpid := n\<rparr>) = level s"
  "mlfq_wf (t\<lparr>freelist := x\<rparr>) = mlfq_wf t" "level (t\<lparr>freelist := x\<rparr>) = level t"
  "mlfq_wf (t\<lparr>mem := m\<rparr>) = mlfq_wf t" "level (t\<lparr>mem := m\<rparr>) = level t"
proof -
  have q: "getq qi (s\<lparr>nextpid := n\<rparr>) = getq qi s" "getq qi (t\<lparr>freelist := x\<rparr>) = getq qi t"
    "getq qi (t\<lparr>mem := m\<rparr>) = getq qi t" for qi by (cases qi; simp)+
  show "mlfq_wf (s\<lparr>nextpid := n\<rparr>) = mlfq_wf s" "mlfq_wf (t\<lparr>freelist := x\<rparr>) = mlfq_wf t"
    "mlfq_wf (t\<lparr>mem := m\<rparr>) = mlfq_wf t" by (simp_all add: mlfq_wf_def q)
  show "level (s\<lparr>nextpid := n\<rparr>) = level s" "level (t\<lparr>freelist := x\<rparr>) = level t"
    "level (t\<lparr>mem := m\<rparr>) = level t" by (simp_all add: level_def q fun_eq_iff)
qed

lemma only_queues_fields:
  assumes "only_queues s t"
  shows "trapret_at t = trapret_at s" and "forkret_at t = forkret_at s" and "use_lock t = use_lock s"
    and "freelist t = freelist s" and "kend t = kend s"
  using assms by (auto simp: only_queues_def)

text \<open>
  A slot whose process was never used or has been reaped (its pid is 0): the process is entered
  at the end of level 0, gets the next pid, a kernel stack and the context that starts it.
\<close>

lemma allocproc_ok:
  assumes q: "quiet s" and wf: "mlfq_wf s" and room: "length (level s Q0) < NPROC"
    and slot: "find (\<lambda>p. pstate s p = UNUSED) [0..<NPROC] = Some p" and pid: "p_pid (procs s ! p) \<le> 0"
    and fp: "free_pages s (k # ks)" and ul: "use_lock s"
  shows "\<exists>t. allocproc s = Ok (Some p, t) \<and> quiet t \<and> mlfq_wf t \<and>
     level t = (level s)(Q0 := level s Q0 @ [p]) \<and> nextpid t = nextpid s + 1 \<and>
     procs t = (procs s)[p := alloc_fields (nextpid s) k (procs s ! p)] \<and>
     mem t = new_stack (mem s) k (trapret_at s) (forkret_at s)"
proof -
  let ?a = "acq PtableLock s"
  have r: "lock_ready PtableLock s" using q by (rule quiet_ready)
  note a = acq_props [OF r]
  have p: "p < NPROC" "p < length (procs s)" using slot mlfq_wf_length [OF wf] by (auto simp: find_Some_iff)
  have slot': "find (\<lambda>p. pstate ?a p = UNUSED) [0..<NPROC] = Some p" using slot by (simp add: pstate_def)
  define b where "b = upd_proc p (\<lambda>x. x\<lparr>p_state := EMBRYO, p_pid := nextpid s, p_priority := 0\<rparr>)
     (?a\<lparr>nextpid := nextpid s + 1\<rparr>)"
  have bw: "mlfq_wf b" "length (level b Q0) < NPROC" using wf room by (simp_all add: b_def)
  obtain c where c: "addQueue Q0 p b = Ok c" "mlfq_wf c" "only_queues b c"
    "level c = (level b)(Q0 := level b Q0 @ [p])"
    "procs c = (procs b)[p := (procs b ! p)\<lparr>p_Ticks := 0, p_priority := prio Q0\<rparr>]"
    using addQueue_spec [OF bw p(1)] by blast
  note oq = only_queuesD [OF c(3)] and of = only_queues_fields [OF c(3)]
  define d where "d = upd_proc p (\<lambda>x. x\<lparr>p_num_stat_used := 0\<rparr>) c"
  have core: "same_core d ?a" using oq(1) by (simp add: d_def b_def same_core_def)
  have hd: "lock_held PtableLock d" using a(5) same_coreD(6) [OF core] by blast
  define e where "e = rel PtableLock d"
  have qe: "quiet e" unfolding e_def by (rule quiet_section [OF q core])
  have ef: "use_lock e" "freelist e = freelist s" "mem e = mem s" "kend e = kend s"
    using ul oq of by (simp_all add: e_def d_def b_def upd_proc_def)
  have fk: "freelist s = k" "k \<noteq> 0" using fp by (auto simp: free_pages_def)
  define g where "g = rel KmemLock ((acq KmemLock e)\<lparr>freelist := load32 (mem e) k\<rparr>)"
  have ke: "kalloc e = Ok (k, g)"
    using kalloc_eq [OF ef(1) quiet_ready [OF qe]] ef fk by (simp add: g_def)
  have qg: "quiet g" unfolding g_def by (rule quiet_section [OF qe]) simp
  have gf: "procs g = procs d" "mem g = mem s" "trapret_at g = trapret_at s" "forkret_at g = forkret_at s"
    "nextpid g = nextpid s + 1" "mlfq_wf g" "level g = level c"
    using c(2) oq of by (simp_all add: g_def e_def d_def b_def)
  have lp: "p < length (procs c)" "p < length (procs g)" "procs b ! p = (procs s ! p)\<lparr>p_state := EMBRYO, p_pid := nextpid s, p_priority := 0\<rparr>"
    using p c(5) gf(1) by (simp_all add: b_def d_def)
  let ?tf = "k + of_nat KSTACKSIZE - of_nat TF_SIZE"
  define h where "h = upd_proc p (\<lambda>x. x\<lparr>p_tf := ?tf, p_context := ?tf - 4 - of_nat CONTEXT_SIZE\<rparr>)
     ((upd_proc p (\<lambda>x. x\<lparr>p_kstack := k\<rparr>) g)\<lparr>mem := new_stack (mem s) k (trapret_at s) (forkret_at s)\<rparr>)"
  have c1: "addQueue Q0 p (upd_proc p (\<lambda>x. x\<lparr>p_state := EMBRYO, p_pid := nextpid s, p_priority := 0\<rparr>)
     (?a\<lparr>nextpid := nextpid s + 1\<rparr>)) = Ok c" using c(1) by (simp add: b_def)
  have "allocproc s = Ok (Some p, h)"
    using r slot' pid c1 hd ke fk(2) gf(2-4)
    by (simp add: allocproc_def acquire_ok release_ok Let_def d_def e_def h_def new_stack_def)
  moreover have "quiet h" using qg by (simp add: h_def)
  moreover have "mlfq_wf h" "level h = (level s)(Q0 := level s Q0 @ [p])"
    using gf(6,7) c(4) by (simp_all add: h_def b_def)
  moreover have "procs h = (procs s)[p := alloc_fields (nextpid s) k (procs s ! p)]"
    using lp gf(1) c(5) p by (simp add: h_def d_def b_def alloc_fields_def Let_def)
  moreover have "mem h = new_stack (mem s) k (trapret_at s) (forkret_at s)" "nextpid h = nextpid s + 1"
    using gf(5) by (simp_all add: h_def)
  ultimately show ?thesis by blast
qed

section \<open>Sample state\<close>

text \<open>Process 3 of \<^const>\<open>mlfq_ex\<close> is running on the only processor.\<close>

definition sched_of :: "con_st \<Rightarrow> sched_st" where
  "sched_of v = con_st.extend v \<lparr>trapret_at = 0x80105000, forkret_at = 0x80104000\<rparr>"

definition sched_ex :: sched_st where
  "sched_ex = set_cpu_proc 0 (Some 3) (sched_of (con_of (vm_of mlfq_ex)))"

lemmas sched_defs = con_st.defs vm_st.defs proc_st.defs kmem_st.defs kcore.defs

lemma core_ex_run: "quiet (set_cpu_proc 0 (Some 3) core_ex)"
  by (simp add: quiet_def cpu_ready_def depth_def my_index_def cpu_index_def core_ex_def set_cpu_proc_def)

lemma sched_ex_quiet: "quiet sched_ex"
proof -
  have "same_core sched_ex (set_cpu_proc 0 (Some 3) core_ex)"
    by (simp add: sched_ex_def sched_of_def con_of_def vm_of_def mlfq_ex_def proc_st_of_def kmem_ex_def
        set_cpu_proc_def same_core_def sched_defs core_ex_def)
  then show ?thesis using core_ex_run same_coreD(7) by blast
qed

lemma sched_ex_fields [simp]: "procs sched_ex = procs_ex" "getq qi sched_ex = getq qi mlfq_ex" "mem sched_ex = mem kmem_ex"
  "freelist sched_ex = freelist kmem_ex" "use_lock sched_ex" "kend sched_ex = kend kmem_ex"
  "trapret_at sched_ex = 0x80105000" "forkret_at sched_ex = 0x80104000" "nextpid sched_ex = 1" "TOTAL sched_ex = 0"
  by (cases qi; simp add: sched_ex_def sched_of_def con_of_def vm_of_def mlfq_ex_def proc_st_of_def set_cpu_proc_def
      sched_defs kmem_ex_def)+

lemma sched_ex_mlfq [simp]: "mlfq_wf sched_ex" "level sched_ex = level mlfq_ex"
  using mlfq_ex_wf by (simp_all add: mlfq_wf_def level_def fun_eq_iff)

lemma sched_ex_cur: "cur_proc sched_ex = Some 3"
  by (simp add: cur_proc_def my_index_def cpu_index_def sched_ex_def set_cpu_proc_def sched_of_def con_of_def vm_of_def
      mlfq_ex_def proc_st_of_def sched_defs kmem_ex_def core_ex_def)

lemma sched_ex_pages: "free_pages sched_ex [0x80400000]"
  by (rule free_pages_cong [OF kmem_ex_pages _ _ _ sched_ex_quiet]) (rule sched_ex_fields)+

section \<open>Properties\<close>





end
