(* ===== verification/Scheduler.thy ===== *)
theory Scheduler
  imports Proc
begin

text \<open>
  The multi-level feedback queue scheduler: \<^verbatim>\<open>scheduler\<close> of \<^verbatim>\<open>proc.c\<close>.

  \<^verbatim>\<open>swtch\<close> to the chosen process returns when that process gives the processor up; what happens
  in between is the parameter \<open>run\<close>.  The endless loop of the scheduler is a function of the
  number of passes; the inner loop over the ticks of a slice is \<open>slice_loop\<close>, and each property
  that it ends is proved.
\<close>

section \<open>The scheduler\<close>

text \<open>The arrays kept for debugging, indexed by \<^verbatim>\<open>TOTAL\<close>: which process ran, and how it came back.\<close>

definition record_run :: "nat \<Rightarrow> 'z proc_st_scheme \<Rightarrow> 'z proc_st_scheme kres" where
  "record_run p s =
     (let x = procs s ! p in
      if p_priority x = 0 then
        kbind (awrite (queue0 s) (TOTAL s) (p_pid x)) (\<lambda>a. kbind (awrite (name0 s) (TOTAL s) (Some p)) (\<lambda>b.
        Ok (s\<lparr>queue0 := a, name0 := b\<rparr>)))
      else if p_priority x = 1 then
        kbind (awrite (queue1 s) (TOTAL s) (p_pid x)) (\<lambda>a. kbind (awrite (name1 s) (TOTAL s) (Some p)) (\<lambda>b.
        Ok (s\<lparr>queue1 := a, name1 := b\<rparr>)))
      else if p_priority x = 2 then
        kbind (awrite (queue2 s) (TOTAL s) (p_pid x)) (\<lambda>a. kbind (awrite (name2 s) (TOTAL s) (Some p)) (\<lambda>b.
        Ok (s\<lparr>queue2 := a, name2 := b\<rparr>)))
      else Ok s)"

primrec state_label :: "procstate \<Rightarrow> string option" where
  "state_label UNUSED = None"
| "state_label EMBRYO = None"
| "state_label SLEEPING = Some ''Sleeping''"
| "state_label RUNNABLE = Some ''Runnable''"
| "state_label RUNNING = None"
| "state_label ZOMBIE = Some ''Zombie''"

definition record_state :: "nat \<Rightarrow> 'z proc_st_scheme \<Rightarrow> 'z proc_st_scheme kres" where
  "record_state p s =
     (case state_label (pstate s p) of None \<Rightarrow> Ok s
      | Some n \<Rightarrow>
        if p_priority (procs s ! p) = 0 then
          kbind (awrite (state0 s) (TOTAL s) (Some n)) (\<lambda>a. Ok (s\<lparr>state0 := a\<rparr>))
        else if p_priority (procs s ! p) = 1 then
          kbind (awrite (state1 s) (TOTAL s) (Some n)) (\<lambda>a. Ok (s\<lparr>state1 := a\<rparr>))
        else if p_priority (procs s ! p) = 2 then
          kbind (awrite (state2 s) (TOTAL s) (Some n)) (\<lambda>a. Ok (s\<lparr>state2 := a\<rparr>))
        else Ok s)"

definition upd_stat :: "nat \<Rightarrow> (sched_stat_t \<Rightarrow> sched_stat_t) \<Rightarrow> 'z proc_st_scheme \<Rightarrow> 'z proc_st_scheme kres" where
  "upd_stat p f s =
     (let x = procs s ! p in
      kbind (aread (p_stats x) (p_num_stat_used x)) (\<lambda>st.
      kbind (awrite (p_stats x) (p_num_stat_used x) (f st)) (\<lambda>a.
      Ok (upd_proc p (\<lambda>x. x\<lparr>p_stats := a\<rparr>) s))))"

text \<open>One tick: the body of the \<^verbatim>\<open>while\<close> loop.\<close>

definition sched_tick ::
  "('z sched_st_scheme \<Rightarrow> 'z sched_st_scheme kres) \<Rightarrow> nat \<Rightarrow> nat \<Rightarrow> 'z sched_st_scheme \<Rightarrow>
     'z sched_st_scheme kres" where
  "sched_tick run c p s =
     kbind (record_run p s) (\<lambda>s1.
     kbind (switchuvm (Some p) (set_cpu_proc c (Some p) s1)) (\<lambda>s2.
     kbind (upd_stat p (\<lambda>st. st\<lparr>start_tick := ticks s2, st_priority := p_priority (procs s2 ! p)\<rparr>)
              (upd_proc p (\<lambda>x. x\<lparr>p_state := RUNNING\<rparr>) s2)) (\<lambda>s3.
     kbind (run s3) (\<lambda>s4.
     let s5 = switchkvm s4 in
     kbind (upd_stat p (\<lambda>st. st\<lparr>duration := duration st + (ticks s5 - start_tick st)\<rparr>) s5) (\<lambda>s6.
     kbind (record_state p (set_cpu_proc c None s6)) (\<lambda>s7.
     kbind (updatePstat (upd_proc p (\<lambda>x. x\<lparr>p_Ticks := p_Ticks x + 1\<rparr>) s7)) (\<lambda>s8.
     Ok (if TOTAL s8 < int NTICKS then s8\<lparr>TOTAL := TOTAL s8 + 1\<rparr> else s8))))))))"

partial_function (option) slice_loop ::
  "('z sched_st_scheme \<Rightarrow> 'z sched_st_scheme kres) \<Rightarrow> nat \<Rightarrow> qid \<Rightarrow> nat \<Rightarrow> int \<Rightarrow> 'z sched_st_scheme \<Rightarrow>
     (int \<times> 'z sched_st_scheme) kres option"
where
  "slice_loop run c q p n s =
     (if pstate s p = RUNNABLE \<and> n < pq_ticks (getq q s)
      then kobind (sched_tick run c p s) (\<lambda>s1. slice_loop run c q p (n + 1) s1)
      else Some (Ok (n, s)))"

text \<open>What is done with the process after its slice.\<close>

definition after_slice :: "qid \<Rightarrow> nat \<Rightarrow> 'z proc_st_scheme \<Rightarrow> 'z proc_st_scheme kres" where
  "after_slice q p s =
     (let x = procs s ! p; s1 = upd_proc p (\<lambda>x. x\<lparr>p_num_stat_used := p_num_stat_used x + 1\<rparr>) s in
      if p_state x = RUNNABLE \<and> (p_priority x = 1 \<or> p_priority x = 0) then degrade q p s1
      else if p_state x = RUNNABLE \<and> p_priority x = 2 \<and> p_Ticks x \<ge> 50 then boost p s1
      else if p_state x = SLEEPING then kbind (deleteQueue q p s1) (addQueue q p)
      else Ok s)"

text \<open>The body of the \<^verbatim>\<open>for\<close> loop over the process table.\<close>

definition sched_slice ::
  "('z sched_st_scheme \<Rightarrow> 'z sched_st_scheme kres) \<Rightarrow> nat \<Rightarrow> nat \<Rightarrow> 'z sched_st_scheme \<Rightarrow>
     'z sched_st_scheme kres" where
  "sched_slice run c p s =
     kbind (returnProc s) (\<lambda>(r, s1).
     if r \<noteq> Some p then Ok s1
     else
       kbind (returnQueue s1) (\<lambda>q.
       let queuepriority = p_priority (procs s1 ! p) in
       kbind (krun (slice_loop run c q p 0 s1)) (\<lambda>(n, s2).
       let x = procs s2 ! p in
       kbind (aread (p_ticks x) queuepriority) (\<lambda>tk.
       kbind (awrite (p_ticks x) queuepriority (tk + n)) (\<lambda>a.
       kbind (aread (p_times x) (p_priority x)) (\<lambda>tm.
       kbind (awrite (p_times x) (p_priority x) (tm + 1)) (\<lambda>b.
       after_slice q p (upd_proc p (\<lambda>x. x\<lparr>p_ticks := a, p_times := b\<rparr>) s2))))))))"

definition scheduler_pass ::
  "(nat \<Rightarrow> 'z sched_st_scheme \<Rightarrow> 'z sched_st_scheme kres) \<Rightarrow> nat \<Rightarrow> 'z sched_st_scheme \<Rightarrow>
     'z sched_st_scheme kres" where
  "scheduler_pass run c s =
     kbind (acquire PtableLock (sti s)) (\<lambda>s1.
     kbind (foldk (\<lambda>p. sched_slice (run p) c p) [0..<NPROC] s1) (release PtableLock))"

definition scheduler ::
  "nat \<Rightarrow> (nat \<Rightarrow> 'z sched_st_scheme \<Rightarrow> 'z sched_st_scheme kres) \<Rightarrow> 'z sched_st_scheme \<Rightarrow>
     'z sched_st_scheme kres" where
  "scheduler n run s =
     kbind (mycpu s) (\<lambda>c.
     foldk (\<lambda>_. scheduler_pass run c) (replicate n ()) (set_cpu_proc c None s))"

section \<open>One tick\<close>

text \<open>The scheduler holds the table lock, the queues and the per-process arrays are well formed, and the
  process can be switched to.\<close>

definition proc_ready :: "proc \<Rightarrow> bool" where
  "proc_ready x \<longleftrightarrow> p_kstack x \<noteq> 0 \<and> p_pgdir x \<noteq> 0 \<and> 0 \<le> p_num_stat_used x \<and>
     p_num_stat_used x < int NSCHEDSTATS \<and> p_priority x \<in> {0, 1, 2}"

definition sched_inv :: "nat \<Rightarrow> 'z sched_st_scheme \<Rightarrow> bool" where
  "sched_inv p s \<longleftrightarrow> lock_held PtableLock s \<and> depth s = 1 \<and> mlfq_wf s \<and> stats_wf s \<and> 0 \<le> TOTAL s \<and>
     p < NPROC \<and> proc_ready (procs s ! p)"

text \<open>A step that touches neither the locks nor the queues.\<close>

definition keeps :: "'z sched_st_scheme \<Rightarrow> 'z sched_st_scheme \<Rightarrow> bool" where
  "keeps s t \<longleftrightarrow> (\<forall>l. lock_held l t = lock_held l s) \<and> depth t = depth s \<and> (\<forall>qi. getq qi t = getq qi s) \<and>
     TOTAL t = TOTAL s \<and> ticks t = ticks s \<and>
     length (queue0 t) = length (queue0 s) \<and> length (queue1 t) = length (queue1 s) \<and>
     length (queue2 t) = length (queue2 s) \<and> length (name0 t) = length (name0 s) \<and>
     length (name1 t) = length (name1 s) \<and> length (name2 t) = length (name2 s) \<and>
     length (state0 t) = length (state0 s) \<and> length (state1 t) = length (state1 s) \<and>
     length (state2 t) = length (state2 s)"

lemma keeps_refl [simp]: "keeps s s"
  by (simp add: keeps_def)

lemma keeps_trans: "keeps s t \<Longrightarrow> keeps t u \<Longrightarrow> keeps s u"
  by (simp add: keeps_def)

lemma keeps_level: "keeps s t \<Longrightarrow> level t = level s"
  by (simp add: keeps_def level_def fun_eq_iff)

lemma keeps_inv:
  assumes "keeps s t" and "sched_inv p s" and "procs t = (procs s)[p := x]" and "proc_ready x"
    and "length (p_queue x) = NTICKS" "length (p_stats x) = NSCHEDSTATS" "length (p_ticks x) = 3" "length (p_times x) = 3"
  shows "sched_inv p t"
proof -
  have p: "p < length (procs s)" using assms(2) by (simp add: sched_inv_def mlfq_wf_length)
  have "set (procs t) \<subseteq> insert x (set (procs s))" using assms(3) set_update_subset_insert by metis
  then show ?thesis
    using assms p by (auto simp: sched_inv_def keeps_def mlfq_wf_def stats_wf_def)
qed

lemma sched_inv_proc:
  assumes "sched_inv p s"
  shows "p < length (procs s)" and "length (p_stats (procs s ! p)) = NSCHEDSTATS"
    and "length (p_queue (procs s ! p)) = NTICKS" and "length (p_ticks (procs s ! p)) = 3"
    and "length (p_times (procs s ! p)) = 3" and "proc_ready (procs s ! p)" and "p < NPROC"
    and "cpu_ready s" and "0 < depth s"
proof -
  have "length (procs s) = NPROC" using assms by (simp add: sched_inv_def mlfq_wf_length)
  then have "procs s ! p \<in> set (procs s)" using assms by (simp add: sched_inv_def)
  then show "p < length (procs s)" "length (p_stats (procs s ! p)) = NSCHEDSTATS"
    "length (p_queue (procs s ! p)) = NTICKS" "length (p_ticks (procs s ! p)) = 3"
    "length (p_times (procs s ! p)) = 3" "proc_ready (procs s ! p)" "p < NPROC" "cpu_ready s" "0 < depth s"
    using assms \<open>length (procs s) = NPROC\<close> by (auto simp: sched_inv_def stats_wf_def lock_held_def)
qed

lemma keeps_inv_same: "keeps s t \<Longrightarrow> sched_inv p s \<Longrightarrow> procs t = procs s \<Longrightarrow> sched_inv p t"
  using keeps_inv [of s t p "procs s ! p"] sched_inv_proc [of p s] by simp

lemma same_core_debug [simp]:
  "same_core (s\<lparr>queue0 := a, name0 := b\<rparr>) t = same_core s t" "same_core (s\<lparr>queue1 := a, name1 := b\<rparr>) t = same_core s t"
  "same_core (s\<lparr>queue2 := a, name2 := b\<rparr>) t = same_core s t" "same_core (s\<lparr>state0 := d\<rparr>) t = same_core s t"
  "same_core (s\<lparr>state1 := d\<rparr>) t = same_core s t" "same_core (s\<lparr>state2 := d\<rparr>) t = same_core s t"
  by (simp_all add: same_core_def)

lemma keeps_core:
  assumes "same_core t s" and "\<And>qi. getq qi t = getq qi s" and "TOTAL t = TOTAL s" "ticks t = ticks s"
    "length (queue0 t) = length (queue0 s)" "length (queue1 t) = length (queue1 s)"
    "length (queue2 t) = length (queue2 s)" "length (name0 t) = length (name0 s)"
    "length (name1 t) = length (name1 s)" "length (name2 t) = length (name2 s)"
    "length (state0 t) = length (state0 s)" "length (state1 t) = length (state1 s)"
    "length (state2 t) = length (state2 s)"
  shows "keeps s t"
  using assms same_coreD [OF assms(1)] by (simp add: keeps_def)

lemma record_run_ok:
  assumes "sched_inv p s" and "TOTAL s < int NTICKS"
  shows "\<exists>t. record_run p s = Ok t \<and> keeps s t \<and> procs t = procs s"
proof -
  have i: "0 \<le> TOTAL s" "nat (TOTAL s) < NTICKS" "stats_wf s" "p_priority (procs s ! p) \<in> {0, 1, 2}"
    using assms by (auto simp: sched_inv_def proc_ready_def)
  then show ?thesis
    by (auto simp: record_run_def Let_def awrite_def stats_wf_def intro!: keeps_core; rename_tac qi; case_tac qi; simp)
qed

lemma record_state_ok:
  assumes "sched_inv p s" and "TOTAL s < int NTICKS"
  shows "\<exists>t. record_state p s = Ok t \<and> keeps s t \<and> procs t = procs s"
proof -
  have i: "0 \<le> TOTAL s" "nat (TOTAL s) < NTICKS" "stats_wf s" using assms by (auto simp: sched_inv_def)
  show ?thesis
  proof (cases "state_label (pstate s p)")
    case (Some n)
    then show ?thesis using i
      by (auto simp: record_state_def awrite_def stats_wf_def intro!: keeps_core; rename_tac qi; case_tac qi; simp)
  qed (simp add: record_state_def)
qed

lemma set_cpu_proc_keeps: "keeps s (set_cpu_proc c x s)"
proof -
  let ?t = "set_cpu_proc c x s"
  have nth: "apicid (cpus ?t ! i) = apicid (cpus s ! i) \<and> ncli (cpus ?t ! i) = ncli (cpus s ! i)" for i
  proof (cases "c < length (cpus s)")
    case True
    then show ?thesis by (cases "i = c") (simp_all add: set_cpu_proc_def)
  qed (simp add: set_cpu_proc_def list_update_beyond)
  have l: "length (cpus ?t) = length (cpus s)" "ncpu ?t = ncpu s" "me ?t = me s" "iflag ?t = iflag s" "locks ?t = locks s"
    by (simp_all add: set_cpu_proc_def)
  have idx: "cpu_index ?t = cpu_index s" using nth l by (simp add: cpu_index_def)
  then have mi: "my_index ?t = my_index s" by (simp add: my_index_def)
  then have d: "depth ?t = depth s" using nth by (simp add: depth_def)
  have "lock_held k ?t = lock_held k s" for k using idx mi d l by (simp add: lock_held_def cpu_ready_def)
  moreover have "getq qi ?t = getq qi s" for qi by (cases qi) (simp_all add: set_cpu_proc_def)
  ultimately show ?thesis using d by (simp add: keeps_def) (simp add: set_cpu_proc_def)
qed

lemma procs_set_cpu_proc [simp]: "procs (set_cpu_proc c x s) = procs s"
  by (simp add: set_cpu_proc_def)

lemma vm_regs_keeps:
  "keeps s (s\<lparr>gdts := g, tss := h, cr3 := r, tr := k\<rparr>)" "keeps s (s\<lparr>cr3 := r\<rparr>)"
  by (rule keeps_core; (simp add: same_core_def)?; rename_tac qi; case_tac qi; simp)+

text \<open>What \<^verbatim>\<open>switchuvm\<close> loads into the processor.\<close>

definition load_regs :: "nat \<Rightarrow> 'z sched_st_scheme \<Rightarrow> 'z sched_st_scheme" where
  "load_regs p s = s\<lparr>gdts := (gdts s)(my_index s := (gdts s (my_index s))
                        [SEG_TSS := (SEG16 STS_T32A (ts_at s (my_index s)) 103 0)\<lparr>sd_s := False\<rparr>]),
                      tss := (tss s)(my_index s := \<lparr>ts_ss0 = push_bit 3 (of_nat SEG_KDATA),
                        ts_esp0 = p_kstack (procs s ! p) + of_nat KSTACKSIZE, ts_iomb = 0xFFFF\<rparr>),
                      cr3 := (cr3 s)(me s := V2P (p_pgdir (procs s ! p))),
                      tr := (tr s)(me s := push_bit 3 (of_nat SEG_TSS))\<rparr>"

lemma load_regs_core: "same_core (load_regs p s) s"
  by (simp add: load_regs_def same_core_def)

lemma load_regs_keeps: "keeps s (load_regs p s)" "procs (load_regs p s) = procs s"
  unfolding load_regs_def by (rule vm_regs_keeps) simp

lemma pop_load_regs: "pop (load_regs p s) = load_regs p (pop s)" if "cpu_ready s" "0 < depth s"
proof -
  have mi: "my_index (load_regs p s) = my_index s" by (rule same_coreD(2) [OF load_regs_core])
  have pf: "gdts (pop s) = gdts s" "tss (pop s) = tss s" "cr3 (pop s) = cr3 s" "procs (pop s) = procs s"
    "ts_at (pop s) = ts_at s" "vm_st.tr (pop s) = vm_st.tr s"
    by (simp_all add: pop_def Let_def)
  show ?thesis
    unfolding load_regs_def [of p "pop s"] pop_props(2,4) [OF that] pf
    by (cases "ncli (cpus s ! my_index s) = 1"; cases "intena (cpus s ! my_index s)")
      (simp_all add: pop_def mi Let_def, simp_all add: load_regs_def)
qed

lemma switchuvm_ok:
  assumes "sched_inv p s"
  shows "\<exists>t. switchuvm (Some p) s = Ok t \<and> keeps s t \<and> procs t = procs s"
proof -
  have r: "cpu_ready s" "0 < depth s" "p_kstack (procs s ! p) \<noteq> 0" "p_pgdir (procs s ! p) \<noteq> 0"
    using sched_inv_proc [OF assms] by (auto simp: proc_ready_def)
  note q = push_props [OF r(1)]
  have ready: "cpu_ready (load_regs p (push s))" "0 < depth (load_regs p (push s))" "0 < depth (push s)"
    using q(1,3) r(2) same_coreD(3,4) [OF load_regs_core, of p "push s"] by simp_all
  have "\<not> iflag (push s) (me (push s))" by (simp add: push_def Let_def)
  then have "switchuvm (Some p) s = popcli (load_regs p (push s))"
    using r(1,3,4) mycpu_ok [OF q(1)] by (simp add: switchuvm_def pushcli_ok Let_def) (simp add: load_regs_def)
  then have "switchuvm (Some p) s = Ok (load_regs p s)"
    using popcli_ok [OF ready(1,2)] pop_load_regs [OF q(1) ready(3)] r(1,2) by (simp add: pop_push)
  then show ?thesis using load_regs_keeps by blast
qed

definition on_stat :: "(sched_stat_t \<Rightarrow> sched_stat_t) \<Rightarrow> proc \<Rightarrow> proc" where
  "on_stat f x = x\<lparr>p_stats := (p_stats x)[nat (p_num_stat_used x) := f (p_stats x ! nat (p_num_stat_used x))]\<rparr>"

lemma upd_stat_ok:
  assumes "sched_inv p s"
  shows "\<exists>t. upd_stat p f s = Ok t \<and> keeps s t \<and> sched_inv p t \<and> procs t = (procs s)[p := on_stat f (procs s ! p)]"
proof -
  let ?y = "on_stat f (procs s ! p)"
  note q = sched_inv_proc [OF assms(1)]
  have n: "nat (p_num_stat_used (procs s ! p)) < NSCHEDSTATS" using q(6) by (auto simp: proc_ready_def)
  have "upd_stat p f s = Ok (upd_proc p (\<lambda>_. ?y) s)"
    using q n by (simp add: upd_stat_def on_stat_def Let_def aread_def awrite_def proc_ready_def upd_proc_def)
  moreover have "keeps s (upd_proc p (\<lambda>_. ?y) s)"
    by (rule keeps_core; simp add: upd_proc_def; rename_tac qi; case_tac qi; simp)
  moreover have "sched_inv p (upd_proc p (\<lambda>_. ?y) s)"
    using q by (intro keeps_inv [where x = ?y, OF calculation(2) assms(1)]) (simp_all add: on_stat_def proc_ready_def)
  ultimately show ?thesis by simp
qed

text \<open>The process as \<^verbatim>\<open>swtch\<close> starts it, and after it gave the processor back.\<close>

definition started :: "32 word \<Rightarrow> proc \<Rightarrow> proc" where
  "started now x =
     on_stat (\<lambda>st. st\<lparr>start_tick := now, st_priority := p_priority x\<rparr>) (x\<lparr>p_state := RUNNING\<rparr>)"

definition stopped :: "32 word \<Rightarrow> proc \<Rightarrow> proc" where
  "stopped now x =
     (on_stat (\<lambda>st. st\<lparr>duration := duration st + (now - start_tick st)\<rparr>) x)\<lparr>p_Ticks := p_Ticks x + 1\<rparr>"

lemma set_state_keeps: "keeps s (upd_proc p f s)"
  by (rule keeps_core; simp add: upd_proc_def; rename_tac qi; case_tac qi; simp)

lemma inv_account:
  fixes z :: "'z sched_st_scheme" and n :: int
  assumes "sched_inv p z" and "0 \<le> k"
  defines "r \<equiv> z\<lparr>procs := map (account n) (procs z), TOTAL := k\<rparr>"
  shows "sched_inv p r" and "getq qi r = getq qi z"
proof -
  show g: "getq qi r = getq qi z" for qi by (cases qi) (simp_all add: r_def)
  have core: "same_core r z" by (simp add: r_def same_core_def)
  have "procs z ! p \<in> set (procs z)" using sched_inv_proc(1) [OF assms(1)] by simp
  moreover have "stats_wf r" using assms(1) by (auto simp: r_def sched_inv_def stats_wf_def account_def)
  moreover have "mlfq_wf r" using assms(1) g by (simp add: sched_inv_def mlfq_wf_def) (simp add: r_def)
  ultimately show "sched_inv p r"
    using assms(1,2) same_coreD(3,6) [OF core] sched_inv_proc(1) [OF assms(1)]
    by (simp add: sched_inv_def) (simp add: r_def account_def proc_ready_def)
qed

lemma sched_tick_ok:
  assumes inv: "sched_inv p s" and tot: "TOTAL s < int NTICKS"
    and run: "\<And>u. sched_inv p u \<Longrightarrow> keeps s u \<Longrightarrow> procs u = (procs s)[p := started (ticks s) (procs s ! p)] \<Longrightarrow>
      \<exists>t. run u = Ok t \<and> sched_inv p t \<and> TOTAL t = TOTAL s \<and> Q t"
  shows "\<exists>t r. sched_tick run c p s = Ok r \<and> sched_inv p r \<and> Q t \<and> TOTAL r = TOTAL s + 1 \<and>
     (\<forall>qi. getq qi r = getq qi t) \<and> ticks r = ticks t \<and>
     procs r = map (account (TOTAL s)) ((procs t)[p := stopped (ticks t) (procs t ! p)])"
proof -
  obtain s1 where s1: "record_run p s = Ok s1" "keeps s s1" "procs s1 = procs s"
    using record_run_ok [OF inv tot] by blast
  have i1: "sched_inv p (set_cpu_proc c (Some p) s1)" "keeps s (set_cpu_proc c (Some p) s1)"
    using keeps_inv_same [OF keeps_trans [OF s1(2) set_cpu_proc_keeps] inv] s1(3)
      keeps_trans [OF s1(2) set_cpu_proc_keeps] by simp_all
  obtain s2 where s2: "switchuvm (Some p) (set_cpu_proc c (Some p) s1) = Ok s2" "keeps s s2" "procs s2 = procs s"
    using switchuvm_ok [OF i1(1)] keeps_trans [OF i1(2)] s1(3) by auto
  have tk: "ticks s2 = ticks s" using s2(2) by (simp add: keeps_def)
  let ?v = "upd_proc p (\<lambda>x. x\<lparr>p_state := RUNNING\<rparr>) s2"
  note q = sched_inv_proc [OF inv]
  have i2: "keeps s ?v" using keeps_trans [OF s2(2) set_state_keeps] .
  have i3: "sched_inv p ?v"
    using q s2(3) by (intro keeps_inv [OF i2 inv, where x = "(procs s ! p)\<lparr>p_state := RUNNING\<rparr>"]) (simp_all add: proc_ready_def)
  obtain u where u: "upd_stat p (\<lambda>st. st\<lparr>start_tick := ticks s2, st_priority := p_priority (procs s2 ! p)\<rparr>) ?v = Ok u"
    "keeps s u" "sched_inv p u" "procs u = (procs s)[p := started (ticks s) (procs s ! p)]"
    using upd_stat_ok [OF i3] keeps_trans [OF i2] q(1) s2(3) tk by (fastforce simp: started_def)
  obtain t where t: "run u = Ok t" "sched_inv p t" "TOTAL t = TOTAL s" "Q t" using run [OF u(3,2,4)] by blast
  have i4: "keeps t (switchkvm t)" "procs (switchkvm t) = procs t"
    unfolding switchkvm_def by (rule vm_regs_keeps) simp
  have i5: "sched_inv p (switchkvm t)" using keeps_inv_same [OF i4(1) t(2) i4(2)] .
  have tk': "ticks (switchkvm t) = ticks t" by (simp add: switchkvm_def)
  obtain s6 where s6: "upd_stat p (\<lambda>st. st\<lparr>duration := duration st + (ticks t - start_tick st)\<rparr>) (switchkvm t) = Ok s6"
    "keeps t s6" "sched_inv p s6"
    "procs s6 = (procs t)[p := on_stat (\<lambda>st. st\<lparr>duration := duration st + (ticks t - start_tick st)\<rparr>) (procs t ! p)]"
    using upd_stat_ok [OF i5] keeps_trans [OF i4(1)] i4(2) by fastforce
  let ?w = "set_cpu_proc c None s6"
  have kw: "keeps t ?w" using keeps_trans [OF s6(2) set_cpu_proc_keeps] .
  have i6: "sched_inv p ?w" using keeps_inv_same [OF set_cpu_proc_keeps s6(3)] by simp
  have tw: "TOTAL ?w < int NTICKS" using kw t(3) tot by (simp add: keeps_def)
  obtain s7 where s7: "record_state p ?w = Ok s7" "keeps t s7" "procs s7 = procs s6"
    using record_state_ok [OF i6 tw] keeps_trans [OF kw] by auto
  let ?z = "upd_proc p (\<lambda>x. x\<lparr>p_Ticks := p_Ticks x + 1\<rparr>) s7"
  have kz: "keeps t ?z" using keeps_trans [OF s7(2) set_state_keeps] .
  note qt = sched_inv_proc [OF t(2)]
  have pz: "procs ?z = (procs t)[p := stopped (ticks t) (procs t ! p)]"
    using s7(3) s6(4) qt(1) by (simp add: stopped_def on_stat_def)
  have iz: "sched_inv p ?z"
    using qt by (intro keeps_inv [OF kz t(2) pz]) (simp_all add: stopped_def on_stat_def proc_ready_def)
  have tz: "0 \<le> TOTAL ?z" "TOTAL ?z < int NTICKS" "stats_wf ?z" "TOTAL ?z = TOTAL s"
    using iz kz t(3) tot by (simp_all add: sched_inv_def keeps_def)
  let ?y = "?z\<lparr>procs := map (account (TOTAL s)) (procs ?z)\<rparr>"
  have up: "updatePstat ?z = Ok ?y" using updatePstat_ok [OF tz(3,1,2)] tz(4) by simp
  let ?r = "?y\<lparr>TOTAL := TOTAL s + 1\<rparr>"
  have "sched_tick run c p s = Ok ?r"
    using s1(1) s2(1) u(1) t(1) s6(1) s7(1) up tz(2,4) tk' by (simp add: sched_tick_def Let_def)
  moreover have "sched_inv p ?r" using inv_account(1) [OF iz, of "TOTAL s + 1" "TOTAL s"] tz by simp
  moreover have "getq qi ?r = getq qi t" for qi
    using inv_account(2) [OF iz, of "TOTAL s + 1" qi "TOTAL s"] tz kz by (simp add: keeps_def)
  moreover have "ticks ?r = ticks t" using kz by (simp add: keeps_def)
  moreover have "procs ?r = map (account (TOTAL s)) ((procs t)[p := stopped (ticks t) (procs t ! p)])" using pz by simp
  ultimately show ?thesis using t(4) by (intro exI [of _ t] exI [of _ ?r]) simp
qed

section \<open>The slice of a process\<close>

text \<open>
  What the scheduler relies on while a process runs: the process gives the processor back with the
  table lock held, the queues and arrays well formed, and the count of ticks untouched.  It may
  change its own state, create processes and wake or stop others.
\<close>

locale process_run =
  fixes run :: "'z sched_st_scheme \<Rightarrow> 'z sched_st_scheme kres" and p :: nat
  assumes run_ok: "sched_inv p u \<Longrightarrow> pstate u p = RUNNING \<Longrightarrow>
    \<exists>t. run u = Ok t \<and> sched_inv p t \<and> TOTAL t = TOTAL u"
begin

lemma tick:
  assumes "sched_inv p s" and "TOTAL s < int NTICKS"
  shows "\<exists>r. sched_tick run c p s = Ok r \<and> sched_inv p r \<and> TOTAL r = TOTAL s + 1"
proof -
  have "\<exists>t. run u = Ok t \<and> sched_inv p t \<and> TOTAL t = TOTAL s \<and> True"
    if "sched_inv p u" "keeps s u" "procs u = (procs s)[p := started (ticks s) (procs s ! p)]" for u
  proof -
    have "pstate u p = RUNNING"
      using that(3) sched_inv_proc(1) [OF assms(1)] by (simp add: pstate_def started_def on_stat_def)
    then show ?thesis using run_ok [OF that(1)] that(2) by (simp add: keeps_def)
  qed
  then show ?thesis using sched_tick_ok [where run = run and c = c and Q = "\<lambda>_. True", OF assms] by blast
qed

lemma slice:
  assumes "sched_inv p s" and "n \<le> slice_of q" and "TOTAL s + (slice_of q - n) \<le> int NTICKS"
  shows "\<exists>m r. slice_loop run c q p n s = Some (Ok (m, r)) \<and> n \<le> m \<and> m \<le> slice_of q \<and>
     (m = slice_of q \<or> pstate r p \<noteq> RUNNABLE) \<and> TOTAL r = TOTAL s + (m - n) \<and> sched_inv p r"
  using assms
proof (induction "nat (slice_of q - n)" arbitrary: n s)
  case 0
  have "pq_ticks (getq q s) = slice_of q" using 0(2) by (simp add: sched_inv_def mlfq_wf_def)
  then show ?case using 0 by (subst slice_loop.simps) auto
next
  case (Suc k)
  have ticks: "pq_ticks (getq q s) = slice_of q" using Suc(3) by (simp add: sched_inv_def mlfq_wf_def)
  show ?case
  proof (cases "pstate s p = RUNNABLE")
    case True
    have "TOTAL s < int NTICKS" using Suc by linarith
    then obtain r where r: "sched_tick run c p s = Ok r" "sched_inv p r" "TOTAL r = TOTAL s + 1"
      using tick [OF Suc(3)] by blast
    have "k = nat (slice_of q - (n + 1))" "n + 1 \<le> slice_of q" using Suc(2) by linarith+
    moreover have "TOTAL r + (slice_of q - (n + 1)) \<le> int NTICKS" using Suc(5) r(3) by linarith
    ultimately obtain m t where m: "slice_loop run c q p (n + 1) r = Some (Ok (m, t))" "n + 1 \<le> m" "m \<le> slice_of q"
      "m = slice_of q \<or> pstate t p \<noteq> RUNNABLE" "TOTAL t = TOTAL r + (m - (n + 1))" "sched_inv p t"
      using Suc(1) [OF _ r(2)] by blast
    have "slice_loop run c q p n s = Some (Ok (m, t))"
      using r(1) m(1) True ticks \<open>n + 1 \<le> slice_of q\<close> by (subst slice_loop.simps) simp
    then show ?thesis using m r(3) by auto
  next
    case False
    then have "slice_loop run c q p n s = Some (Ok (n, s))" by (subst slice_loop.simps) simp
    then show ?thesis using False Suc by auto
  qed
qed

end

text \<open>
  A process that computes until the timer preempts it: it releases the table lock it was given,
  the timer counts one tick, and the first half of \<^verbatim>\<open>yield\<close> takes the lock again and makes the process RUNNABLE.
\<close>

definition quantum :: "nat \<Rightarrow> 'z sched_st_scheme \<Rightarrow> 'z sched_st_scheme kres" where
  "quantum p s =
     kbind (release PtableLock s) (\<lambda>s1.
     kbind (acquire PtableLock (s1\<lparr>ticks := ticks s1 + 1\<rparr>)) (\<lambda>s2.
     Ok (upd_proc p (\<lambda>x. x\<lparr>p_state := RUNNABLE\<rparr>) s2)))"

lemma quantum_ok:
  assumes "sched_inv p u"
  shows "\<exists>t. quantum p u = Ok t \<and> sched_inv p t \<and> TOTAL t = TOTAL u \<and> (\<forall>qi. getq qi t = getq qi u) \<and>
     ticks t = ticks u + 1 \<and> procs t = (procs u)[p := (procs u ! p)\<lparr>p_state := RUNNABLE\<rparr>]"
proof -
  have h: "lock_held PtableLock u" and d: "depth u = 1" using assms by (auto simp: sched_inv_def)
  let ?v = "(rel PtableLock u)\<lparr>ticks := ticks u + 1\<rparr>"
  have core: "same_core ?v (rel PtableLock u)" by (simp add: same_core_def)
  have r: "lock_ready PtableLock ?v" using rel_props(5) [OF h] same_coreD(5) [OF core] by simp
  let ?t = "upd_proc p (\<lambda>x. x\<lparr>p_state := RUNNABLE\<rparr>) (acq PtableLock ?v)"
  have "quantum p u = Ok ?t" using h r by (simp add: quantum_def release_ok acquire_ok)
  moreover have "getq qi ?t = getq qi u" for qi by (cases qi) (simp_all add: acq_def rel_def push_def pop_def Let_def upd_proc_def)
  moreover have lk: "lock_held l ?t = lock_held l u" "depth ?t = depth u" if "l = PtableLock" for l
    using that acq_props(3,5) [OF r] rel_props(3) [OF h] same_coreD(3) [OF core] d h by simp_all
  moreover have pt: "procs ?t = (procs u)[p := (procs u ! p)\<lparr>p_state := RUNNABLE\<rparr>]" by simp
  moreover have "sched_inv p ?t"
  proof -
    have "set (procs ?t) \<subseteq> insert ((procs u ! p)\<lparr>p_state := RUNNABLE\<rparr>) (set (procs u))"
      unfolding pt by (rule set_update_subset_insert)
    then have "stats_wf ?t"
      using assms sched_inv_proc [OF assms]
      by (auto simp: sched_inv_def stats_wf_def acq_def rel_def push_def pop_def Let_def upd_proc_def)
    moreover have "mlfq_wf ?t" using assms calculation(1) \<open>\<And>qi. getq qi ?t = getq qi u\<close> by (simp add: sched_inv_def mlfq_wf_def)
    ultimately show ?thesis
      using assms sched_inv_proc [OF assms] lk by (simp add: sched_inv_def proc_ready_def)
  qed
  ultimately show ?thesis by (intro exI [of _ ?t]) simp
qed

interpretation cpu_bound: process_run "quantum p" p for p
  by unfold_locales (use quantum_ok in blast)

section \<open>A process that computes\<close>

definition ran :: "int \<Rightarrow> proc \<Rightarrow> proc \<Rightarrow> bool" where
  "ran n x y \<longleftrightarrow> p_state y = RUNNABLE \<and> p_priority y = p_priority x \<and> p_Ticks y = p_Ticks x + n \<and>
     p_ticks y = p_ticks x \<and> p_times y = p_times x \<and> p_num_stat_used y = p_num_stat_used x"

lemma quantum_tick:
  assumes "sched_inv p s" and "TOTAL s < int NTICKS"
  shows "\<exists>r. sched_tick (quantum p) c p s = Ok r \<and> sched_inv p r \<and> TOTAL r = TOTAL s + 1 \<and>
     (\<forall>qi. getq qi r = getq qi s) \<and> ran 1 (procs s ! p) (procs r ! p)"
proof -
  define Q :: "'a sched_st_scheme \<Rightarrow> bool" where "Q t \<longleftrightarrow> (\<forall>qi. getq qi t = getq qi s) \<and> p < length (procs t) \<and>
     procs t ! p = (started (ticks s) (procs s ! p))\<lparr>p_state := RUNNABLE\<rparr>" for t
  have run: "\<exists>t. quantum p u = Ok t \<and> sched_inv p t \<and> TOTAL t = TOTAL s \<and> Q t"
    if "sched_inv p u" "keeps s u" "procs u = (procs s)[p := started (ticks s) (procs s ! p)]" for u
    using quantum_ok [OF that(1)] that(2,3) sched_inv_proc(1) [OF assms(1)] by (fastforce simp: keeps_def Q_def)
  obtain t r where r: "sched_tick (quantum p) c p s = Ok r" "sched_inv p r" "TOTAL r = TOTAL s + 1" "Q t"
    "\<forall>qi. getq qi r = getq qi t"
    "procs r = map (account (TOTAL s)) ((procs t)[p := stopped (ticks t) (procs t ! p)])"
    using sched_tick_ok [where run = "quantum p" and c = c and Q = Q, OF assms run] by blast
  then show ?thesis
    by (auto simp: ran_def account_def stopped_def started_def on_stat_def Q_def)
qed

lemma quantum_slice:
  assumes "sched_inv p s" and "pstate s p = RUNNABLE" and "0 \<le> n" and "n \<le> slice_of q"
    and "TOTAL s + (slice_of q - n) \<le> int NTICKS"
  shows "\<exists>r. slice_loop (quantum p) c q p n s = Some (Ok (slice_of q, r)) \<and> sched_inv p r \<and>
     TOTAL r = TOTAL s + (slice_of q - n) \<and> (\<forall>qi. getq qi r = getq qi s) \<and>
     ran (slice_of q - n) (procs s ! p) (procs r ! p)"
  using assms
proof (induction "nat (slice_of q - n)" arbitrary: n s)
  case 0
  have "pq_ticks (getq q s) = slice_of q" using 0(2) by (simp add: sched_inv_def mlfq_wf_def)
  moreover have "n = slice_of q" using 0 by linarith
  ultimately show ?case using 0 by (subst slice_loop.simps) (simp add: ran_def pstate_def)
next
  case (Suc k)
  have ticks: "pq_ticks (getq q s) = slice_of q" using Suc(3) by (simp add: sched_inv_def mlfq_wf_def)
  have "TOTAL s < int NTICKS" using Suc by linarith
  then obtain r where r: "sched_tick (quantum p) c p s = Ok r" "sched_inv p r" "TOTAL r = TOTAL s + 1"
    "\<forall>qi. getq qi r = getq qi s" "ran 1 (procs s ! p) (procs r ! p)"
    using quantum_tick [OF Suc(3)] by blast
  have n: "k = nat (slice_of q - (n + 1))" "n + 1 \<le> slice_of q" using Suc(2) by linarith+
  have "pstate r p = RUNNABLE" using r(5) by (simp add: ran_def pstate_def)
  moreover have "TOTAL r + (slice_of q - (n + 1)) \<le> int NTICKS" using Suc(7) r(3) by linarith
  ultimately obtain t where t: "slice_loop (quantum p) c q p (n + 1) r = Some (Ok (slice_of q, t))" "sched_inv p t"
    "TOTAL t = TOTAL r + (slice_of q - (n + 1))" "\<forall>qi. getq qi t = getq qi r"
    "ran (slice_of q - (n + 1)) (procs r ! p) (procs t ! p)"
    using Suc(1) [OF n(1) r(2) _ _ n(2)] Suc(5) by force
  have "slice_loop (quantum p) c q p n s = Some (Ok (slice_of q, t))"
    using r(1) t(1) Suc(4) ticks n(2) by (subst slice_loop.simps) simp
  then show ?case using t(2-5) r(3-5) by (simp add: ran_def)
qed

text \<open>The whole slice of the process \<^verbatim>\<open>returnProc\<close> picks: the charges, and where it is queued afterwards.\<close>

definition next_level :: "qid \<Rightarrow> int \<Rightarrow> qid" where
  "next_level q k = (if q \<noteq> Q2 then demoted q else if k + slice_of Q2 \<ge> 50 then Q0 else Q2)"

definition next_ticks :: "qid \<Rightarrow> int \<Rightarrow> int" where
  "next_ticks q k = (if q = Q2 \<and> k + slice_of Q2 < 50 then k + slice_of Q2 else 0)"

definition placed :: "qid \<Rightarrow> qid \<Rightarrow> nat \<Rightarrow> (qid \<Rightarrow> nat list) \<Rightarrow> qid \<Rightarrow> nat list" where
  "placed q q' p l = (if q' = q then l else moved q q' p l)"

lemma demoted_neq [simp]: "q \<noteq> Q2 \<Longrightarrow> demoted q \<noteq> q"
  by (cases q) simp_all

lemma prio_cases: "prio q \<in> {0, 1, 2}" "prio q = 2 \<longleftrightarrow> q = Q2" "nat (prio q) < 3" "0 \<le> prio q"
  by (cases q; simp)+

lemma inv_queues:
  assumes "sched_inv p s" and "only_queues s t" and "mlfq_wf t" and "procs t = (procs s)[p := x]" and "proc_ready x"
    and "length (p_queue x) = NTICKS" "length (p_stats x) = NSCHEDSTATS" "length (p_ticks x) = 3" "length (p_times x) = 3"
  shows "sched_inv p t"
proof -
  have p: "p < length (procs s)" by (rule sched_inv_proc(1) [OF assms(1)])
  have "set (procs t) \<subseteq> insert x (set (procs s))" using assms(4) set_update_subset_insert by metis
  moreover have "length (queue0 t) = length (queue0 s)" "length (queue1 t) = length (queue1 s)"
    "length (queue2 t) = length (queue2 s)" "length (name0 t) = length (name0 s)"
    "length (name1 t) = length (name1 s)" "length (name2 t) = length (name2 s)"
    "length (state0 t) = length (state0 s)" "length (state1 t) = length (state1 s)"
    "length (state2 t) = length (state2 s)" "length (procs t) = length (procs s)"
    using assms(2,4) by (auto simp: only_queues_def)
  ultimately have "stats_wf t" using assms(1,6-9) by (auto simp: sched_inv_def stats_wf_def)
  then show ?thesis
    using assms(1,3-5) p only_queuesD(3) [OF assms(2)] same_coreD(3,6) [OF only_queuesD(1) [OF assms(2)]]
    by (simp add: sched_inv_def)
qed

lemma after_slice_ok:
  assumes "sched_inv p s" and "pstate s p = RUNNABLE" and "p_priority (procs s ! p) = prio q"
    and "p \<in> set (level s q)" and "\<forall>q. length (level s q) < NPROC" and "p_num_stat_used (procs s ! p) + 1 < int NSCHEDSTATS"
  defines "k \<equiv> p_Ticks (procs s ! p)"
  defines "q' \<equiv> (if q \<noteq> Q2 then demoted q else if k \<ge> 50 then Q0 else Q2)"
  shows "\<exists>t. after_slice q p s = Ok t \<and> sched_inv p t \<and> TOTAL t = TOTAL s \<and> level t = placed q q' p (level s) \<and>
     p_state (procs t ! p) = RUNNABLE \<and> p_priority (procs t ! p) = prio q' \<and>
     p_Ticks (procs t ! p) = (if q' = q then k else 0) \<and> p_ticks (procs t ! p) = p_ticks (procs s ! p) \<and>
     p_times (procs t ! p) = p_times (procs s ! p) \<and>
     p_num_stat_used (procs t ! p) = p_num_stat_used (procs s ! p) + (if q' = q then 0 else 1)"
proof -
  let ?u = "upd_proc p (\<lambda>x. x\<lparr>p_num_stat_used := p_num_stat_used x + 1\<rparr>) s"
  note i = sched_inv_proc [OF assms(1)]
  have iu: "sched_inv p ?u"
    using i assms(6) by (intro keeps_inv [OF set_state_keeps assms(1), where x = "(procs s ! p)\<lparr>p_num_stat_used := p_num_stat_used (procs s ! p) + 1\<rparr>"])
      (simp_all add: proc_ready_def)
  note iu' = sched_inv_proc [OF iu]
  have wf: "mlfq_wf ?u" "stats_wf ?u" using iu by (simp_all add: sched_inv_def)
  have pu: "p \<in> set (level ?u q)" and len: "length (level ?u qi) < NPROC" for qi using assms(4,5) by simp_all
  have st: "p_state (procs s ! p) = RUNNABLE" using assms(2) by (simp add: pstate_def)
  consider (low) "q \<noteq> Q2" | (boost) "q = Q2" "k \<ge> 50" | (stay) "q = Q2" "k < 50" by fastforce
  then show ?thesis
  proof cases
    case low
    then have q': "q' = demoted q" "q' \<noteq> q" by (cases q; simp add: q'_def)+
    obtain t where t: "degrade q p ?u = Ok t" "mlfq_wf t" "only_queues ?u t" "level t = moved q (demoted q) p (level ?u)"
      "procs t = (procs ?u)[p := (procs ?u ! p)\<lparr>p_Ticks := 0, p_priority := prio (demoted q)\<rparr>]"
      using degrade_spec [OF wf(1) low pu len len] by blast
    have "after_slice q p s = Ok t"
      using t(1) st assms(3) low by (cases q) (simp_all add: after_slice_def Let_def)
    moreover have "sched_inv p t"
      using iu' by (intro inv_queues [OF iu t(3,2,5)]) (use prio_cases(1) [of "demoted q"] in \<open>simp_all add: proc_ready_def\<close>)
    ultimately show ?thesis
      using t q' i(1) st only_queuesD(3) [OF t(3)] by (simp add: placed_def)
  next
    case boost
    then have q': "q' = Q0" by (simp add: q'_def)
    let ?n = "nat (p_num_stat_used (procs ?u ! p))"
    let ?y = "(procs ?u ! p)\<lparr>p_Ticks := 0, p_priority := 0, p_stats := (p_stats (procs ?u ! p))[?n := (p_stats (procs ?u ! p) ! ?n)\<lparr>st_priority := 0\<rparr>]\<rparr>"
    obtain t where t: "boost p ?u = Ok t" "mlfq_wf t" "only_queues ?u t" "level t = moved Q2 Q0 p (level ?u)"
      "procs t = (procs ?u)[p := ?y]"
      using boost_spec [OF wf pu [unfolded boost(1)] len len] iu'(6) unfolding proc_ready_def Let_def by blast
    have "after_slice q p s = Ok t"
      using t(1) st assms(3) boost by (simp add: after_slice_def Let_def k_def)
    moreover have "sched_inv p t"
      using iu' by (intro inv_queues [OF iu t(3,2,5)]) (simp_all add: proc_ready_def)
    ultimately show ?thesis
      using t q' boost i(1) st only_queuesD(3) [OF t(3)] by (simp add: placed_def)
  next
    case stay
    then have "q' = q" by (simp add: q'_def)
    moreover have "after_slice q p s = Ok s" using st assms(3) stay by (simp add: after_slice_def Let_def k_def)
    ultimately show ?thesis using assms(1,3) st by (simp add: placed_def k_def)
  qed
qed

lemma pick_stable:
  assumes "\<And>qi. mset (level t qi) = mset (level s qi)" and "procs t = procs s"
  shows "pick_level t = pick_level s"
proof -
  have "set (level t qi) = set (level s qi)" for qi using assms(1) by (metis set_mset_mset)
  then show ?thesis using assms(2) by (simp add: pick_level_def ready_def pstate_def)
qed

lemma returnProc_front:
  assumes wf: "mlfq_wf s" and ne: "0 < length (level s (pick_level s))" and rd: "ready s (level s (pick_level s) ! 0)"
  shows "returnProc s = Ok (Some (level s (pick_level s) ! 0), s)"
proof -
  let ?pq = "pick_level s"
  let ?q = "getq ?pq s"
  obtain k where k: "scan_runnable (procs s) (pq_queue ?q) (pq_end ?q) 0 = Ok (int k)"
    "k \<le> length (level s ?pq)" "\<forall>j<k. \<not> ready s (level s ?pq ! j)"
    using scan_level [OF wf] by metis
  have k0: "k = 0" using k(3) rd by auto
  have "pq_queue ?q ! 0 = Some (level s ?pq ! 0)"
    using queue_wf_nth [OF mlfq_wf_queue [OF wf], of 0 ?pq] ne by (simp add: level_def)
  then show ?thesis
    using wf k(1) k0 ne mlfq_wf_queue [OF wf, of ?pq, unfolded queue_wf_iff, folded level_def]
      aread_nat [of 0 "pq_queue ?q"]
    by (auto simp: returnProc_def returnQueue_spec Let_def param_defs)
qed

lemma pick_front:
  assumes wf: "mlfq_wf s" and pick: "sched_pick s = Some p"
  shows "\<exists>t. returnProc s = Ok (Some p, t) \<and> mlfq_wf t \<and> only_queues s t \<and> procs t = procs s \<and>
     (\<forall>qi. mset (level t qi) = mset (level s qi)) \<and> returnQueue t = Ok (pick_level s) \<and>
     p \<in> set (level t (pick_level s)) \<and> returnProc t = Ok (Some p, t) \<and> sched_pick t = Some p"
proof -
  obtain k t where t: "returnProc s = Ok (Some p, t)" "mlfq_wf t" "only_queues s t" "procs t = procs s"
      "k < length (level s (pick_level s))" "p = level s (pick_level s) ! k"
      "level t = (level s)(pick_level s := swap_front k (level s (pick_level s)))"
    using returnProc_spec [OF wf] pick by auto
  have m: "mset (level t qi) = mset (level s qi)" for qi using t(7) mset_swap_front [OF t(5)] by simp
  have pl: "pick_level t = pick_level s" using pick_stable m t(4) by blast
  then have rq: "returnQueue t = Ok (pick_level s)" using returnQueue_spec [OF t(2)] by simp
  have "p \<in> set (level s (pick_level s))" using t(5,6) by simp
  then have pt: "p \<in> set (level t (pick_level s))" using m by (metis set_mset_mset)
  have ready: "ready t p" using pick t(4) by (auto simp: sched_pick_def find_Some_iff ready_def pstate_def)
  have ne: "0 < length (level t (pick_level s))" using pt by (auto dest: length_pos_if_in_set)
  have hd: "level t (pick_level s) ! 0 = p" using t(6,7) ne by (simp add: swap_front_def)
  have pickt: "sched_pick t = Some p"
    using find_nth [of 0 "level t (pick_level s)" "ready t"] ne hd ready by (simp add: sched_pick_level pl)
  have "returnProc t = Ok (Some p, t)" using returnProc_front [OF t(2)] ne hd ready by (simp add: pl)
  then show ?thesis using t m rq pt pickt by blast
qed

lemma quantum_sched_slice:
  assumes inv: "sched_inv p s" and pick: "sched_pick s = Some p"
    and prio: "p_priority (procs s ! p) = prio (pick_level s)" and room: "\<forall>q. length (level s q) < NPROC"
    and stats: "p_num_stat_used (procs s ! p) + 1 < int NSCHEDSTATS"
    and tot: "TOTAL s + slice_of (pick_level s) \<le> int NTICKS"
  defines "q \<equiv> pick_level s" and "x \<equiv> procs s ! p"
  defines "q' \<equiv> next_level q (p_Ticks x)"
  shows "\<exists>l t. sched_slice (quantum p) c p s = Ok t \<and> sched_inv p t \<and> TOTAL t = TOTAL s + slice_of q \<and>
     (\<forall>qi. mset (l qi) = mset (level s qi)) \<and> level t = placed q q' p l \<and>
     p_state (procs t ! p) = RUNNABLE \<and> p_priority (procs t ! p) = prio q' \<and>
     p_Ticks (procs t ! p) = next_ticks q (p_Ticks x) \<and>
     p_ticks (procs t ! p) = (p_ticks x)[nat (prio q) := p_ticks x ! nat (prio q) + slice_of q] \<and>
     p_times (procs t ! p) = (p_times x)[nat (prio q) := p_times x ! nat (prio q) + 1] \<and>
     p_num_stat_used (procs t ! p) = p_num_stat_used x + (if q' = q then 0 else 1)"
proof -
  have wf: "mlfq_wf s" using inv by (simp add: sched_inv_def)
  obtain s1 where s1: "returnProc s = Ok (Some p, s1)" "mlfq_wf s1" "only_queues s s1" "procs s1 = procs s"
    "\<forall>qi. mset (level s1 qi) = mset (level s qi)" "returnQueue s1 = Ok q" "p \<in> set (level s1 q)"
    using pick_front [OF wf pick] unfolding q_def by blast
  note i = sched_inv_proc [OF inv]
  have i1: "sched_inv p s1" using i s1(4) by (intro inv_queues [OF inv s1(3,2), where x = x]) (simp_all add: x_def)
  have run1: "pstate s1 p = RUNNABLE" using pick s1(4) by (auto simp: sched_pick_def find_Some_iff ready_def pstate_def)
  have t1: "TOTAL s1 = TOTAL s" using only_queuesD(3) [OF s1(3)] .
  have sl: "0 \<le> slice_of q" "slice_of q \<noteq> 0" by (cases q; simp)+
  obtain s2 where s2: "slice_loop (quantum p) c q p 0 s1 = Some (Ok (slice_of q, s2))" "sched_inv p s2"
    "TOTAL s2 = TOTAL s + slice_of q" "\<forall>qi. getq qi s2 = getq qi s1" "ran (slice_of q) x (procs s2 ! p)"
    using quantum_slice [OF i1 run1 _ sl(1), of c] tot t1 s1(4) by (auto simp: q_def x_def)
  let ?y = "procs s2 ! p" and ?i = "nat (prio q)"
  have y: "p_state ?y = RUNNABLE" "p_priority ?y = prio q" "p_Ticks ?y = p_Ticks x + slice_of q"
    "p_ticks ?y = p_ticks x" "p_times ?y = p_times x" "p_num_stat_used ?y = p_num_stat_used x"
    using s2(5) prio by (auto simp: ran_def q_def x_def)
  let ?u = "upd_proc p (\<lambda>z. z\<lparr>p_ticks := (p_ticks x)[?i := p_ticks x ! ?i + slice_of q], p_times := (p_times x)[?i := p_times x ! ?i + 1]\<rparr>) s2"
  note i2 = sched_inv_proc [OF s2(2)]
  have iu: "sched_inv p ?u"
    using i2 y(4,5) by (intro keeps_inv [OF set_state_keeps s2(2), where x = "?y\<lparr>p_ticks := (p_ticks x)[?i := p_ticks x ! ?i + slice_of q], p_times := (p_times x)[?i := p_times x ! ?i + 1]\<rparr>"])
      (simp_all add: proc_ready_def)
  have lu: "level ?u = level s1" using s2(4) by (simp add: level_def fun_eq_iff)
  have len: "length (level s1 qi) = length (level s qi)" for qi using s1(5) by (metis size_mset)
  have "sched_slice (quantum p) c p s = after_slice q p ?u"
    using s1(1,4,6) s2(1) y i(4,5) prio prio_cases(3,4) [of q]
    by (simp add: sched_slice_def Let_def aread_def awrite_def x_def q_def)
  moreover have "q' = (if q \<noteq> Q2 then demoted q else if p_Ticks (procs ?u ! p) \<ge> 50 then Q0 else Q2)"
    using i2(1) y(3) by (auto simp: q'_def next_level_def)
  ultimately show ?thesis
    using after_slice_ok [OF iu, of q] i2(1) y s1(5,7) lu len room stats s2(3)
    by (intro exI [of _ "level s1"]) (auto simp: pstate_def x_def next_ticks_def next_level_def q'_def split: if_splits)
qed

section \<open>One process alone\<close>

text \<open>
  The feedback policy for one process that only computes: its level, the ticks counted since it
  was enqueued there, and the length of its next slice.
\<close>

type_synonym policy = "qid \<times> int"

definition mlfq_next :: "policy \<Rightarrow> policy" where
  "mlfq_next = (\<lambda>(q, k). (next_level q k, next_ticks q k))"

fun policy_ticks :: "nat \<Rightarrow> policy \<Rightarrow> int" where
  "policy_ticks 0 st = 0"
| "policy_ticks (Suc n) st = slice_of (fst st) + policy_ticks n (mlfq_next st)"

definition lone :: "nat \<Rightarrow> policy \<Rightarrow> 'z sched_st_scheme \<Rightarrow> bool" where
  "lone p st s \<longleftrightarrow> sched_inv p s \<and> level s = (\<lambda>qi. if qi = fst st then [p] else []) \<and>
     pstate s p = RUNNABLE \<and> p_priority (procs s ! p) = prio (fst st) \<and> p_Ticks (procs s ! p) = snd st"

lemma lone_pick:
  assumes "lone p st s"
  shows "sched_pick s = Some p" and "pick_level s = fst st"
  using assms by (cases "fst st"; simp add: lone_def sched_pick_def pick_level_def ready_def)+

lemma mset_singleton_levels:
  assumes "\<And>qi. mset (l qi) = mset (if qi = q then [p] else [])"
  shows "l = (\<lambda>qi. if qi = q then [p] else [])"
proof
  fix qi
  show "l qi = (if qi = q then [p] else [])" using assms [of qi] by (cases "qi = q") auto
qed

lemma placed_singleton: "placed q q' p (\<lambda>qi. if qi = q then [p] else []) = (\<lambda>qi. if qi = q' then [p] else [])"
  by (auto simp: placed_def moved_def Let_def fun_eq_iff)

lemma lone_step:
  assumes "lone p st s" and "TOTAL s + slice_of (fst st) \<le> int NTICKS"
    and "p_num_stat_used (procs s ! p) + 1 < int NSCHEDSTATS"
  shows "\<exists>t. sched_slice (quantum p) c p s = Ok t \<and> lone p (mlfq_next st) t \<and>
     TOTAL t = TOTAL s + slice_of (fst st) \<and> p_num_stat_used (procs t ! p) \<le> p_num_stat_used (procs s ! p) + 1"
proof -
  note pk = lone_pick [OF assms(1)]
  have l: "sched_inv p s" "level s = (\<lambda>qi. if qi = fst st then [p] else [])"
    "p_priority (procs s ! p) = prio (pick_level s)" "p_Ticks (procs s ! p) = snd st"
    using assms(1) pk by (simp_all add: lone_def)
  have room: "\<forall>q. length (level s q) < NPROC" using l(2) by (simp add: param_defs)
  obtain l' t where t: "sched_slice (quantum p) c p s = Ok t" "sched_inv p t" "TOTAL t = TOTAL s + slice_of (fst st)"
      "\<forall>qi. mset (l' qi) = mset (level s qi)" "level t = placed (fst st) (next_level (fst st) (snd st)) p l'"
      "p_state (procs t ! p) = RUNNABLE" "p_priority (procs t ! p) = prio (next_level (fst st) (snd st))"
      "p_Ticks (procs t ! p) = next_ticks (fst st) (snd st)"
      "p_num_stat_used (procs t ! p) = p_num_stat_used (procs s ! p) + (if next_level (fst st) (snd st) = fst st then 0 else 1)"
    using quantum_sched_slice [OF l(1) pk(1) l(3) room assms(3), of c] assms(2) pk(2) l(4) by force
  have "l' = level s" using mset_singleton_levels [of l' "fst st" p] t(4) l(2) by simp
  then show ?thesis
    using t l(2) by (intro exI [of _ t]) (simp add: lone_def mlfq_next_def pstate_def placed_singleton split_beta)
qed

lemma policy_ticks_pos: "0 \<le> policy_ticks n st"
proof (induction n arbitrary: st)
  case (Suc n)
  have "0 \<le> slice_of (fst st)" by (cases "fst st") simp_all
  then show ?case using Suc [of "mlfq_next st"] by simp
qed simp

lemma lone_run:
  assumes "lone p st s" and "TOTAL s + policy_ticks n st \<le> int NTICKS"
    and "p_num_stat_used (procs s ! p) + int n < int NSCHEDSTATS"
  shows "\<exists>t. foldk (\<lambda>_. sched_slice (quantum p) c p) (replicate n ()) s = Ok t \<and> lone p ((mlfq_next ^^ n) st) t \<and>
     TOTAL t = TOTAL s + policy_ticks n st"
  using assms
proof (induction n arbitrary: s st)
  case (Suc n)
  have "TOTAL s + slice_of (fst st) \<le> int NTICKS" using Suc(3) policy_ticks_pos [of n "mlfq_next st"] by simp
  then obtain u where u: "sched_slice (quantum p) c p s = Ok u" "lone p (mlfq_next st) u"
    "TOTAL u = TOTAL s + slice_of (fst st)" "p_num_stat_used (procs u ! p) \<le> p_num_stat_used (procs s ! p) + 1"
    using lone_step [OF Suc(2)] Suc(4) by fastforce
  then show ?case using Suc(1) [OF u(2)] Suc(3,4) by (simp add: funpow_swap1 add.assoc)
qed simp

section \<open>Passes over the table\<close>

text \<open>The body of the loop does nothing but move the pick to the front until it reaches the pick.\<close>

lemma skip_slice:
  assumes "mlfq_wf s" and "sched_pick s = Some r" and "p \<noteq> r"
  shows "\<exists>t. sched_slice run c p s = Ok t \<and> mlfq_wf t \<and> sched_pick t = Some r \<and>
     (\<forall>run c. sched_slice run c r t = sched_slice run c r s)"
proof -
  obtain t where t: "returnProc s = Ok (Some r, t)" "mlfq_wf t" "returnProc t = Ok (Some r, t)" "sched_pick t = Some r"
    using pick_front [OF assms(1,2)] by blast
  then show ?thesis using assms(3) by (intro exI [of _ t]) (auto simp: sched_slice_def)
qed

lemma pass_reaches_pick:
  assumes "mlfq_wf s" and "sched_pick s = Some r" and "\<forall>p \<in> set ps. p \<noteq> r"
  shows "foldk (\<lambda>p. sched_slice (run p) c p) (ps @ r # qs) s =
    kbind (sched_slice (run r) c r s) (foldk (\<lambda>p. sched_slice (run p) c p) qs)"
  using assms
proof (induction ps arbitrary: s)
  case (Cons p ps)
  obtain t where t: "sched_slice (run p) c p s = Ok t" "mlfq_wf t" "sched_pick t = Some r"
    "\<forall>run c. sched_slice run c r t = sched_slice run c r s"
    using skip_slice [OF Cons(2,3), of p "run p" c] Cons(4) by auto
  then show ?case using Cons(1) [OF t(2,3)] Cons(4) by simp
qed simp

text \<open>The pick depends on the process table and the queues only.\<close>

lemma sched_pick_frame:
  "sched_pick (acq l s) = sched_pick s" "sched_pick (sti s) = sched_pick s" "sched_pick (s\<lparr>TOTAL := n\<rparr>) = sched_pick s"
  "mlfq_wf (sti s) = mlfq_wf s" "mlfq_wf (s\<lparr>TOTAL := n\<rparr>) = mlfq_wf s"
proof -
  have q: "getq qi (sti s) = getq qi s" "getq qi (s\<lparr>TOTAL := n\<rparr>) = getq qi s" for qi
    by (cases qi; simp add: sti_def)+
  have p: "procs (sti s) = procs s" by (simp add: sti_def)
  show "sched_pick (acq l s) = sched_pick s" "sched_pick (sti s) = sched_pick s" "sched_pick (s\<lparr>TOTAL := n\<rparr>) = sched_pick s"
    by (simp_all add: sched_pick_def ready_def [abs_def] pstate_def level_def q p del: level_acq_rel)
  show "mlfq_wf (sti s) = mlfq_wf s" "mlfq_wf (s\<lparr>TOTAL := n\<rparr>) = mlfq_wf s"
    by (simp_all add: mlfq_wf_def q p)
qed

section \<open>Sample state\<close>

text \<open>Process 3 alone, RUNNABLE at level 0, with the scheduler holding the table lock.\<close>

definition one_proc :: proc where
  "one_proc = proc_zero\<lparr>p_state := RUNNABLE, p_pid := 4, p_kstack := 0x80500000, p_pgdir := 0x80600000\<rparr>"

lemma one_proc_fields:
  "p_state one_proc = RUNNABLE" "p_priority one_proc = 0" "p_Ticks one_proc = 0" "p_num_stat_used one_proc = 0"
  "proc_ready one_proc"
proof -
  show f: "p_state one_proc = RUNNABLE" "p_priority one_proc = 0" "p_Ticks one_proc = 0" "p_num_stat_used one_proc = 0"
    by (simp_all add: one_proc_def proc_zero_def)
  have "p_kstack one_proc \<noteq> 0" "p_pgdir one_proc \<noteq> 0" by (simp_all add: one_proc_def)
  then show "proc_ready one_proc" using f by (simp add: proc_ready_def pstat_defs)
qed

definition one_base :: sched_st where
  "one_base = sched_of (con_of (vm_of (proc_st_of ((replicate NPROC proc_zero)[3 := one_proc]) (\<lambda>qi. if qi = Q0 then [3] else []))))"

definition one_ex :: "int \<Rightarrow> sched_st" where
  "one_ex n = (acq PtableLock one_base)\<lparr>TOTAL := n\<rparr>"

lemma one_base_quiet: "quiet one_base"
proof -
  have "same_core one_base kmem_ex"
    by (simp add: one_base_def sched_of_def con_of_def vm_of_def proc_st_of_def same_core_def sched_defs)
  then show ?thesis using kmem_ex_quiet same_coreD(7) by blast
qed

lemma sched_of_fields [simp]:
  "procs (sched_of (con_of (vm_of t))) = procs t" "getq qi (sched_of (con_of (vm_of t))) = getq qi t"
  "stats_wf (sched_of (con_of (vm_of t))) = stats_wf t"
  by (cases qi; simp add: sched_of_def con_of_def vm_of_def sched_defs stats_wf_def)+

lemma one_base_fields:
  "procs one_base = (replicate NPROC proc_zero)[3 := one_proc]" "getq qi one_base = pq_of (if qi = Q0 then [3] else []) qi"
  "stats_wf one_base"
proof -
  let ?ps = "(replicate NPROC proc_zero)[3 := one_proc]"
  show "procs one_base = ?ps" "getq qi one_base = pq_of (if qi = Q0 then [3] else []) qi"
    by (simp_all add: one_base_def)
  have "set ?ps \<subseteq> {one_proc, proc_zero}"
    by (rule order_trans [OF set_update_subset_insert]) (simp add: set_replicate_conv_if)
  moreover have "length (p_queue x) = NTICKS \<and> length (p_stats x) = NSCHEDSTATS \<and> length (p_ticks x) = 3 \<and> length (p_times x) = 3"
    if "x = one_proc \<or> x = proc_zero" for x
    using that by (auto simp: one_proc_def proc_zero_def)
  ultimately have "stats_wf (proc_st_of ?ps l)" for l
    by (intro proc_st_of_stats_wf) auto
  then show "stats_wf one_base" by (simp add: one_base_def)
qed

lemma one_ex_fields:
  "procs (one_ex n) = (replicate NPROC proc_zero)[3 := one_proc]" "getq qi (one_ex n) = pq_of (if qi = Q0 then [3] else []) qi"
  "stats_wf (one_ex n)" "TOTAL (one_ex n) = n"
proof -
  show "procs (one_ex n) = (replicate NPROC proc_zero)[3 := one_proc]" using one_base_fields(1) by (simp add: one_ex_def)
  show "TOTAL (one_ex n) = n" by (simp add: one_ex_def)
  have "getq qi (one_ex n) = getq qi one_base" by (cases qi) (simp_all add: one_ex_def acq_def push_def Let_def)
  then show "getq qi (one_ex n) = pq_of (if qi = Q0 then [3] else []) qi" using one_base_fields(2) by simp
  show "stats_wf (one_ex n)" using one_base_fields(3) by (simp add: one_ex_def acq_def push_def Let_def stats_wf_def)
qed

lemma one_ex_lone:
  assumes "0 \<le> n"
  shows "lone 3 (Q0, 0) (one_ex n)"
proof -
  have r: "lock_ready PtableLock one_base" "depth one_base = 0"
    using one_base_quiet quiet_ready by (auto simp: quiet_def)
  have core: "same_core (one_ex n) (acq PtableLock one_base)" by (simp add: one_ex_def same_core_def)
  have lk: "lock_held PtableLock (one_ex n)" "depth (one_ex n) = 1"
    using acq_props(3,5) [OF r(1)] r(2) same_coreD(3,6) [OF core] by simp_all
  have p3: "procs (one_ex n) ! 3 = one_proc" by (simp add: one_ex_fields param_defs)
  have q: "queue_wf (pq_of xs qi) \<and> qlist (pq_of xs qi) = xs" if "xs = [] \<or> xs = [3]" for xs qi
    using that pq_of_wf [of xs qi] by (auto simp: param_defs)
  have "mlfq_wf (one_ex n)"
    using q by (auto simp: mlfq_wf_def one_ex_fields pq_of_def)
  moreover have "level (one_ex n) = (\<lambda>qi. if qi = Q0 then [3] else [])"
    using q by (auto simp: level_def one_ex_fields)
  ultimately show ?thesis
    using assms lk p3 one_proc_fields by (simp add: lone_def sched_inv_def one_ex_fields(3,4) pstate_def) (simp add: param_defs)
qed

section \<open>Properties\<close>







text \<open>
  C32: after 500 ticks the scheduler writes out of bounds.  \<^verbatim>\<open>TOTAL\<close> stops at \<^verbatim>\<open>NTICKS\<close>, one past the
  end of the arrays it indexes, so once that many ticks are counted the next process that is picked
  makes the scheduler store beyond \<^verbatim>\<open>queue0\<close>, \<^verbatim>\<open>queue1\<close> or \<^verbatim>\<open>queue2\<close>.
\<close>

theorem scheduler_overruns:
  assumes "sched_inv p s" and "sched_pick s = Some p" and "TOTAL s = int NTICKS"
  shows "sched_slice run c p s = Fault ''array index out of range''"
proof -
  have wf: "mlfq_wf s" using assms(1) by (simp add: sched_inv_def)
  obtain t where t: "returnProc s = Ok (Some p, t)" "mlfq_wf t" "only_queues s t" "procs t = procs s"
    "returnQueue t = Ok (pick_level s)"
    using pick_front [OF wf assms(2)] by blast
  have i: "sched_inv p t" using sched_inv_proc [OF assms(1)] t(4)
    by (intro inv_queues [OF assms(1) t(3,2), where x = "procs s ! p"]) simp_all
  have run: "pstate t p = RUNNABLE" using assms(2) t(4) by (auto simp: sched_pick_def find_Some_iff ready_def pstate_def)
  have tot: "TOTAL t = int NTICKS" using only_queuesD(3) [OF t(3)] assms(3) by simp
  have "p_priority (procs t ! p) \<in> {0, 1, 2}" "stats_wf t" using i by (auto simp: sched_inv_def proc_ready_def)
  then have "record_run p t = Fault ''array index out of range''"
    using tot by (auto simp: record_run_def Let_def awrite_def stats_wf_def)
  then have "sched_tick run c p t = Fault ''array index out of range''" by (simp add: sched_tick_def)
  moreover have "0 < pq_ticks (getq (pick_level s) t)"
    using t(2) by (cases "pick_level s") (simp_all add: mlfq_wf_def all_qid)
  ultimately have "slice_loop run c (pick_level s) p 0 t = Some (Fault ''array index out of range'')"
    using run by (subst slice_loop.simps) simp
  then show ?thesis using t(1,5) by (simp add: sched_slice_def Let_def)
qed

theorem scheduler_overruns_witness:
  "sched_slice (quantum 3) 0 3 (one_ex 500) = Fault ''array index out of range''"
  using scheduler_overruns [of 3 "one_ex 500" "quantum 3" 0] one_ex_lone [of 500] lone_pick(1) [OF one_ex_lone, of 500]
  by (simp add: lone_def one_ex_fields(4) pstat_defs)

end
