(* ===== verification/Thread.thy ===== *)
theory Thread
  imports Scheduler
begin

text \<open>
  One kernel thread between two context switches: the shared vocabulary of the proofs about the
  components above the scheduler.

  \<open>thr lo p q s\<close>: processor \<^verbatim>\<open>me\<close> runs the kernel thread of process \<open>p\<close>, whose pid is \<open>q\<close>; it holds the one
  spin lock \<open>l\<close> when \<open>lo\<close> is \<open>Some l\<close> and none when \<open>lo\<close> is \<open>None\<close>, and all other spin locks are free.  The lemmas
  say how taking a lock, dropping it and \<^verbatim>\<open>wakeup\<close> move a thread between these states, and what of
  the state they keep.
\<close>

section \<open>Threads\<close>

fun held_only :: "lockid option \<Rightarrow> 'z kcore_scheme \<Rightarrow> bool" where
  "held_only None s = quiet s"
| "held_only (Some l) s = (lock_held l s \<and> depth s = 1 \<and> (\<forall>l'. l' \<noteq> l \<longrightarrow> \<not> lk_locked (locks s l')))"

definition thr :: "lockid option \<Rightarrow> nat \<Rightarrow> int \<Rightarrow> 'z proc_st_scheme \<Rightarrow> bool" where
  "thr lo p q s \<longleftrightarrow> held_only lo s \<and> cur_proc s = Some p \<and> p < NPROC \<and> length (procs s) = NPROC \<and>
     p_pid (procs s ! p) = q"

lemma held_only_cong: "same_core s t \<Longrightarrow> held_only lo s = held_only lo t"
  using same_coreD [of s t] by (cases lo) (simp_all add: same_core_def)

lemma cur_proc_cong: "same_core s t \<Longrightarrow> cur_proc s = cur_proc t"
  using same_coreD(2) [of s t] by (simp add: same_core_def cur_proc_def)

lemma thr_cong: "same_core s t \<Longrightarrow> procs s = procs t \<Longrightarrow> thr lo p q s = thr lo p q t"
  using held_only_cong [of s t] cur_proc_cong [of s t] by (simp add: thr_def)

lemma thr_procsD: "thr lo p q s \<Longrightarrow> cur_proc s = Some p" "thr lo p q s \<Longrightarrow> p < NPROC"
  "thr lo p q s \<Longrightarrow> length (procs s) = NPROC" "thr lo p q s \<Longrightarrow> p_pid (procs s ! p) = q"
  by (simp_all add: thr_def)

lemma thr_held: "thr (Some l) p q s \<Longrightarrow> lock_held l s" "thr (Some l) p q s \<Longrightarrow> depth s = 1"
  "thr (Some l) p q s \<Longrightarrow> l' \<noteq> l \<Longrightarrow> lock_ready l' s"
  by (simp_all add: thr_def lock_ready_def lock_held_def)

lemma thr_quiet: "thr None p q s \<Longrightarrow> quiet s"
  by (simp add: thr_def)

section \<open>Locks\<close>

lemma core_frame [simp]:
  "kcore.more (acq l s) = kcore.more s" "kcore.more (rel l s) = kcore.more s" "me (acq l s) = me s"
  "me (rel l s) = me s"
  by (simp_all add: acq_def push_def rel_def pop_def Let_def)

lemma mem_frame [simp]: "mem (acq l s) = mem s" "mem (rel l s) = mem s"
  by (simp_all add: acq_def push_def rel_def pop_def Let_def)

lemma vm_frame [simp]: "cr3 (acq l s) = cr3 s" "cr3 (rel l s) = cr3 s"
  by (simp_all add: acq_def push_def rel_def pop_def Let_def)

lemma sched_frame [simp]: "sched_st.more (acq l s) = sched_st.more s" "sched_st.more (rel l s) = sched_st.more s"
  by (simp_all add: acq_def push_def rel_def pop_def Let_def)

lemma thr_acquire:
  assumes "thr None p q s"
  shows "acquire l s = Ok (acq l s)" and "thr (Some l) p q (acq l s)"
proof -
  have q: "quiet s" and r: "lock_ready l s" using assms quiet_ready [of s l] by (simp_all add: thr_quiet)
  show "acquire l s = Ok (acq l s)" using r by (rule acquire_ok)
  show "thr (Some l) p q (acq l s)"
    using assms acq_props [OF r] cur_proc_acq [OF r] q by (simp add: thr_def) (simp add: quiet_def)
qed

lemma thr_release:
  assumes "thr (Some l) p q s"
  shows "release l s = Ok (rel l s)" and "thr None p q (rel l s)"
proof -
  have h: "lock_held l s" using assms by (rule thr_held)
  show "release l s = Ok (rel l s)" using h by (rule release_ok)
  have "\<not> lk_locked (locks (rel l s) l')" for l'
    using rel_props(5,6) [OF h] assms by (cases "l' = l") (simp_all add: thr_def lock_ready_def)
  then show "thr None p q (rel l s)"
    using assms rel_props(1,3) [OF h] cur_proc_rel [OF h] by (simp add: thr_def quiet_def)
qed

lemma thr_myproc: "thr (Some l) p q s \<Longrightarrow> myproc s = Ok (Some p, s)"
  using myproc_nested [of s] by (simp add: thr_def lock_held_def)

text \<open>Waking up sleepers with one lock held, or none: only the states of other processes change.\<close>

definition woken :: "chan \<Rightarrow> 'z proc_st_scheme \<Rightarrow> 'z proc_st_scheme" where
  "woken ch s = rel PtableLock ((acq PtableLock s)\<lparr>procs := map (wake ch) (procs s)\<rparr>)"

lemma wake_pid [simp]: "p_pid (wake ch x) = p_pid x" "p_killed (wake ch x) = p_killed x" "p_sz (wake ch x) = p_sz x"
  "p_ofile (wake ch x) = p_ofile x" "p_cwd (wake ch x) = p_cwd x" "p_tf (wake ch x) = p_tf x"
  by (simp_all add: wake_def)

lemma woken_frame [simp]: "procs (woken ch s) = map (wake ch) (procs s)" "me (woken ch s) = me s"
  by (simp_all add: woken_def)

lemma woken_mem [simp]: "mem (woken ch s) = mem s"
  by (simp add: woken_def)

lemma woken_vm [simp]: "cr3 (woken ch s) = cr3 s"
  by (simp add: woken_def)

lemma woken_sched [simp]: "sched_st.more (woken ch s) = sched_st.more s"
  by (simp add: woken_def)

lemma thr_wakeup:
  assumes "thr lo p q s" and "lo \<noteq> Some PtableLock"
  shows "wakeup ch s = Ok (woken ch s)" and "thr lo p q (woken ch s)"
proof -
  let ?a = "acq PtableLock s" and ?t = "(acq PtableLock s)\<lparr>procs := map (wake ch) (procs s)\<rparr>"
  note d = thr_procsD [OF assms(1)]
  have r: "lock_ready PtableLock s"
    using assms quiet_ready [of s] by (cases lo) (auto simp: thr_def lock_ready_def lock_held_def)
  note a = acq_props [OF r]
  show "wakeup ch s = Ok (woken ch s)" using wakeup_ok [OF r d(3)] by (simp add: woken_def)
  have h: "lock_held PtableLock ?t" using a(5) by simp
  have c: "cur_proc (woken ch s) = Some p"
    using cur_proc_rel [OF h] cur_proc_acq [OF r] d(1) by (simp add: woken_def)
  have "held_only lo (woken ch s)"
  proof (cases lo)
    case None
    then show ?thesis
      using quiet_section [of s ?t PtableLock] assms(1) by (simp add: woken_def thr_def)
  next
    case (Some l)
    then have l: "lock_held l s" "depth s = 1" "l \<noteq> PtableLock" and free: "\<And>l'. l' \<noteq> l \<Longrightarrow> \<not> lk_locked (locks s l')"
      using assms by (auto simp: thr_def)
    have hl: "lock_held l ?t" using lock_held_acq [OF r l(1)] l(3) by simp
    have dt: "depth ?t = 2" using a(3) l(2) by simp
    have "lock_held l (rel PtableLock ?t)" using lock_held_rel [OF h hl] l(3) dt by simp
    moreover have "depth (rel PtableLock ?t) = 1" using rel_props(3) [OF h] dt by simp
    moreover have "\<not> lk_locked (locks (rel PtableLock ?t) l')" if "l' \<noteq> l" for l'
      using rel_props(5,6) [OF h] a(6) free [OF that] by (cases "l' = PtableLock") (simp_all add: lock_ready_def)
    ultimately show ?thesis using Some by (simp add: woken_def)
  qed
  then show "thr lo p q (woken ch s)" using c d by (simp add: thr_def)
qed

end
