(* ===== verification/Sleeplock.thy ===== *)
theory Sleeplock
  imports Thread
begin

text \<open>
  Sleep locks: \<^verbatim>\<open>sleeplock.h\<close> and \<^verbatim>\<open>sleeplock.c\<close>.

  As the spin locks are, the sleep locks of the kernel are a function from their names: one for
  each buffer of the block cache and one for each cached inode.  The spin lock inside a sleep
  lock is the lock \<open>guard\<close> of the theory \<open>Spinlock\<close>, and \<open>sl_chan\<close> is the channel its waiters sleep
  on (the address of the sleep lock).  \<open>sw\<close> is \<^verbatim>\<open>swtch\<close>, as in the theory \<open>Proc\<close>.
\<close>

section \<open>State\<close>

datatype slockid = SBuf nat | SInode nat

record sleeplock =
  sl_locked :: bool
  sl_name :: string
  sl_pid :: int

record sleep_st = sched_st +
  slocks :: "slockid \<Rightarrow> sleeplock"

primrec guard :: "slockid \<Rightarrow> lockid" where
  "guard (SBuf i) = BufLk i"
| "guard (SInode i) = InodeLk i"

primrec sl_chan :: "slockid \<Rightarrow> chan" where
  "sl_chan (SBuf i) = ChBufLk i"
| "sl_chan (SInode i) = ChInodeLk i"

definition upd_slock :: "slockid \<Rightarrow> (sleeplock \<Rightarrow> sleeplock) \<Rightarrow> 'z sleep_st_scheme \<Rightarrow> 'z sleep_st_scheme" where
  "upd_slock l f s = s\<lparr>slocks := (slocks s)(l := f (slocks s l))\<rparr>"

section \<open>Operations\<close>

definition initsleeplock :: "slockid \<Rightarrow> string \<Rightarrow> 'z sleep_st_scheme \<Rightarrow> 'z sleep_st_scheme" where
  "initsleeplock l nm s =
     upd_slock l (\<lambda>_. \<lparr>sl_locked = False, sl_name = nm, sl_pid = 0\<rparr>) (initlock (guard l) ''sleep lock'' s)"

definition mypid :: "'z sched_st_scheme \<Rightarrow> (int \<times> 'z sched_st_scheme) kres" where
  "mypid s = kbind (myproc s) (\<lambda>(p, s1). kbind (deref p) (\<lambda>p. Ok (p_pid (procs s1 ! p), s1)))"

partial_function (option) acquiresleep_loop ::
  "('z sleep_st_scheme \<Rightarrow> 'z sleep_st_scheme kres) \<Rightarrow> slockid \<Rightarrow> 'z sleep_st_scheme \<Rightarrow>
     'z sleep_st_scheme kres option"
where
  "acquiresleep_loop sw l s =
     (if sl_locked (slocks s l)
      then kobind (sleep sw (sl_chan l) (Some (guard l)) s) (\<lambda>s1. acquiresleep_loop sw l s1)
      else Some (Ok s))"

definition acquiresleep ::
  "('z sleep_st_scheme \<Rightarrow> 'z sleep_st_scheme kres) \<Rightarrow> slockid \<Rightarrow> 'z sleep_st_scheme \<Rightarrow> 'z sleep_st_scheme kres" where
  "acquiresleep sw l s =
     kbind (acquire (guard l) s) (\<lambda>s1.
     kbind (krun (acquiresleep_loop sw l s1)) (\<lambda>s2.
     kbind (mypid (upd_slock l (\<lambda>x. x\<lparr>sl_locked := True\<rparr>) s2)) (\<lambda>(pid, s3).
     release (guard l) (upd_slock l (\<lambda>x. x\<lparr>sl_pid := pid\<rparr>) s3))))"

definition releasesleep :: "slockid \<Rightarrow> 'z sleep_st_scheme \<Rightarrow> 'z sleep_st_scheme kres" where
  "releasesleep l s =
     kbind (acquire (guard l) s) (\<lambda>s1.
     kbind (wakeup (sl_chan l) (upd_slock l (\<lambda>x. x\<lparr>sl_locked := False, sl_pid := 0\<rparr>) s1))
       (release (guard l)))"

definition holdingsleep :: "slockid \<Rightarrow> 'z sleep_st_scheme \<Rightarrow> (bool \<times> 'z sleep_st_scheme) kres" where
  "holdingsleep l s =
     kbind (acquire (guard l) s) (\<lambda>s1.
     kbind (if sl_locked (slocks s1 l)
            then kbind (mypid s1) (\<lambda>(pid, s2). Ok (sl_pid (slocks s2 l) = pid, s2))
            else Ok (False, s1)) (\<lambda>(r, s2).
     kbind (release (guard l) s2) (\<lambda>s3. Ok (r, s3))))"

section \<open>Frames\<close>

text \<open>A thread does not notice changes of the state above the scheduler.\<close>

lemma thr_slocks [simp]: "thr lo p q (s\<lparr>slocks := x\<rparr>) = thr lo p q s" "thr lo p q (upd_slock l f s) = thr lo p q s"
  by (rule thr_cong; simp add: same_core_def upd_slock_def)+

lemma slocks_upd [simp]:
  "slocks (upd_slock l f s) l' = (if l' = l then f (slocks s l) else slocks s l')"
  by (simp add: upd_slock_def)

lemma upd_slock_more [simp]: "sleep_st.more (upd_slock l f s) = sleep_st.more s"
  "slocks (upd_slock l f s) = (slocks s)(l := f (slocks s l))"
  by (simp_all add: upd_slock_def)

lemma sleep_frame [simp]: "slocks (acq l s) = slocks s" "slocks (rel l s) = slocks s"
  "sleep_st.more (acq l s) = sleep_st.more s" "sleep_st.more (rel l s) = sleep_st.more s"
  "slocks (woken ch s) = slocks s" "sleep_st.more (woken ch s) = sleep_st.more s"
  by (simp_all add: woken_def acq_def push_def rel_def pop_def Let_def)

lemma guard_ptable [simp]: "guard l \<noteq> PtableLock"
  by (cases l) simp_all

section \<open>A free lock is taken, a held one is handed over\<close>

definition sl_take :: "slockid \<Rightarrow> int \<Rightarrow> 'z sleep_st_scheme \<Rightarrow> 'z sleep_st_scheme" where
  "sl_take l q s = upd_slock l (\<lambda>x. x\<lparr>sl_locked := True, sl_pid := q\<rparr>) s"

definition sl_drop :: "slockid \<Rightarrow> 'z sleep_st_scheme \<Rightarrow> 'z sleep_st_scheme" where
  "sl_drop l s = upd_slock l (\<lambda>x. x\<lparr>sl_locked := False, sl_pid := 0\<rparr>) s"

definition sl_held :: "slockid \<Rightarrow> int \<Rightarrow> 'z sleep_st_scheme \<Rightarrow> bool" where
  "sl_held l q s \<longleftrightarrow> sl_locked (slocks s l) \<and> sl_pid (slocks s l) = q"

lemma mypid_in: "thr (Some l) p q s \<Longrightarrow> mypid s = Ok (q, s)"
  using thr_myproc [of l p q s] by (simp add: mypid_def thr_procsD)

lemma acquiresleep_ok:
  assumes "thr None p q s" and "\<not> sl_locked (slocks s l)"
  shows "\<exists>t. acquiresleep sw l s = Ok t \<and> thr None p q t \<and> slocks t = slocks (sl_take l q s) \<and>
     sleep_st.more t = sleep_st.more s"
proof -
  let ?a = "acq (guard l) s"
  let ?b = "upd_slock l (\<lambda>x. x\<lparr>sl_locked := True\<rparr>) ?a"
  let ?c = "upd_slock l (\<lambda>x. x\<lparr>sl_pid := q\<rparr>) ?b"
  note a = thr_acquire [OF assms(1), of "guard l"]
  have c: "thr (Some (guard l)) p q ?c" using a(2) by simp
  have "acquiresleep sw l s = Ok (rel (guard l) ?c)"
    using a(1) assms(2) mypid_in [of "guard l" p q ?b] a(2) thr_release(1) [OF c]
    by (simp add: acquiresleep_def acquiresleep_loop.simps)
  then show ?thesis using thr_release(2) [OF c] by (simp add: sl_take_def)
qed

lemma acquiresleep_blocked:
  assumes "thr None p q s" and "sl_locked (slocks s l)"
  shows "acquiresleep (\<lambda>s. Blocked) l s = Blocked"
proof -
  let ?a = "acq (guard l) s"
  note a = thr_acquire [OF assms(1), of "guard l"]
  have "sleep (\<lambda>s. Blocked) (sl_chan l) (Some (guard l)) ?a = Blocked"
    using sleep_ok(1) [OF guard_ptable thr_held(1,2) [OF a(2)] thr_held(3) [OF a(2)] thr_procsD(1) [OF a(2)],
        of "\<lambda>s. Blocked" "sl_chan l"] thr_procsD(2,3) [OF a(2)] guard_ptable [of l] by (simp del: guard_ptable)
  then show ?thesis
    using a(1) assms(2) by (simp add: acquiresleep_def acquiresleep_loop.simps krun_kobind)
qed

lemma holdingsleep_ok:
  assumes "thr None p q s"
  shows "\<exists>t. holdingsleep l s = Ok (sl_held l q s, t) \<and> thr None p q t \<and> slocks t = slocks s \<and>
     sleep_st.more t = sleep_st.more s"
proof -
  note a = thr_acquire [OF assms(1), of "guard l"]
  have "holdingsleep l s = Ok (sl_held l q s, rel (guard l) (acq (guard l) s))"
    using a(1) mypid_in [OF a(2)] thr_release(1) [OF a(2)] by (simp add: holdingsleep_def sl_held_def)
  then show ?thesis using thr_release(2) [OF a(2)] by simp
qed

lemma releasesleep_ok:
  assumes "thr None p q s"
  shows "\<exists>t. releasesleep l s = Ok t \<and> thr None p q t \<and> slocks t = slocks (sl_drop l s) \<and>
     sleep_st.more t = sleep_st.more s"
proof -
  let ?u = "upd_slock l (\<lambda>x. x\<lparr>sl_locked := False, sl_pid := 0\<rparr>) (acq (guard l) s)"
  note a = thr_acquire [OF assms(1), of "guard l"]
  have u: "thr (Some (guard l)) p q ?u" using a(2) by simp
  note w = thr_wakeup [OF u, of "sl_chan l"]
  have "releasesleep l s = Ok (rel (guard l) (woken (sl_chan l) ?u))"
    using a(1) w thr_release(1) [OF w(2)] by (simp add: releasesleep_def)
  then show ?thesis using thr_release(2) [OF w(2)] by (simp add: sl_drop_def)
qed

end
