(* ===== verification/Bio.thy ===== *)
theory Bio
  imports Sleeplock
begin

unbundle bit_operations_syntax

text \<open>
  The block cache \<^verbatim>\<open>bio.c\<close> on top of the disk in memory, \<^verbatim>\<open>memide.c\<close>.

  The buffers of \<^verbatim>\<open>bcache\<close> are a function from their index; the index \<open>HEAD\<close> is \<^verbatim>\<open>bcache.head\<close>.
  The list through \<^verbatim>\<open>prev\<close> and \<^verbatim>\<open>next\<close> is kept as the links of the source.  The two bits of
  \<^verbatim>\<open>flags\<close> are the fields \<open>b_valid\<close> and \<open>b_dirty\<close>.  \<open>disk\<close> is the contents of the disk by block
  number, and \<open>wlog\<close> a history variable: the blocks written so far, in the order of the writes.

  A call that has to sleep on a lock held by another process gives up the processor: \<open>Blocked\<close>.
\<close>

section \<open>State\<close>

definition BSIZE :: nat where "BSIZE = 512"

record buf =
  b_valid :: bool
  b_dirty :: bool
  b_dev :: "32 word"
  b_blockno :: "32 word"
  b_refcnt :: "32 word"
  b_prev :: nat
  b_next :: nat
  b_data :: "byte list"

record bio_st = sleep_st +
  bufs :: "nat \<Rightarrow> buf"
  disk :: "32 word \<Rightarrow> byte list"
  disksize :: "32 word"
  wlog :: "(32 word \<times> byte list) list"

definition HEAD :: nat where "HEAD = NBUF"

definition upd_buf :: "nat \<Rightarrow> (buf \<Rightarrow> buf) \<Rightarrow> 'z bio_st_scheme \<Rightarrow> 'z bio_st_scheme" where
  "upd_buf i f s = s\<lparr>bufs := (bufs s)(i := f (bufs s i))\<rparr>"

definition switch_away :: "'s \<Rightarrow> 's kres" where
  "switch_away s = Blocked"

section \<open>memide.c\<close>

definition ideinit :: "byte list \<Rightarrow> 32 word \<Rightarrow> 'z bio_st_scheme \<Rightarrow> 'z bio_st_scheme" where
  "ideinit img imgsize s =
     s\<lparr>disk := (\<lambda>b. take BSIZE (drop (unat b * BSIZE) img)), disksize := imgsize div of_nat BSIZE\<rparr>"

definition ideintr :: "'z bio_st_scheme \<Rightarrow> 'z bio_st_scheme" where
  "ideintr s = s"

definition iderw :: "nat \<Rightarrow> 'z bio_st_scheme \<Rightarrow> 'z bio_st_scheme kres" where
  "iderw i s =
     kbind (holdingsleep (SBuf i) s) (\<lambda>(h, s1).
     kbind (panic_if (\<not> h) ''iderw: buf not locked'') (\<lambda>_.
     let b = bufs s1 i in
     kbind (panic_if (b_valid b \<and> \<not> b_dirty b) ''iderw: nothing to do'') (\<lambda>_.
     kbind (panic_if (b_dev b \<noteq> 1) ''iderw: request not for disk 1'') (\<lambda>_.
     kbind (panic_if (b_blockno b \<ge> disksize s1) ''iderw: block out of range'') (\<lambda>_.
     if b_dirty b
     then Ok (upd_buf i (\<lambda>b. b\<lparr>b_valid := True, b_dirty := False\<rparr>)
            (s1\<lparr>disk := (disk s1)(b_blockno b := b_data b), wlog := wlog s1 @ [(b_blockno b, b_data b)]\<rparr>))
     else Ok (upd_buf i (\<lambda>x. x\<lparr>b_valid := True, b_data := disk s1 (b_blockno b)\<rparr>) s1))))))"

section \<open>bio.c\<close>

definition binit_buf :: "nat \<Rightarrow> 'z bio_st_scheme \<Rightarrow> 'z bio_st_scheme" where
  "binit_buf i s =
     (let n = b_next (bufs s HEAD);
          s1 = upd_buf i (\<lambda>b. b\<lparr>b_next := n, b_prev := HEAD\<rparr>) s;
          s2 = initsleeplock (SBuf i) ''buffer'' s1;
          s3 = upd_buf (b_next (bufs s2 HEAD)) (\<lambda>b. b\<lparr>b_prev := i\<rparr>) s2
      in upd_buf HEAD (\<lambda>b. b\<lparr>b_next := i\<rparr>) s3)"

definition binit :: "'z bio_st_scheme \<Rightarrow> 'z bio_st_scheme" where
  "binit s =
     fold binit_buf [0..<NBUF]
       (upd_buf HEAD (\<lambda>b. b\<lparr>b_prev := HEAD, b_next := HEAD\<rparr>) (initlock BcacheLock ''bcache'' s))"

text \<open>The two loops of \<^verbatim>\<open>bget\<close>: forward from the most recently used buffer, and backward from the least
  recently used one.\<close>

partial_function (option) scan_next :: "(nat \<Rightarrow> buf) \<Rightarrow> (buf \<Rightarrow> bool) \<Rightarrow> nat \<Rightarrow> nat option option" where
  "scan_next bs P i =
     (if i = HEAD then Some None else if P (bs i) then Some (Some i) else scan_next bs P (b_next (bs i)))"

partial_function (option) scan_prev :: "(nat \<Rightarrow> buf) \<Rightarrow> (buf \<Rightarrow> bool) \<Rightarrow> nat \<Rightarrow> nat option option" where
  "scan_prev bs P i =
     (if i = HEAD then Some None else if P (bs i) then Some (Some i) else scan_prev bs P (b_prev (bs i)))"

definition bget :: "32 word \<Rightarrow> 32 word \<Rightarrow> 'z bio_st_scheme \<Rightarrow> (nat \<times> 'z bio_st_scheme) kres" where
  "bget dev blockno s =
     kbind (acquire BcacheLock s) (\<lambda>s1.
     case scan_next (bufs s1) (\<lambda>b. b_dev b = dev \<and> b_blockno b = blockno) (b_next (bufs s1 HEAD)) of
       None \<Rightarrow> Spin
     | Some (Some i) \<Rightarrow>
         kbind (release BcacheLock (upd_buf i (\<lambda>b. b\<lparr>b_refcnt := b_refcnt b + 1\<rparr>) s1)) (\<lambda>s2.
         kbind (acquiresleep switch_away (SBuf i) s2) (\<lambda>s3. Ok (i, s3)))
     | Some None \<Rightarrow>
         (case scan_prev (bufs s1) (\<lambda>b. b_refcnt b = 0 \<and> \<not> b_dirty b) (b_prev (bufs s1 HEAD)) of
            None \<Rightarrow> Spin
          | Some (Some i) \<Rightarrow>
              kbind (release BcacheLock (upd_buf i (\<lambda>b. b\<lparr>b_dev := dev, b_blockno := blockno,
                b_valid := False, b_dirty := False, b_refcnt := 1\<rparr>) s1)) (\<lambda>s2.
              kbind (acquiresleep switch_away (SBuf i) s2) (\<lambda>s3. Ok (i, s3)))
          | Some None \<Rightarrow> Panic ''bget: no buffers''))"

definition bread :: "32 word \<Rightarrow> 32 word \<Rightarrow> 'z bio_st_scheme \<Rightarrow> (nat \<times> 'z bio_st_scheme) kres" where
  "bread dev blockno s =
     kbind (bget dev blockno s) (\<lambda>(i, s1).
     if \<not> b_valid (bufs s1 i) then kbind (iderw i s1) (\<lambda>s2. Ok (i, s2)) else Ok (i, s1))"

definition bwrite :: "nat \<Rightarrow> 'z bio_st_scheme \<Rightarrow> 'z bio_st_scheme kres" where
  "bwrite i s =
     kbind (holdingsleep (SBuf i) s) (\<lambda>(h, s1).
     kbind (panic_if (\<not> h) ''bwrite'') (\<lambda>_.
     iderw i (upd_buf i (\<lambda>b. b\<lparr>b_dirty := True\<rparr>) s1)))"

text \<open>Unlinking a buffer and linking it in behind the head, as \<^verbatim>\<open>brelse\<close> does.\<close>

definition move_to_head :: "nat \<Rightarrow> 'z bio_st_scheme \<Rightarrow> 'z bio_st_scheme" where
  "move_to_head i s =
     (let s1 = upd_buf (b_next (bufs s i)) (\<lambda>b. b\<lparr>b_prev := b_prev (bufs s i)\<rparr>) s;
          s2 = upd_buf (b_prev (bufs s1 i)) (\<lambda>b. b\<lparr>b_next := b_next (bufs s1 i)\<rparr>) s1;
          s3 = upd_buf i (\<lambda>b. b\<lparr>b_next := b_next (bufs s2 HEAD)\<rparr>) s2;
          s4 = upd_buf i (\<lambda>b. b\<lparr>b_prev := HEAD\<rparr>) s3;
          s5 = upd_buf (b_next (bufs s4 HEAD)) (\<lambda>b. b\<lparr>b_prev := i\<rparr>) s4
      in upd_buf HEAD (\<lambda>b. b\<lparr>b_next := i\<rparr>) s5)"

definition brelse :: "nat \<Rightarrow> 'z bio_st_scheme \<Rightarrow> 'z bio_st_scheme kres" where
  "brelse i s =
     kbind (holdingsleep (SBuf i) s) (\<lambda>(h, s1).
     kbind (panic_if (\<not> h) ''brelse'') (\<lambda>_.
     kbind (releasesleep (SBuf i) s1) (\<lambda>s2.
     kbind (acquire BcacheLock s2) (\<lambda>s3.
     let s4 = upd_buf i (\<lambda>b. b\<lparr>b_refcnt := b_refcnt b - 1\<rparr>) s3 in
     release BcacheLock (if b_refcnt (bufs s4 i) = 0 then move_to_head i s4 else s4)))))"

section \<open>Words in a block\<close>

text \<open>Little-endian accesses to the bytes of a block.\<close>

definition rd16 :: "byte list \<Rightarrow> nat \<Rightarrow> 16 word" where
  "rd16 bs o' = ucast (bs ! o') OR push_bit 8 (ucast (bs ! (o' + 1)))"

definition rd32 :: "byte list \<Rightarrow> nat \<Rightarrow> 32 word" where
  "rd32 bs o' = ucast (bs ! o') OR push_bit 8 (ucast (bs ! (o' + 1))) OR
     push_bit 16 (ucast (bs ! (o' + 2))) OR push_bit 24 (ucast (bs ! (o' + 3)))"

definition wr16 :: "byte list \<Rightarrow> nat \<Rightarrow> 16 word \<Rightarrow> byte list" where
  "wr16 bs o' w = bs[o' := ucast w, o' + 1 := ucast (drop_bit 8 w)]"

definition wr32 :: "byte list \<Rightarrow> nat \<Rightarrow> 32 word \<Rightarrow> byte list" where
  "wr32 bs o' w = bs[o' := ucast w, o' + 1 := ucast (drop_bit 8 w), o' + 2 := ucast (drop_bit 16 w),
     o' + 3 := ucast (drop_bit 24 w)]"

definition patch :: "byte list \<Rightarrow> nat \<Rightarrow> byte list \<Rightarrow> byte list" where
  "patch bs o' xs = take o' bs @ xs @ drop (o' + length xs) bs"

lemma length_wr [simp]: "length (wr16 bs k v) = length bs" "length (wr32 bs k w) = length bs"
  by (simp_all add: wr16_def wr32_def)

lemma rd32_wr32_same: "k + 4 \<le> length bs \<Longrightarrow> rd32 (wr32 bs k w) k = w"
proof (rule bit_word_eqI)
  fix n :: nat
  assume k: "k + 4 \<le> length bs" and "n < LENGTH(32)"
  then have "n < 32" by simp
  then consider "n < 8" | "8 \<le> n" "n < 16" | "16 \<le> n" "n < 24" | "24 \<le> n" "n < 32" by linarith
  then show "bit (rd32 (wr32 bs k w) k) n = bit w n"
    using k by cases (auto simp: rd32_def wr32_def bit_simps)
qed

lemma rd32_wr32_other: "j + 4 \<le> k \<or> k + 4 \<le> j \<Longrightarrow> rd32 (wr32 bs k w) j = rd32 bs j"
  by (auto simp: rd32_def wr32_def)

lemma rd16_wr16_same: "k + 2 \<le> length bs \<Longrightarrow> rd16 (wr16 bs k w) k = w"
proof (rule bit_word_eqI)
  fix n :: nat
  assume k: "k + 2 \<le> length bs" and "n < LENGTH(16)"
  then have "n < 16" by simp
  then consider "n < 8" | "8 \<le> n" "n < 16" by linarith
  then show "bit (rd16 (wr16 bs k w) k) n = bit w n"
    using k by cases (auto simp: rd16_def wr16_def bit_simps)
qed

lemma rd16_wr16_other: "j + 2 \<le> k \<or> k + 2 \<le> j \<Longrightarrow> rd16 (wr16 bs k w) j = rd16 bs j"
  by (auto simp: rd16_def wr16_def)

lemma rd16_wr32_other: "j + 2 \<le> k \<or> k + 4 \<le> j \<Longrightarrow> rd16 (wr32 bs k w) j = rd16 bs j"
  by (auto simp: rd16_def wr32_def)

lemma rd32_wr16_other: "j + 4 \<le> k \<or> k + 2 \<le> j \<Longrightarrow> rd32 (wr16 bs k w) j = rd32 bs j"
  by (auto simp: rd32_def wr16_def)

section \<open>The list of buffers\<close>

text \<open>\<open>chain bs a xs b\<close>: following \<^verbatim>\<open>next\<close> from \<open>a\<close> leads through the buffers \<open>xs\<close> to \<open>b\<close>, and \<^verbatim>\<open>prev\<close> leads back.\<close>

primrec chain :: "(nat \<Rightarrow> buf) \<Rightarrow> nat \<Rightarrow> nat list \<Rightarrow> nat \<Rightarrow> bool" where
  "chain bs a [] b = (b_next (bs a) = b \<and> b_prev (bs b) = a)"
| "chain bs a (x # xs) b = (b_next (bs a) = x \<and> b_prev (bs x) = a \<and> chain bs x xs b)"

lemma chain_append: "chain bs a (xs @ y # ys) b \<longleftrightarrow> chain bs a xs y \<and> chain bs y ys b"
  by (induction xs arbitrary: a) auto

lemma chain_cong:
  "(\<And>i. i \<in> insert a (set xs) \<Longrightarrow> b_next (bs' i) = b_next (bs i)) \<Longrightarrow>
   (\<And>i. i \<in> insert b (set xs) \<Longrightarrow> b_prev (bs' i) = b_prev (bs i)) \<Longrightarrow> chain bs' a xs b = chain bs a xs b"
  by (induction xs arbitrary: a) auto

lemma scan_next_chain:
  "chain bs a xs HEAD \<Longrightarrow> HEAD \<notin> set xs \<Longrightarrow> scan_next bs P (b_next (bs a)) = Some (find (\<lambda>i. P (bs i)) xs)"
proof (induction xs arbitrary: a)
  case Nil
  then show ?case by (simp add: scan_next.simps)
next
  case (Cons x xs)
  then show ?case by (subst scan_next.simps) auto
qed

lemma scan_prev_chain:
  "chain bs HEAD xs b \<Longrightarrow> HEAD \<notin> set xs \<Longrightarrow> scan_prev bs P (b_prev (bs b)) = Some (find (\<lambda>i. P (bs i)) (rev xs))"
proof (induction xs arbitrary: b rule: rev_induct)
  case Nil
  then show ?case by (simp add: scan_prev.simps)
next
  case (snoc x xs)
  then have "chain bs HEAD xs x" "b_prev (bs b) = x" by (simp_all add: chain_append)
  then show ?case using snoc by (subst scan_prev.simps) auto
qed

text \<open>The list of all buffers, the most recently used first.\<close>

definition lru :: "(nat \<Rightarrow> buf) \<Rightarrow> nat list \<Rightarrow> bool" where
  "lru bs xs \<longleftrightarrow> chain bs HEAD xs HEAD \<and> distinct xs \<and> set xs = {..<NBUF}"

lemma lru_head: "lru bs xs \<Longrightarrow> HEAD \<notin> set xs"
  by (simp add: lru_def HEAD_def)

lemma lru_cong: "(\<And>i. b_next (bs' i) = b_next (bs i)) \<Longrightarrow> (\<And>i. b_prev (bs' i) = b_prev (bs i)) \<Longrightarrow> lru bs' xs = lru bs xs"
  using chain_cong [of HEAD xs bs' bs HEAD] by (simp add: lru_def)

definition set_next :: "nat \<Rightarrow> nat \<Rightarrow> (nat \<Rightarrow> buf) \<Rightarrow> nat \<Rightarrow> buf" where
  "set_next i v bs = bs(i := (bs i)\<lparr>b_next := v\<rparr>)"

definition set_prev :: "nat \<Rightarrow> nat \<Rightarrow> (nat \<Rightarrow> buf) \<Rightarrow> nat \<Rightarrow> buf" where
  "set_prev i v bs = bs(i := (bs i)\<lparr>b_prev := v\<rparr>)"

lemma set_links [simp]:
  "b_next (set_next i v bs j) = (if j = i then v else b_next (bs j))" "b_prev (set_next i v bs j) = b_prev (bs j)"
  "b_prev (set_prev i v bs j) = (if j = i then v else b_prev (bs j))" "b_next (set_prev i v bs j) = b_next (bs j)"
  by (simp_all add: set_next_def set_prev_def)

definition relink :: "nat \<Rightarrow> (nat \<Rightarrow> buf) \<Rightarrow> nat \<Rightarrow> buf" where
  "relink i bs =
     (let b1 = set_prev (b_next (bs i)) (b_prev (bs i)) bs;
          b2 = set_next (b_prev (b1 i)) (b_next (b1 i)) b1;
          b3 = set_next i (b_next (b2 HEAD)) b2;
          b4 = set_prev i HEAD b3;
          b5 = set_prev (b_next (b4 HEAD)) i b4
      in set_next HEAD i b5)"

lemma upd_links:
  "upd_buf i (\<lambda>b. b\<lparr>b_prev := v\<rparr>) s = s\<lparr>bufs := set_prev i v (bufs s)\<rparr>"
  "upd_buf i (\<lambda>b. b\<lparr>b_next := v\<rparr>) s = s\<lparr>bufs := set_next i v (bufs s)\<rparr>"
  by (simp_all add: upd_buf_def set_next_def set_prev_def)

lemma move_to_head_eq: "move_to_head i s = s\<lparr>bufs := relink i (bufs s)\<rparr>"
  by (simp add: move_to_head_def relink_def upd_links Let_def)

lemma chain_ends: "chain bs a xs b \<Longrightarrow> b_prev (bs b) = last (a # xs) \<and> b_next (bs a) = hd (xs @ [b])"
  by (induction xs arbitrary: a) auto

lemma chain_unlink:
  assumes "chain bs a (xs @ i # ys) b" and "distinct (a # xs @ i # ys)" and "distinct (xs @ i # ys @ [b])"
    and "p = b_prev (bs i)" and "n = b_next (bs i)"
    and "\<And>j. j \<noteq> i \<Longrightarrow> b_next (bs' j) = (if j = p then n else b_next (bs j))"
    and "\<And>j. j \<noteq> i \<Longrightarrow> b_prev (bs' j) = (if j = n then p else b_prev (bs j))"
  shows "chain bs' a (xs @ ys) b"
  using assms(1-3)
proof (induction xs arbitrary: a)
  case Nil
  then have p: "p = a" and c: "chain bs i ys b" using assms(4) by simp_all
  show ?case
  proof (cases ys)
    case Nil
    then show ?thesis using p c assms(5-7) Nil.prems by simp
  next
    case (Cons y zs)
    then have "n = y" using c assms(5) by simp
    moreover have "chain bs' y zs b = chain bs y zs b"
    proof (rule chain_cong)
      fix j assume "j \<in> insert y (set zs)"
      then have "j \<noteq> i" "j \<noteq> p" using Nil.prems(2) p Cons by auto
      then show "b_next (bs' j) = b_next (bs j)" by (simp add: assms(6))
    next
      fix j assume "j \<in> insert b (set zs)"
      then have "j \<noteq> i" "j \<noteq> n" using Nil.prems(3) \<open>n = y\<close> Cons by auto
      then show "b_prev (bs' j) = b_prev (bs j)" by (simp add: assms(7))
    qed
    ultimately show ?thesis using p c assms(6,7) Cons Nil.prems by simp
  qed
next
  case (Cons x xs)
  have e: "p = last (x # xs)" "n = hd (ys @ [b])"
    using Cons.prems(1) chain_ends [of bs x xs i] chain_ends [of bs i ys b] assms(4,5) by (simp_all add: chain_append)
  have "p \<in> set (x # xs)" unfolding e(1) by (rule last_in_set) simp
  moreover have "n \<in> set (ys @ [b])" unfolding e(2) by (rule hd_in_set) simp
  ultimately have "a \<noteq> p" "x \<noteq> n" using Cons.prems(2,3) by auto
  moreover have "chain bs' x (xs @ ys) b" using Cons.IH Cons.prems by auto
  ultimately show ?case using Cons.prems assms(6,7) by auto
qed

lemma chain_link_head:
  assumes "chain bs h zs h" and "i \<notin> set (h # zs)" and "h \<notin> set zs" and "distinct zs"
    and "\<And>j. b_next (bs' j) = (if j = h then i else if j = i then b_next (bs h) else b_next (bs j))"
    and "\<And>j. b_prev (bs' j) = (if j = b_next (bs h) then i else if j = i then h else b_prev (bs j))"
  shows "chain bs' h (i # zs) h"
proof (cases zs)
  case Nil
  then show ?thesis using assms by simp
next
  case (Cons z ys)
  have "chain bs' z ys h = chain bs z ys h"
    using assms Cons by (intro chain_cong) auto
  then show ?thesis using assms Cons by auto
qed

lemma relink_links:
  assumes "b_next (bs i) \<noteq> i" and "b_prev (bs i) \<noteq> i" and "i \<noteq> HEAD"
  defines "h \<equiv> (if b_prev (bs i) = HEAD then b_next (bs i) else b_next (bs HEAD))"
  shows "b_next (relink i bs j) = (if j = HEAD then i else if j = i then h
            else if j = b_prev (bs i) then b_next (bs i) else b_next (bs j))"
    and "h \<noteq> i \<Longrightarrow> b_prev (relink i bs j) = (if j = h then i else if j = i then HEAD
            else if j = b_next (bs i) then b_prev (bs i) else b_prev (bs j))"
  using assms by (auto simp: relink_def Let_def)

lemma lru_relink:
  assumes "lru bs (xs @ i # ys)"
  shows "lru (relink i bs) (i # xs @ ys)"
proof -
  from assms have c: "chain bs HEAD (xs @ i # ys) HEAD" and d: "distinct (xs @ i # ys)" and s: "set (xs @ i # ys) = {..<NBUF}"
    by (simp_all add: lru_def)
  have h: "HEAD \<notin> set (xs @ i # ys)" using lru_head [OF assms] .
  have e: "b_prev (bs i) = last (HEAD # xs)" "b_next (bs i) = hd (ys @ [HEAD])" "b_next (bs HEAD) = hd (xs @ [i])"
    using c chain_ends [of bs HEAD xs i] chain_ends [of bs i ys HEAD] by (simp_all add: chain_append)
  have p: "b_prev (bs i) \<in> set (HEAD # xs)" unfolding e(1) by (rule last_in_set) simp
  have n: "b_next (bs i) \<in> set (ys @ [HEAD])" unfolding e(2) by (rule hd_in_set) simp
  have ne: "b_next (bs i) \<noteq> i" "b_prev (bs i) \<noteq> i" "i \<noteq> HEAD" using p n d h by auto
  define u where "u = bs(b_prev (bs i) := (bs (b_prev (bs i)))\<lparr>b_next := b_next (bs i)\<rparr>)"
  define v where "v = u(b_next (bs i) := (u (b_next (bs i)))\<lparr>b_prev := b_prev (bs i)\<rparr>)"
  have v: "b_next (v j) = (if j = b_prev (bs i) then b_next (bs i) else b_next (bs j))"
    "b_prev (v j) = (if j = b_next (bs i) then b_prev (bs i) else b_prev (bs j))" for j
    by (simp_all add: u_def v_def)
  have cv: "chain v HEAD (xs @ ys) HEAD"
    by (rule chain_unlink [OF c _ _ refl refl]) (use d h v in simp_all)
  have hv: "b_next (v HEAD) = hd (xs @ ys @ [HEAD])" using chain_ends [OF cv] by simp
  have "hd (xs @ ys @ [HEAD]) \<in> set (xs @ ys @ [HEAD])" by (rule hd_in_set) simp
  then have hi: "b_next (v HEAD) \<noteq> i" using hv d h by auto
  have "chain (relink i bs) HEAD (i # xs @ ys) HEAD"
  proof (rule chain_link_head [OF cv])
    show "b_next (relink i bs j) = (if j = HEAD then i else if j = i then b_next (v HEAD) else b_next (v j))" for j
      using relink_links(1) [where bs = bs and i = i, OF ne] v(1) by auto
    show "b_prev (relink i bs j) = (if j = b_next (v HEAD) then i else if j = i then HEAD else b_prev (v j))" for j
      using relink_links(2) [where bs = bs and i = i, OF ne] v hi by auto
  qed (use d h in auto)
  then show ?thesis using d s by (auto simp: lru_def)
qed

lemma set_links_fields [simp]:
  "b_valid (set_next i v bs j) = b_valid (bs j)" "b_dirty (set_next i v bs j) = b_dirty (bs j)"
  "b_dev (set_next i v bs j) = b_dev (bs j)" "b_blockno (set_next i v bs j) = b_blockno (bs j)"
  "b_refcnt (set_next i v bs j) = b_refcnt (bs j)" "b_data (set_next i v bs j) = b_data (bs j)"
  "b_valid (set_prev i v bs j) = b_valid (bs j)" "b_dirty (set_prev i v bs j) = b_dirty (bs j)"
  "b_dev (set_prev i v bs j) = b_dev (bs j)" "b_blockno (set_prev i v bs j) = b_blockno (bs j)"
  "b_refcnt (set_prev i v bs j) = b_refcnt (bs j)" "b_data (set_prev i v bs j) = b_data (bs j)"
  by (simp_all add: set_next_def set_prev_def)

lemma relink_fields [simp]:
  "b_valid (relink i bs j) = b_valid (bs j)" "b_dirty (relink i bs j) = b_dirty (bs j)"
  "b_dev (relink i bs j) = b_dev (bs j)" "b_blockno (relink i bs j) = b_blockno (bs j)"
  "b_refcnt (relink i bs j) = b_refcnt (bs j)" "b_data (relink i bs j) = b_data (bs j)"
  by (simp_all add: relink_def Let_def)

section \<open>The invariant of the cache\<close>

text \<open>
  A buffer is referenced while it is locked (no process waits for it); only valid buffers are
  dirty; a valid buffer caches a block of the disk, and when it is neither dirty nor locked it holds
  what the disk holds.  No block is cached twice.
\<close>

definition buf_ok :: "'z bio_st_scheme \<Rightarrow> nat \<Rightarrow> bool" where
  "buf_ok s i \<longleftrightarrow> (let b = bufs s i; lk = sl_locked (slocks s (SBuf i)) in
     b_refcnt b = (if lk then 1 else 0) \<and> (b_dirty b \<longrightarrow> b_valid b) \<and>
     (b_valid b \<longrightarrow> b_dev b = 1 \<and> b_blockno b < disksize s \<and> length (b_data b) = BSIZE) \<and>
     (b_valid b \<and> \<not> b_dirty b \<and> \<not> lk \<longrightarrow> b_data b = disk s (b_blockno b)))"

definition cinv :: "'z bio_st_scheme \<Rightarrow> bool" where
  "cinv s \<longleftrightarrow> (\<exists>xs. lru (bufs s) xs) \<and> (\<forall>i<NBUF. buf_ok s i) \<and>
     (\<forall>i<NBUF. \<forall>j<NBUF. b_dev (bufs s i) = 1 \<and> b_dev (bufs s j) = 1 \<and> b_blockno (bufs s i) = b_blockno (bufs s j) \<longrightarrow> i = j) \<and>
     (\<forall>b<disksize s. length (disk s b) = BSIZE)"

text \<open>What a process reads in block \<open>b\<close>: the cached copy if there is one, else the disk.\<close>

definition contents :: "'z bio_st_scheme \<Rightarrow> 32 word \<Rightarrow> byte list" where
  "contents s b =
     (case find (\<lambda>i. b_valid (bufs s i) \<and> b_blockno (bufs s i) = b) [0..<NBUF] of
        Some i \<Rightarrow> b_data (bufs s i)
      | None \<Rightarrow> disk s b)"

definition busy :: "'z bio_st_scheme \<Rightarrow> nat set" where
  "busy s = {i. i < NBUF \<and> (sl_locked (slocks s (SBuf i)) \<or> b_dirty (bufs s i))}"

definition dirtyb :: "'z bio_st_scheme \<Rightarrow> 32 word set" where
  "dirtyb s = {b_blockno (bufs s i) |i. i < NBUF \<and> b_dirty (bufs s i)}"

definition heldb :: "'z bio_st_scheme \<Rightarrow> 32 word set" where
  "heldb s = {b_blockno (bufs s i) |i. i < NBUF \<and> b_dev (bufs s i) = 1 \<and> sl_locked (slocks s (SBuf i))}"

text \<open>Process \<open>q\<close> has buffer \<open>i\<close> locked, and it holds block \<open>b\<close>.\<close>

definition owns :: "int \<Rightarrow> nat \<Rightarrow> 32 word \<Rightarrow> 'z bio_st_scheme \<Rightarrow> bool" where
  "owns q i b s \<longleftrightarrow> i < NBUF \<and> sl_held (SBuf i) q s \<and> b_valid (bufs s i) \<and> b_blockno (bufs s i) = b"

lemma cinv_inj:
  "cinv s \<Longrightarrow> i < NBUF \<Longrightarrow> j < NBUF \<Longrightarrow> b_dev (bufs s i) = 1 \<Longrightarrow> b_dev (bufs s j) = 1 \<Longrightarrow>
     b_blockno (bufs s i) = b_blockno (bufs s j) \<Longrightarrow> i = j"
  by (simp add: cinv_def)

lemma cinv_buf: "cinv s \<Longrightarrow> i < NBUF \<Longrightarrow> buf_ok s i"
  by (simp add: cinv_def)

lemma cinv_disk: "cinv s \<Longrightarrow> b < disksize s \<Longrightarrow> length (disk s b) = BSIZE"
  by (simp add: cinv_def)

lemma buf_okD: "buf_ok s i \<Longrightarrow> b_valid (bufs s i) \<Longrightarrow> b_dev (bufs s i) = 1"
  "buf_ok s i \<Longrightarrow> b_valid (bufs s i) \<Longrightarrow> b_blockno (bufs s i) < disksize s"
  "buf_ok s i \<Longrightarrow> b_valid (bufs s i) \<Longrightarrow> length (b_data (bufs s i)) = BSIZE"
  "buf_ok s i \<Longrightarrow> b_dirty (bufs s i) \<Longrightarrow> b_valid (bufs s i)"
  "buf_ok s i \<Longrightarrow> b_refcnt (bufs s i) = (if sl_locked (slocks s (SBuf i)) then 1 else 0)"
  "buf_ok s i \<Longrightarrow> b_valid (bufs s i) \<Longrightarrow> \<not> b_dirty (bufs s i) \<Longrightarrow> \<not> sl_locked (slocks s (SBuf i)) \<Longrightarrow>
     b_data (bufs s i) = disk s (b_blockno (bufs s i))"
  by (simp_all add: buf_ok_def Let_def)

lemma contents_hit:
  assumes "cinv s" and "i < NBUF" and "b_valid (bufs s i)" and "b_blockno (bufs s i) = b"
  shows "contents s b = b_data (bufs s i)"
proof -
  let ?P = "\<lambda>i. b_valid (bufs s i) \<and> b_blockno (bufs s i) = b"
  have "find ?P [0..<NBUF] \<noteq> None" using assms by (auto simp: find_None_iff)
  then obtain j where j: "find ?P [0..<NBUF] = Some j" by blast
  then have "j < NBUF" "?P j" by (auto simp: find_Some_iff)
  then have "j = i" using assms by (intro cinv_inj [OF assms(1)]) (auto intro: buf_okD cinv_buf)
  then show ?thesis using j by (simp add: contents_def)
qed

lemma contents_miss:
  assumes "\<And>i. i < NBUF \<Longrightarrow> b_valid (bufs s i) \<Longrightarrow> b_blockno (bufs s i) \<noteq> b"
  shows "contents s b = disk s b"
proof -
  have "find (\<lambda>i. b_valid (bufs s i) \<and> b_blockno (bufs s i) = b) [0..<NBUF] = None"
    using assms by (auto simp: find_None_iff)
  then show ?thesis by (simp add: contents_def)
qed

lemma contents_cong:
  assumes "\<And>j. b_valid (bufs t j) = b_valid (bufs s j)" and "\<And>j. b_blockno (bufs t j) = b_blockno (bufs s j)"
    and "\<And>j. b_data (bufs t j) = b_data (bufs s j)" and "disk t = disk s"
  shows "contents t = contents s"
  by (intro ext) (simp add: contents_def assms split: option.split)

text \<open>The contents only depend on which valid buffer holds a block.\<close>

lemma contents_eqI:
  assumes "cinv s" and "cinv t"
    and "\<And>i. i < NBUF \<Longrightarrow> b_valid (bufs t i) \<Longrightarrow> b_blockno (bufs t i) = b \<Longrightarrow> contents s b = b_data (bufs t i)"
    and "(\<And>i. i < NBUF \<Longrightarrow> b_valid (bufs t i) \<Longrightarrow> b_blockno (bufs t i) \<noteq> b) \<Longrightarrow> contents s b = disk t b"
  shows "contents t b = contents s b"
proof (cases "\<exists>i<NBUF. b_valid (bufs t i) \<and> b_blockno (bufs t i) = b")
  case True
  then show ?thesis using assms(3) contents_hit [OF assms(2)] by force
next
  case False
  then show ?thesis using assms(4) contents_miss [of t b] by force
qed

section \<open>Frames\<close>

lemma thr_bio [simp]: "thr lo p q (s\<lparr>bufs := x\<rparr>) = thr lo p q s" "thr lo p q (upd_buf i f s) = thr lo p q s"
  "thr lo p q (s\<lparr>disk := d\<rparr>) = thr lo p q s" "thr lo p q (s\<lparr>wlog := w\<rparr>) = thr lo p q s"
  by (rule thr_cong; simp add: same_core_def upd_buf_def)+

lemma bio_frame [simp]: "bufs (acq l s) = bufs s" "bufs (rel l s) = bufs s" "disk (acq l s) = disk s" "disk (rel l s) = disk s"
  "disksize (acq l s) = disksize s" "disksize (rel l s) = disksize s" "wlog (acq l s) = wlog s" "wlog (rel l s) = wlog s"
  "bio_st.more (acq l s) = bio_st.more s" "bio_st.more (rel l s) = bio_st.more s"
  by (simp_all add: acq_def push_def rel_def pop_def Let_def)

lemma upd_buf_fields [simp]: "bufs (upd_buf i f s) = (bufs s)(i := f (bufs s i))" "slocks (upd_buf i f s) = slocks s"
  "disk (upd_buf i f s) = disk s" "disksize (upd_buf i f s) = disksize s" "wlog (upd_buf i f s) = wlog s"
  "bio_st.more (upd_buf i f s) = bio_st.more s"
  by (simp_all add: upd_buf_def)

text \<open>The state of the cache and everything above it.\<close>

definition same_bio :: "'z bio_st_scheme \<Rightarrow> 'z bio_st_scheme \<Rightarrow> bool" where
  "same_bio s t \<longleftrightarrow> slocks s = slocks t \<and> bufs s = bufs t \<and> disk s = disk t \<and> disksize s = disksize t \<and>
     wlog s = wlog t \<and> bio_st.more s = bio_st.more t"

lemma sleep_more_iff:
  "sleep_st.more t = sleep_st.more s \<longleftrightarrow> bufs t = bufs s \<and> disk t = disk s \<and> disksize t = disksize s \<and>
     wlog t = wlog s \<and> bio_st.more t = bio_st.more s"
  for s t :: "'z bio_st_scheme"
  by (cases s; cases t; simp)

lemma same_bioD:
  assumes "same_bio s t"
  shows "cinv s = cinv t" "contents s = contents t" "busy s = busy t" "dirtyb s = dirtyb t" "heldb s = heldb t"
    "owns q i b s = owns q i b t" "bufs s = bufs t" "slocks s = slocks t" "disk s = disk t" "disksize s = disksize t"
    "wlog s = wlog t" "bio_st.more s = bio_st.more t"
proof -
  show "contents s = contents t" using assms by (intro ext) (simp add: same_bio_def contents_def split: option.split)
  show "cinv s = cinv t" "busy s = busy t" "dirtyb s = dirtyb t" "heldb s = heldb t" "owns q i b s = owns q i b t"
    "bufs s = bufs t" "slocks s = slocks t" "disk s = disk t" "disksize s = disksize t"
    "wlog s = wlog t" "bio_st.more s = bio_st.more t"
    using assms by (simp_all add: same_bio_def cinv_def buf_ok_def busy_def dirtyb_def heldb_def owns_def sl_held_def)
qed

lemma same_bio_refl [simp]: "same_bio s s"
  by (simp add: same_bio_def)

lemma same_bio_trans: "same_bio s t \<Longrightarrow> same_bio t u \<Longrightarrow> same_bio s u"
  by (simp add: same_bio_def)

lemma same_bio_locks [simp]: "same_bio (acq l s) t = same_bio s t" "same_bio (rel l s) t = same_bio s t"
  by (simp_all add: same_bio_def)

lemma sl_bio [simp]: "bufs (upd_slock l f s) = bufs s" "disk (upd_slock l f s) = disk s" "disksize (upd_slock l f s) = disksize s"
  "wlog (upd_slock l f s) = wlog s" "bio_st.more (upd_slock l f s) = bio_st.more s"
  by (simp_all add: upd_slock_def)

lemma acquiresleep_bio:
  "thr None p q s \<Longrightarrow> \<not> sl_locked (slocks s l) \<Longrightarrow>
     \<exists>t. acquiresleep sw l s = Ok t \<and> thr None p q t \<and> same_bio t (sl_take l q s)"
  using acquiresleep_ok [of p q s l sw] by (auto simp: same_bio_def sl_take_def sleep_more_iff)

lemma holdingsleep_bio: "thr None p q s \<Longrightarrow> \<exists>t. holdingsleep l s = Ok (sl_held l q s, t) \<and> thr None p q t \<and> same_bio t s"
  using holdingsleep_ok [of p q s l] by (auto simp: same_bio_def sleep_more_iff)

lemma releasesleep_bio:
  "thr None p q s \<Longrightarrow> \<exists>t. releasesleep l s = Ok t \<and> thr None p q t \<and> same_bio t (sl_drop l s)"
  using releasesleep_ok [of p q s l] by (auto simp: same_bio_def sl_drop_def sleep_more_iff)

section \<open>The operations on the cache\<close>

definition ide_write :: "nat \<Rightarrow> 'z bio_st_scheme \<Rightarrow> 'z bio_st_scheme" where
  "ide_write i s = (let b = bufs s i in
     upd_buf i (\<lambda>b. b\<lparr>b_valid := True, b_dirty := False\<rparr>)
       (s\<lparr>disk := (disk s)(b_blockno b := b_data b), wlog := wlog s @ [(b_blockno b, b_data b)]\<rparr>))"

definition ide_read :: "nat \<Rightarrow> 'z bio_st_scheme \<Rightarrow> 'z bio_st_scheme" where
  "ide_read i s = upd_buf i (\<lambda>x. x\<lparr>b_valid := True, b_data := disk s (b_blockno (bufs s i))\<rparr>) s"

lemma ide_bio: "same_bio s t \<Longrightarrow> same_bio (ide_read i s) (ide_read i t)" "same_bio s t \<Longrightarrow> same_bio (ide_write i s) (ide_write i t)"
  by (simp_all add: same_bio_def ide_read_def ide_write_def Let_def)

lemma ide_thr [simp]: "thr lo p q (ide_read i s) = thr lo p q s" "thr lo p q (ide_write i s) = thr lo p q s"
  by (simp_all add: ide_read_def ide_write_def Let_def)

lemma iderw_ok:
  assumes "thr None p q s" and "sl_held (SBuf i) q s" and "b_dev (bufs s i) = 1" and "b_blockno (bufs s i) < disksize s"
    and "b_dirty (bufs s i) \<or> \<not> b_valid (bufs s i)"
  shows "\<exists>t. iderw i s = Ok t \<and> thr None p q t \<and> same_bio t (if b_dirty (bufs s i) then ide_write i s else ide_read i s)"
proof -
  obtain u where u: "holdingsleep (SBuf i) s = Ok (True, u)" "thr None p q u" "same_bio u s"
    using holdingsleep_bio [OF assms(1), of "SBuf i"] assms(2) by auto
  note e = same_bioD(7,9,10) [OF u(3)]
  have "iderw i s = Ok (if b_dirty (bufs s i) then ide_write i u else ide_read i u)"
    using u(1) e assms(3,5) linorder_not_le [THEN iffD2, OF assms(4)]
    by (auto simp: iderw_def Let_def ide_write_def ide_read_def)
  then show ?thesis using u(2,3) ide_bio [OF u(3), of i] by auto
qed

lemma bget_found:
  assumes "thr None p q s" and "cinv s" and "i < NBUF" and "b_dev (bufs s i) = 1" and "b_blockno (bufs s i) = b"
    and "\<not> sl_locked (slocks s (SBuf i))"
  shows "\<exists>t. bget 1 b s = Ok (i, t) \<and> thr None p q t \<and>
     same_bio t (sl_take (SBuf i) q (upd_buf i (\<lambda>b. b\<lparr>b_refcnt := b_refcnt b + 1\<rparr>) s))"
proof -
  let ?P = "\<lambda>b'. b_dev b' = 1 \<and> b_blockno b' = b"
  obtain xs where xs: "lru (bufs s) xs" using assms(2) by (auto simp: cinv_def)
  then have c: "chain (bufs s) HEAD xs HEAD" and m: "set xs = {..<NBUF}" by (simp_all add: lru_def)
  have "find (\<lambda>i. ?P (bufs s i)) xs = Some i"
  proof -
    have "find (\<lambda>i. ?P (bufs s i)) xs \<noteq> None" using assms(3-5) m by (auto simp: find_None_iff)
    then obtain j where j: "find (\<lambda>i. ?P (bufs s i)) xs = Some j" by blast
    then have "j \<in> set xs" "?P (bufs s j)" by (auto simp: find_Some_iff)
    then have "j = i" using assms(3-5) m by (intro cinv_inj [OF assms(2)]) auto
    with j show ?thesis by simp
  qed
  then have f: "scan_next (bufs s) ?P (b_next (bufs s HEAD)) = Some (Some i)"
    using scan_next_chain [OF c lru_head [OF xs], of ?P] by simp
  let ?u = "upd_buf i (\<lambda>b. b\<lparr>b_refcnt := b_refcnt b + 1\<rparr>) (acq BcacheLock s)"
  note a = thr_acquire [OF assms(1), of BcacheLock]
  have u: "thr (Some BcacheLock) p q ?u" using a(2) by simp
  note r = thr_release [OF u]
  obtain t where t: "acquiresleep switch_away (SBuf i) (rel BcacheLock ?u) = Ok t" "thr None p q t"
    "same_bio t (sl_take (SBuf i) q (rel BcacheLock ?u))"
    using acquiresleep_bio [OF r(2), of "SBuf i" switch_away] assms(6) by auto
  have "bget 1 b s = Ok (i, t)" using a(1) f r(1) t(1) by (simp add: bget_def)
  moreover have "same_bio t (sl_take (SBuf i) q (upd_buf i (\<lambda>b. b\<lparr>b_refcnt := b_refcnt b + 1\<rparr>) s))"
    using t(3) by (simp add: same_bio_def sl_take_def)
  ultimately show ?thesis using t(2) by blast
qed

lemma bget_recycled:
  assumes "thr None p q s" and "lru (bufs s) xs"
    and "\<And>i. i < NBUF \<Longrightarrow> \<not> (b_dev (bufs s i) = dev \<and> b_blockno (bufs s i) = b)"
    and "find (\<lambda>i. b_refcnt (bufs s i) = 0 \<and> \<not> b_dirty (bufs s i)) (rev xs) = Some i"
    and "\<not> sl_locked (slocks s (SBuf i))"
  shows "\<exists>t. bget dev b s = Ok (i, t) \<and> thr None p q t \<and>
     same_bio t (sl_take (SBuf i) q (upd_buf i (\<lambda>x. x\<lparr>b_dev := dev, b_blockno := b,
                b_valid := False, b_dirty := False, b_refcnt := 1\<rparr>) s))"
proof -
  let ?P = "\<lambda>b'. b_dev b' = dev \<and> b_blockno b' = b" and ?Q = "\<lambda>b'. b_refcnt b' = 0 \<and> \<not> b_dirty b'"
  let ?f = "\<lambda>x. x\<lparr>b_dev := dev, b_blockno := b, b_valid := False, b_dirty := False, b_refcnt := 1\<rparr>"
  have c: "chain (bufs s) HEAD xs HEAD" and m: "set xs = {..<NBUF}" using assms(2) by (simp_all add: lru_def)
  have "find (\<lambda>i. ?P (bufs s i)) xs = None" using assms(3) m by (auto simp: find_None_iff)
  then have f: "scan_next (bufs s) ?P (b_next (bufs s HEAD)) = Some None"
    "scan_prev (bufs s) ?Q (b_prev (bufs s HEAD)) = Some (Some i)"
    using scan_next_chain [OF c lru_head [OF assms(2)], of ?P] scan_prev_chain [OF c lru_head [OF assms(2)], of ?Q]
      assms(4) by simp_all
  let ?u = "upd_buf i ?f (acq BcacheLock s)"
  note a = thr_acquire [OF assms(1), of BcacheLock]
  have u: "thr (Some BcacheLock) p q ?u" using a(2) by simp
  note r = thr_release [OF u]
  obtain t where t: "acquiresleep switch_away (SBuf i) (rel BcacheLock ?u) = Ok t" "thr None p q t"
    "same_bio t (sl_take (SBuf i) q (rel BcacheLock ?u))"
    using acquiresleep_bio [OF r(2), of "SBuf i" switch_away] assms(5) by auto
  have "bget dev b s = Ok (i, t)" using a(1) f r(1) t(1) by (simp add: bget_def)
  moreover have "same_bio t (sl_take (SBuf i) q (upd_buf i ?f s))"
    using t(3) by (simp add: same_bio_def sl_take_def)
  ultimately show ?thesis using t(2) by blast
qed

text \<open>Buffer \<open>i\<close> loaded with block \<open>b\<close> and locked by process \<open>q\<close>.\<close>

definition load :: "nat \<Rightarrow> 32 word \<Rightarrow> int \<Rightarrow> 'z bio_st_scheme \<Rightarrow> 'z bio_st_scheme" where
  "load i b q s = sl_take (SBuf i) q (upd_buf i (\<lambda>x. x\<lparr>b_valid := True, b_dirty := b \<in> dirtyb s, b_dev := 1,
     b_blockno := b, b_refcnt := 1, b_data := contents s b\<rparr>) s)"

text \<open>The buffer \<^verbatim>\<open>bread\<close> uses: the one that caches the block, or a free one when none does.\<close>

definition slot_for :: "32 word \<Rightarrow> 'z bio_st_scheme \<Rightarrow> nat \<Rightarrow> bool" where
  "slot_for b s i \<longleftrightarrow> i < NBUF \<and> \<not> sl_locked (slocks s (SBuf i)) \<and>
     (b_dev (bufs s i) = 1 \<and> b_blockno (bufs s i) = b \<or>
      \<not> b_dirty (bufs s i) \<and> (\<forall>j<NBUF. \<not> (b_dev (bufs s j) = 1 \<and> b_blockno (bufs s j) = b)))"

lemma dirtyb_slot:
  assumes "cinv s" and "slot_for b s i"
  shows "b \<in> dirtyb s \<longleftrightarrow> b_dev (bufs s i) = 1 \<and> b_blockno (bufs s i) = b \<and> b_dirty (bufs s i)"
proof
  assume "b \<in> dirtyb s"
  then obtain j where j: "j < NBUF" "b_dirty (bufs s j)" "b_blockno (bufs s j) = b" by (auto simp: dirtyb_def)
  then have "b_dev (bufs s j) = 1" using cinv_buf [OF assms(1)] buf_okD by blast
  then show "b_dev (bufs s i) = 1 \<and> b_blockno (bufs s i) = b \<and> b_dirty (bufs s i)"
    using assms j cinv_inj [OF assms(1), of i j] by (auto simp: slot_for_def)
next
  assume "b_dev (bufs s i) = 1 \<and> b_blockno (bufs s i) = b \<and> b_dirty (bufs s i)"
  then show "b \<in> dirtyb s" using assms(2) by (auto simp: dirtyb_def slot_for_def)
qed

lemma bread_cached:
  assumes "thr None p q s" and "cinv s" and "b < disksize s" and "b \<notin> heldb s"
    and i: "i < NBUF" "b_dev (bufs s i) = 1" "b_blockno (bufs s i) = b"
  shows "\<exists>t. bread 1 b s = Ok (i, t) \<and> thr None p q t \<and> same_bio t (load i b q s) \<and> slot_for b s i"
proof -
  have u: "\<not> sl_locked (slocks s (SBuf i))" using assms(4) i by (auto simp: heldb_def)
  have sl: "slot_for b s i" using i u by (simp add: slot_for_def)
  have ok: "buf_ok s i" using cinv_buf [OF assms(2) i(1)] .
  let ?g = "sl_take (SBuf i) q (upd_buf i (\<lambda>b. b\<lparr>b_refcnt := b_refcnt b + 1\<rparr>) s)"
  obtain t where t: "bget 1 b s = Ok (i, t)" "thr None p q t" "same_bio t ?g"
    using bget_found [OF assms(1,2) i u] by blast
  have r0: "b_refcnt (bufs s i) = 0" using buf_okD(5) [OF ok] u by simp
  have d: "b \<in> dirtyb s \<longleftrightarrow> b_dirty (bufs s i)" using dirtyb_slot [OF assms(2) sl] i by simp
  show ?thesis
  proof (cases "b_valid (bufs s i)")
    case True
    have "same_bio ?g (load i b q s)"
      using True i r0 d contents_hit [OF assms(2) i(1) True i(3)]
      by (cases "bufs s i") (simp add: same_bio_def load_def sl_take_def)
    then have l: "same_bio t (load i b q s)" by (rule same_bio_trans [OF t(3)])
    then have "b_valid (bufs t i)" by (simp add: same_bio_def load_def sl_take_def)
    then show ?thesis using t(1,2) sl l by (intro exI [of _ t]) (simp add: bread_def)
  next
    case False
    have e: "bufs t i = (bufs s i)\<lparr>b_refcnt := 1\<rparr>" using t(3) r0 by (simp add: same_bio_def sl_take_def)
    have nd: "\<not> b_dirty (bufs s i)" using False buf_okD(4) [OF ok] by blast
    have h: "sl_held (SBuf i) q t" using t(3) by (simp add: same_bio_def sl_take_def sl_held_def)
    have z: "disksize t = disksize s" using t(3) by (simp add: same_bio_def sl_take_def)
    obtain v where v: "iderw i t = Ok v" "thr None p q v" "same_bio v (ide_read i t)"
      using iderw_ok [OF t(2) h] e i assms(3) z False nd by auto
    have "contents s b = disk s b"
      using False i by (intro contents_miss) (metis assms(2) buf_okD(1) cinv_buf cinv_inj)
    then have "same_bio (ide_read i ?g) (load i b q s)"
      using i r0 d nd by (cases "bufs s i") (simp add: same_bio_def load_def sl_take_def ide_read_def)
    then have "same_bio v (load i b q s)"
      using v(3) ide_bio(1) [OF t(3), of i] same_bio_trans by blast
    then show ?thesis using t(1) e v False sl by (intro exI [of _ v]) (simp add: bread_def)
  qed
qed

lemma bread_uncached:
  assumes "thr None p q s" and "cinv s" and "b < disksize s" and "card (busy s) < NBUF"
    and none: "\<And>i. i < NBUF \<Longrightarrow> \<not> (b_dev (bufs s i) = 1 \<and> b_blockno (bufs s i) = b)" and xs: "lru (bufs s) xs"
  shows "\<exists>i t. bread 1 b s = Ok (i, t) \<and> thr None p q t \<and> same_bio t (load i b q s) \<and> slot_for b s i \<and>
     find (\<lambda>i. b_refcnt (bufs s i) = 0 \<and> \<not> b_dirty (bufs s i)) (rev xs) = Some i"
proof -
  from xs have m: "set xs = {..<NBUF}" by (simp add: lru_def)
  let ?Q = "\<lambda>i. b_refcnt (bufs s i) = 0 \<and> \<not> b_dirty (bufs s i)"
  have nb: "b \<notin> dirtyb s"
    using none cinv_buf [OF assms(2)] buf_okD(1,4) by (fastforce simp: dirtyb_def)
  have "find ?Q (rev xs) \<noteq> None"
  proof
    assume "find ?Q (rev xs) = None"
    then have "{..<NBUF} \<subseteq> busy s"
      using m cinv_buf [OF assms(2)] buf_okD(5) by (fastforce simp: find_None_iff busy_def split: if_splits)
    then have "NBUF \<le> card (busy s)" using card_mono [of "busy s" "{..<NBUF}"] by (simp add: busy_def)
    then show False using assms(4) by simp
  qed
  then obtain i where f: "find ?Q (rev xs) = Some i" by blast
  then have i: "i < NBUF" "?Q i" using m by (auto simp: find_Some_iff) (metis lessThan_iff length_rev nth_mem set_rev)+
  then have u: "\<not> sl_locked (slocks s (SBuf i))" using buf_okD(5) [OF cinv_buf [OF assms(2) i(1)]] by (auto split: if_splits)
  have sl: "slot_for b s i" using i u none by (auto simp: slot_for_def)
  let ?g = "sl_take (SBuf i) q (upd_buf i (\<lambda>x. x\<lparr>b_dev := 1, b_blockno := b, b_valid := False, b_dirty := False, b_refcnt := 1\<rparr>) s)"
  obtain t where t: "bget 1 b s = Ok (i, t)" "thr None p q t" "same_bio t ?g"
    using bget_recycled [OF assms(1) xs none f u] by blast
  have e: "bufs t i = (bufs s i)\<lparr>b_dev := 1, b_blockno := b, b_valid := False, b_dirty := False, b_refcnt := 1\<rparr>"
    using t(3) by (simp add: same_bio_def sl_take_def)
  have h: "sl_held (SBuf i) q t" using t(3) by (simp add: same_bio_def sl_take_def sl_held_def)
  have z: "disksize t = disksize s" using t(3) by (simp add: same_bio_def sl_take_def)
  obtain v where v: "iderw i t = Ok v" "thr None p q v" "same_bio v (ide_read i t)"
    using iderw_ok [OF t(2) h] e assms(3) z by auto
  have "contents s b = disk s b"
    using none by (intro contents_miss) (metis assms(2) buf_okD(1) cinv_buf)
  then have "same_bio (ide_read i ?g) (load i b q s)"
    using nb by (cases "bufs s i") (simp add: same_bio_def load_def sl_take_def ide_read_def)
  then have "same_bio v (load i b q s)"
    using v(3) ide_bio(1) [OF t(3), of i] same_bio_trans by blast
  then show ?thesis using t(1) e v sl f by (intro exI [of _ i] exI [of _ v]) (simp add: bread_def)
qed

lemma bread_slot:
  assumes "thr None p q s" and "cinv s" and "b < disksize s" and "b \<notin> heldb s"
    and "card (busy s) < NBUF \<or> b \<in> dirtyb s"
  shows "\<exists>i t. bread 1 b s = Ok (i, t) \<and> thr None p q t \<and> same_bio t (load i b q s) \<and> slot_for b s i"
proof (cases "\<exists>i<NBUF. b_dev (bufs s i) = 1 \<and> b_blockno (bufs s i) = b")
  case True
  then show ?thesis using bread_cached [OF assms(1-4)] by blast
next
  case False
  then have "b \<notin> dirtyb s"
    using cinv_buf [OF assms(2)] buf_okD(1,4) by (fastforce simp: dirtyb_def)
  moreover obtain xs where "lru (bufs s) xs" using assms(2) by (auto simp: cinv_def)
  ultimately show ?thesis using bread_uncached [OF assms(1-3), of xs] assms(5) False by blast
qed

lemma load_fields [simp]:
  "bufs (load i b q s) = (bufs s)(i := (bufs s i)\<lparr>b_valid := True, b_dirty := b \<in> dirtyb s, b_dev := 1,
     b_blockno := b, b_refcnt := 1, b_data := contents s b\<rparr>)"
  "slocks (load i b q s) = (slocks s)(SBuf i := (slocks s (SBuf i))\<lparr>sl_locked := True, sl_pid := q\<rparr>)"
  "disk (load i b q s) = disk s" "disksize (load i b q s) = disksize s" "wlog (load i b q s) = wlog s"
  "bio_st.more (load i b q s) = bio_st.more s"
  by (simp_all add: load_def sl_take_def)

lemma contents_length:
  assumes "cinv s" and "b < disksize s"
  shows "length (contents s b) = BSIZE"
proof (cases "\<exists>i<NBUF. b_valid (bufs s i) \<and> b_blockno (bufs s i) = b")
  case True
  then show ?thesis using contents_hit [OF assms(1)] buf_okD(3) cinv_buf [OF assms(1)] by metis
next
  case False
  then show ?thesis using contents_miss [of s b] cinv_disk [OF assms] by metis
qed

lemma slot_other:
  assumes "cinv s" and "slot_for b s i" and "j < NBUF" and "j \<noteq> i" and "b_dev (bufs s j) = 1"
  shows "b_blockno (bufs s j) \<noteq> b"
  using assms cinv_inj [OF assms(1), of i j] by (auto simp: slot_for_def)

lemma load_cinv:
  assumes "cinv s" and "b < disksize s" and "slot_for b s i"
  shows "cinv (load i b q s)"
proof -
  have i: "i < NBUF" using assms(3) by (simp add: slot_for_def)
  let ?t = "load i b q s"
  obtain xs where "lru (bufs s) xs" using assms(1) by (auto simp: cinv_def)
  then have "lru (bufs ?t) xs" by (subst lru_cong [of _ "bufs s"]) simp_all
  moreover have "buf_ok ?t j" if "j < NBUF" for j
    using cinv_buf [OF assms(1) that] contents_length [OF assms(1,2)] assms(2)
    by (cases "j = i") (simp_all add: buf_ok_def Let_def)
  moreover have "j = k" if "j < NBUF" "k < NBUF" "b_dev (bufs ?t j) = 1" "b_dev (bufs ?t k) = 1"
    "b_blockno (bufs ?t j) = b_blockno (bufs ?t k)" for j k
    using that slot_other [OF assms(1,3)] cinv_inj [OF assms(1), of j k] by (simp split: if_splits) metis
  ultimately show ?thesis using cinv_disk [OF assms(1)] unfolding cinv_def by auto
qed

lemma load_contents:
  assumes "cinv s" and "b < disksize s" and "slot_for b s i"
  shows "contents (load i b q s) = contents s"
proof
  fix c
  note t = load_cinv [OF assms, of q]
  have i: "i < NBUF" using assms(3) by (simp add: slot_for_def)
  show "contents (load i b q s) c = contents s c"
  proof (rule contents_eqI [OF assms(1) t])
    fix j assume "j < NBUF" "b_valid (bufs (load i b q s) j)" "b_blockno (bufs (load i b q s) j) = c"
    then show "contents s c = b_data (bufs (load i b q s) j)"
      using contents_hit [OF assms(1), of j c] by (simp split: if_splits)
  next
    assume n: "\<And>j. j < NBUF \<Longrightarrow> b_valid (bufs (load i b q s) j) \<Longrightarrow> b_blockno (bufs (load i b q s) j) \<noteq> c"
    then have "c \<noteq> b" using i by force
    show "contents s c = disk (load i b q s) c"
    proof (cases "b_valid (bufs s i) \<and> b_blockno (bufs s i) = c")
      case True
      then have "b_dev (bufs s i) = 1" using buf_okD(1) [OF cinv_buf [OF assms(1) i]] by simp
      then have "\<not> b_dirty (bufs s i)" "\<not> sl_locked (slocks s (SBuf i))"
        using assms(3) True \<open>c \<noteq> b\<close> by (auto simp: slot_for_def)
      then show ?thesis
        using True contents_hit [OF assms(1) i, of c] buf_okD(6) [OF cinv_buf [OF assms(1) i]] by simp
    next
      case False
      then have "contents s c = disk s c" using n by (intro contents_miss) (metis fun_upd_other load_fields(1))
      then show ?thesis by simp
    qed
  qed
qed

lemma dirtyb_iff: "c \<in> dirtyb s \<longleftrightarrow> (\<exists>j<NBUF. b_dirty (bufs s j) \<and> b_blockno (bufs s j) = c)"
  by (auto simp: dirtyb_def)

lemma heldb_iff: "c \<in> heldb s \<longleftrightarrow>
    (\<exists>j<NBUF. b_dev (bufs s j) = 1 \<and> sl_locked (slocks s (SBuf j)) \<and> b_blockno (bufs s j) = c)"
  by (auto simp: heldb_def)

lemma load_sets:
  assumes "cinv s" and "slot_for b s i"
  shows "dirtyb (load i b q s) = dirtyb s" and "heldb (load i b q s) = insert b (heldb s)"
    and "busy (load i b q s) = insert i (busy s)" and "i \<in> busy s \<longleftrightarrow> b \<in> dirtyb s"
    and "owns q i b (load i b q s)" and "b_dirty (bufs (load i b q s) i) \<longleftrightarrow> b \<in> dirtyb s"
proof -
  have i: "i < NBUF" "\<not> sl_locked (slocks s (SBuf i))" using assms(2) by (simp_all add: slot_for_def)
  note d = dirtyb_slot [OF assms]
  have nd: "b_dirty (bufs s i) \<Longrightarrow> b_dev (bufs s i) = 1 \<and> b_blockno (bufs s i) = b"
    using assms(2) by (auto simp: slot_for_def)
  show "i \<in> busy s \<longleftrightarrow> b \<in> dirtyb s" using d nd i by (auto simp: busy_def)
  show "owns q i b (load i b q s)" using i by (simp add: owns_def sl_held_def)
  show "b_dirty (bufs (load i b q s) i) \<longleftrightarrow> b \<in> dirtyb s" by simp
  show "busy (load i b q s) = insert i (busy s)" using i by (auto simp: busy_def)
  show "heldb (load i b q s) = insert b (heldb s)" using i by (fastforce simp: heldb_def split: if_splits)
  show "dirtyb (load i b q s) = dirtyb s" (is "?l = _")
  proof (rule set_eqI)
    fix c
    have "c \<in> ?l \<longleftrightarrow> (c = b \<and> b \<in> dirtyb s) \<or> (\<exists>j<NBUF. j \<noteq> i \<and> b_dirty (bufs s j) \<and> b_blockno (bufs s j) = c)"
      unfolding dirtyb_iff [of c "load i b q s"] using i by auto
    moreover have "c \<in> dirtyb s \<longleftrightarrow> (b_dirty (bufs s i) \<and> b_blockno (bufs s i) = c) \<or>
        (\<exists>j<NBUF. j \<noteq> i \<and> b_dirty (bufs s j) \<and> b_blockno (bufs s j) = c)"
      unfolding dirtyb_iff using i by auto
    ultimately show "c \<in> ?l \<longleftrightarrow> c \<in> dirtyb s" using d nd by blast
  qed
qed

text \<open>Other buffers a process owns stay as they are.\<close>

definition keeps_owned :: "int \<Rightarrow> nat \<Rightarrow> 'z bio_st_scheme \<Rightarrow> 'z bio_st_scheme \<Rightarrow> bool" where
  "keeps_owned q i s t \<longleftrightarrow>
     (\<forall>j c. j \<noteq> i \<longrightarrow> owns q j c s \<longrightarrow> owns q j c t \<and> b_data (bufs t j) = b_data (bufs s j))"

text \<open>The sleep locks of the inodes are as before.\<close>

definition same_ilocks :: "'z bio_st_scheme \<Rightarrow> 'z bio_st_scheme \<Rightarrow> bool" where
  "same_ilocks s t \<longleftrightarrow> (\<forall>ip. slocks t (SInode ip) = slocks s (SInode ip))"

lemma same_ilocks_refl [simp]: "same_ilocks s s"
  by (simp add: same_ilocks_def)

lemma same_ilocks_trans: "same_ilocks s t \<Longrightarrow> same_ilocks t u \<Longrightarrow> same_ilocks s u"
  by (simp add: same_ilocks_def)

definition after_read :: "int \<Rightarrow> 32 word \<Rightarrow> 'z bio_st_scheme \<Rightarrow> nat \<Rightarrow> 'z bio_st_scheme \<Rightarrow> bool" where
  "after_read q b s i t \<longleftrightarrow> cinv t \<and> owns q i b t \<and> b_data (bufs t i) = contents s b \<and> contents t = contents s \<and>
     dirtyb t = dirtyb s \<and> heldb t = insert b (heldb s) \<and> busy t = insert i (busy s) \<and> (i \<in> busy s \<longleftrightarrow> b \<in> dirtyb s) \<and>
     (\<forall>j c. owns q j c s \<longrightarrow> j \<noteq> i) \<and> keeps_owned q i s t \<and> disk t = disk s \<and> disksize t = disksize s \<and>
     wlog t = wlog s \<and> same_ilocks s t \<and> bio_st.more t = bio_st.more s"

lemma bread_ok:
  assumes "thr None p q s" and "cinv s" and "b < disksize s" and "b \<notin> heldb s"
    and "card (busy s) < NBUF \<or> b \<in> dirtyb s"
  shows "\<exists>i t. bread 1 b s = Ok (i, t) \<and> thr None p q t \<and> after_read q b s i t"
proof -
  obtain i t where t: "bread 1 b s = Ok (i, t)" "thr None p q t" "same_bio t (load i b q s)" "slot_for b s i"
    using bread_slot [OF assms] by blast
  note e = same_bioD [OF t(3)]
  note l = load_cinv [OF assms(2,3) t(4), of q] load_contents [OF assms(2,3) t(4), of q]
  note m = load_sets(1-3,5) [OF assms(2) t(4), of q] and b = load_sets(4) [OF assms(2) t(4)]
  have ne: "j \<noteq> i" if "owns q j c s" for j c
    using that t(4) by (auto simp: owns_def sl_held_def slot_for_def)
  have k: "keeps_owned q i s t" using e(7,8) by (auto simp: keeps_owned_def owns_def sl_held_def)
  have "after_read q b s i t"
    unfolding after_read_def using e l m b ne k by (simp add: same_ilocks_def)
  then show ?thesis using t(1,2) by blast
qed

lemma ownsD:
  assumes "cinv s" and "owns q i b s"
  shows "i < NBUF" and "sl_held (SBuf i) q s" and "b_valid (bufs s i)" and "b_blockno (bufs s i) = b"
    and "b_dev (bufs s i) = 1" and "b < disksize s" and "i \<in> busy s" and "b \<in> heldb s"
    and "b \<in> dirtyb s \<longleftrightarrow> b_dirty (bufs s i)" and "contents s b = b_data (bufs s i)"
    and "length (b_data (bufs s i)) = BSIZE" and "b_refcnt (bufs s i) = 1"
proof -
  show o: "i < NBUF" "sl_held (SBuf i) q s" "b_valid (bufs s i)" "b_blockno (bufs s i) = b"
    using assms(2) by (simp_all add: owns_def)
  note ok = cinv_buf [OF assms(1) o(1)]
  show d: "b_dev (bufs s i) = 1" "b < disksize s" "length (b_data (bufs s i)) = BSIZE"
    using buf_okD(1-3) [OF ok o(3)] o(4) by simp_all
  show "i \<in> busy s" "b \<in> heldb s" using o d by (auto simp: busy_def heldb_def sl_held_def)
  show "b_refcnt (bufs s i) = 1" using buf_okD(5) [OF ok] o(2) by (simp add: sl_held_def)
  show "contents s b = b_data (bufs s i)" using contents_hit [OF assms(1) o(1,3,4)] .
  have "j = i" if "j < NBUF" "b_dirty (bufs s j)" "b_blockno (bufs s j) = b" for j
    using that o d buf_okD(1,4) [OF cinv_buf [OF assms(1) that(1)]] by (intro cinv_inj [OF assms(1)]) simp_all
  then show "b \<in> dirtyb s \<longleftrightarrow> b_dirty (bufs s i)" using o by (auto simp: dirtyb_iff)
qed

lemma owns_unique: "cinv s \<Longrightarrow> owns q i b s \<Longrightarrow> j < NBUF \<Longrightarrow> j \<noteq> i \<Longrightarrow> b_dev (bufs s j) = 1 \<Longrightarrow> b_blockno (bufs s j) \<noteq> b"
  using ownsD [of s q i b] cinv_inj [of s i j] by auto

text \<open>Buffer \<open>i\<close> given the data \<open>d\<close> and written to the disk.\<close>

definition stored :: "nat \<Rightarrow> byte list \<Rightarrow> 'z bio_st_scheme \<Rightarrow> 'z bio_st_scheme" where
  "stored i d s = (let b = b_blockno (bufs s i) in
     upd_buf i (\<lambda>x. x\<lparr>b_data := d, b_valid := True, b_dirty := False\<rparr>)
       (s\<lparr>disk := (disk s)(b := d), wlog := wlog s @ [(b, d)]\<rparr>))"

lemma stored_fields [simp]:
  "bufs (stored i d s) = (bufs s)(i := (bufs s i)\<lparr>b_data := d, b_valid := True, b_dirty := False\<rparr>)"
  "slocks (stored i d s) = slocks s" "disk (stored i d s) = (disk s)(b_blockno (bufs s i) := d)"
  "disksize (stored i d s) = disksize s" "wlog (stored i d s) = wlog s @ [(b_blockno (bufs s i), d)]"
  "bio_st.more (stored i d s) = bio_st.more s"
  by (simp_all add: stored_def Let_def)

lemma stored_cinv:
  assumes "cinv s" and "owns q i b s" and "length d = BSIZE"
  shows "cinv (stored i d s)"
proof -
  note o = ownsD [OF assms(1,2)]
  let ?t = "stored i d s"
  obtain xs where "lru (bufs s) xs" using assms(1) by (auto simp: cinv_def)
  then have "lru (bufs ?t) xs" by (subst lru_cong [of _ "bufs s"]) simp_all
  moreover have "buf_ok ?t j" if "j < NBUF" for j
  proof (cases "j = i")
    case True
    then show ?thesis using o assms(3) cinv_buf [OF assms(1) o(1)] by (simp add: buf_ok_def Let_def sl_held_def)
  next
    case False
    then show ?thesis
      using cinv_buf [OF assms(1) that] owns_unique [OF assms(1,2) that False] o(4) by (auto simp: buf_ok_def Let_def)
  qed
  moreover have "j = k" if "j < NBUF" "k < NBUF" "b_dev (bufs ?t j) = 1" "b_dev (bufs ?t k) = 1"
    "b_blockno (bufs ?t j) = b_blockno (bufs ?t k)" for j k
    using that cinv_inj [OF assms(1), of j k] by (simp split: if_splits)
  ultimately show ?thesis using cinv_disk [OF assms(1)] assms(3) unfolding cinv_def by auto
qed

lemma stored_contents:
  assumes "cinv s" and "owns q i b s" and "length d = BSIZE"
  shows "contents (stored i d s) = (contents s)(b := d)"
proof
  fix c
  note o = ownsD [OF assms(1,2)]
  let ?t = "stored i d s"
  note t = stored_cinv [OF assms]
  show "contents ?t c = ((contents s)(b := d)) c"
  proof (cases "c = b")
    case True
    then show ?thesis using contents_hit [OF t o(1), of b] o(4) by simp
  next
    case False
    have "contents ?t c = contents s c"
    proof (rule contents_eqI [OF assms(1) t])
      fix j assume "j < NBUF" "b_valid (bufs ?t j)" "b_blockno (bufs ?t j) = c"
      then show "contents s c = b_data (bufs ?t j)"
        using contents_hit [OF assms(1), of j c] False o(4) by (auto split: if_splits)
    next
      assume n: "\<And>j. j < NBUF \<Longrightarrow> b_valid (bufs ?t j) \<Longrightarrow> b_blockno (bufs ?t j) \<noteq> c"
      have "b_blockno (bufs s j) \<noteq> c" if "j < NBUF" "b_valid (bufs s j)" for j
        using that n [of j] False o(4) by (cases "j = i") simp_all
      then have "contents s c = disk s c" by (rule contents_miss)
      then show "contents s c = disk ?t c" using False o(4) by simp
    qed
    then show ?thesis using False by simp
  qed
qed

definition after_write :: "int \<Rightarrow> nat \<Rightarrow> 32 word \<Rightarrow> byte list \<Rightarrow> 'z bio_st_scheme \<Rightarrow> 'z bio_st_scheme \<Rightarrow> bool" where
  "after_write q i b d s t \<longleftrightarrow> cinv t \<and> owns q i b t \<and> b_data (bufs t i) = d \<and> contents t = (contents s)(b := d) \<and>
     dirtyb t = dirtyb s - {b} \<and> heldb t = heldb s \<and> busy t = busy s \<and> keeps_owned q i s t \<and> disk t = (disk s)(b := d) \<and>
     disksize t = disksize s \<and> wlog t = wlog s @ [(b, d)] \<and> same_ilocks s t \<and> bio_st.more t = bio_st.more s"

lemma bwrite_ok:
  assumes "thr None p q s" and "cinv s" and "owns q i b s" and "length d = BSIZE"
  shows "\<exists>t. bwrite i (upd_buf i (\<lambda>x. x\<lparr>b_data := d\<rparr>) s) = Ok t \<and> thr None p q t \<and> after_write q i b d s t"
proof -
  note o = ownsD [OF assms(2,3)]
  let ?s = "upd_buf i (\<lambda>x. x\<lparr>b_data := d\<rparr>) s"
  have h: "sl_held (SBuf i) q ?s" using o(2) by (simp add: sl_held_def)
  obtain u where u: "holdingsleep (SBuf i) ?s = Ok (True, u)" "thr None p q u" "same_bio u ?s"
    using holdingsleep_bio [of p q ?s "SBuf i"] assms(1) h by auto
  let ?v = "upd_buf i (\<lambda>b. b\<lparr>b_dirty := True\<rparr>) u"
  have v: "thr None p q ?v" "sl_held (SBuf i) q ?v" "b_dev (bufs ?v i) = 1" "b_blockno (bufs ?v i) < disksize ?v"
    using u(2) o same_bioD(7,8,10) [OF u(3)] by (simp_all add: sl_held_def)
  obtain t where t: "iderw i ?v = Ok t" "thr None p q t" "same_bio t (ide_write i ?v)"
    using iderw_ok [OF v] by auto
  have "same_bio (ide_write i ?v) (stored i d s)"
    using u(3) by (simp add: same_bio_def ide_write_def stored_def Let_def)
  then have st: "same_bio t (stored i d s)" by (rule same_bio_trans [OF t(3)])
  note e = same_bioD [OF st]
  have "b_blockno (bufs s j) \<noteq> b" if "j < NBUF" "j \<noteq> i" "b_dirty (bufs s j)" for j
    using that owns_unique [OF assms(2,3)] buf_okD(1,4) [OF cinv_buf [OF assms(2)]] by blast
  moreover have "c \<in> dirtyb (stored i d s) \<longleftrightarrow> (\<exists>j<NBUF. j \<noteq> i \<and> b_dirty (bufs s j) \<and> b_blockno (bufs s j) = c)" for c
    by (auto simp: dirtyb_iff)
  ultimately have "dirtyb (stored i d s) = dirtyb s - {b}"
    using o(4) by (intro set_eqI) (simp add: dirtyb_iff, metis)
  moreover have "heldb (stored i d s) = heldb s" "busy (stored i d s) = busy s"
    using o(1,2) by (auto simp: heldb_def busy_def sl_held_def)
  moreover have "keeps_owned q i s t" using e(7,8) by (auto simp: keeps_owned_def owns_def sl_held_def)
  moreover have "owns q i b (stored i d s)" using assms(3) by (simp add: owns_def sl_held_def)
  ultimately have "after_write q i b d s t"
    unfolding after_write_def using e o(4) stored_contents [OF assms(2-4)] stored_cinv [OF assms(2-4)] by (simp add: same_ilocks_def)
  then show ?thesis using u(1) t(1,2) by (simp add: bwrite_def)
qed

text \<open>Buffer \<open>i\<close> unlocked and no longer referenced.\<close>

definition dropped :: "nat \<Rightarrow> 'z bio_st_scheme \<Rightarrow> 'z bio_st_scheme" where
  "dropped i s =
     (let s1 = upd_buf i (\<lambda>x. x\<lparr>b_refcnt := 0\<rparr>) (sl_drop (SBuf i) s) in s1\<lparr>bufs := relink i (bufs s1)\<rparr>)"

lemma dropped_fields [simp]:
  "bufs (dropped i s) = relink i ((bufs s)(i := (bufs s i)\<lparr>b_refcnt := 0\<rparr>))"
  "slocks (dropped i s) = (slocks s)(SBuf i := (slocks s (SBuf i))\<lparr>sl_locked := False, sl_pid := 0\<rparr>)"
  "disk (dropped i s) = disk s" "disksize (dropped i s) = disksize s" "wlog (dropped i s) = wlog s"
  "bio_st.more (dropped i s) = bio_st.more s"
  by (simp_all add: dropped_def Let_def sl_drop_def)

lemma dropped_lru:
  assumes "cinv s" and "i < NBUF"
  shows "\<exists>xs. lru (bufs (dropped i s)) xs"
proof -
  obtain xs where xs: "lru (bufs s) xs" using assms(1) by (auto simp: cinv_def)
  then have "i \<in> set xs" using assms(2) by (simp add: lru_def)
  then obtain ys zs where "xs = ys @ i # zs" by (meson split_list)
  then have "lru ((bufs s)(i := (bufs s i)\<lparr>b_refcnt := 0\<rparr>)) (ys @ i # zs)"
    using xs by (subst lru_cong [of _ "bufs s"]) simp_all
  from lru_relink [OF this] show ?thesis by auto
qed

lemma dropped_cinv:
  assumes "cinv s" and "owns q i b s" and "b \<in> dirtyb s \<or> b_data (bufs s i) = disk s b"
  shows "cinv (dropped i s)"
proof -
  note o = ownsD [OF assms(1,2)]
  have "buf_ok (dropped i s) j" if "j < NBUF" for j
    using cinv_buf [OF assms(1) that] o assms(3) by (cases "j = i") (auto simp: buf_ok_def Let_def)
  moreover have "j = k" if "j < NBUF" "k < NBUF" "b_dev (bufs (dropped i s) j) = 1" "b_dev (bufs (dropped i s) k) = 1"
    "b_blockno (bufs (dropped i s) j) = b_blockno (bufs (dropped i s) k)" for j k
    using that cinv_inj [OF assms(1), of j k] by (simp split: if_splits)
  ultimately show ?thesis
    using cinv_disk [OF assms(1)] dropped_lru [OF assms(1) o(1)] unfolding cinv_def by auto
qed

lemma dropped_sets:
  assumes "cinv s" and "owns q i b s"
  shows "contents (dropped i s) = contents s" and "dirtyb (dropped i s) = dirtyb s"
    and "heldb (dropped i s) = heldb s - {b}" and "busy (dropped i s) = busy s - (if b \<in> dirtyb s then {} else {i})"
proof -
  note o = ownsD [OF assms]
  show "contents (dropped i s) = contents s"
    by (rule contents_cong) simp_all
  have f: "b_dirty (bufs (dropped i s) j) = b_dirty (bufs s j)" "b_blockno (bufs (dropped i s) j) = b_blockno (bufs s j)" for j
    by simp_all
  then show "dirtyb (dropped i s) = dirtyb s" by (simp only: dirtyb_def)
  have "b_blockno (bufs s j) \<noteq> b" if "j < NBUF" "j \<noteq> i" "b_dev (bufs s j) = 1" for j
    using owns_unique [OF assms] that by blast
  moreover have "c \<in> heldb (dropped i s) \<longleftrightarrow> (\<exists>j<NBUF. j \<noteq> i \<and> b_dev (bufs s j) = 1 \<and> sl_locked (slocks s (SBuf j)) \<and>
      b_blockno (bufs s j) = c)" for c
    by (auto simp: heldb_iff)
  ultimately show "heldb (dropped i s) = heldb s - {b}"
    using o(4) by (intro set_eqI) (simp add: heldb_iff, metis)
  show "busy (dropped i s) = busy s - (if b \<in> dirtyb s then {} else {i})"
    using o(9) by (auto simp: busy_def split: if_splits)
qed

lemma brelse_dropped:
  assumes "thr None p q s" and "cinv s" and "owns q i b s"
  shows "\<exists>t. brelse i s = Ok t \<and> thr None p q t \<and> same_bio t (dropped i s)"
proof -
  note o = ownsD [OF assms(2,3)]
  obtain u where u: "holdingsleep (SBuf i) s = Ok (True, u)" "thr None p q u" "same_bio u s"
    using holdingsleep_bio [OF assms(1), of "SBuf i"] o(2) by auto
  obtain v where v: "releasesleep (SBuf i) u = Ok v" "thr None p q v" "same_bio v (sl_drop (SBuf i) u)"
    using releasesleep_bio [OF u(2), of "SBuf i"] by auto
  note a = thr_acquire [OF v(2), of BcacheLock]
  let ?w = "upd_buf i (\<lambda>b. b\<lparr>b_refcnt := b_refcnt b - 1\<rparr>) (acq BcacheLock v)"
  have bv: "bufs v = bufs s" using same_bioD(7) [OF v(3)] same_bioD(7) [OF u(3)] by (simp add: sl_drop_def)
  have w: "thr (Some BcacheLock) p q (move_to_head i ?w)" using a(2) by (simp add: move_to_head_eq)
  note r = thr_release [OF w]
  have z: "b_refcnt (bufs ?w i) = 0" using bv o(12) by simp
  have "brelse i s = Ok (rel BcacheLock (move_to_head i ?w))"
    using u(1) v(1) a(1) z r(1) by (simp add: brelse_def Let_def)
  moreover have "same_bio (rel BcacheLock (move_to_head i ?w)) (dropped i s)"
    using v(3) u(3) o(12) by (simp add: same_bio_def move_to_head_eq sl_drop_def)
  ultimately show ?thesis using r(2) by blast
qed

definition after_release :: "int \<Rightarrow> nat \<Rightarrow> 32 word \<Rightarrow> 'z bio_st_scheme \<Rightarrow> 'z bio_st_scheme \<Rightarrow> bool" where
  "after_release q i b s t \<longleftrightarrow> cinv t \<and> contents t = contents s \<and> dirtyb t = dirtyb s \<and> heldb t = heldb s - {b} \<and>
     busy t = busy s - (if b \<in> dirtyb s then {} else {i}) \<and> keeps_owned q i s t \<and> disk t = disk s \<and>
     disksize t = disksize s \<and> wlog t = wlog s \<and> same_ilocks s t \<and> bio_st.more t = bio_st.more s"

lemma brelse_ok:
  assumes "thr None p q s" and "cinv s" and "owns q i b s" and "b \<in> dirtyb s \<or> b_data (bufs s i) = disk s b"
  shows "\<exists>t. brelse i s = Ok t \<and> thr None p q t \<and> after_release q i b s t"
proof -
  obtain t where t: "brelse i s = Ok t" "thr None p q t" "same_bio t (dropped i s)"
    using brelse_dropped [OF assms(1-3)] by blast
  note e = same_bioD [OF t(3)] and m = dropped_sets [OF assms(2,3)]
  have "keeps_owned q i s t" using e(7,8) by (auto simp: keeps_owned_def owns_def sl_held_def)
  then have "after_release q i b s t"
    unfolding after_release_def using e m dropped_cinv [OF assms(2-4)] by (simp add: same_ilocks_def)
  then show ?thesis using t(1,2) by blast
qed

text \<open>A block that is neither dirty nor locked is what the disk holds.\<close>

lemma clean_contents:
  assumes "cinv s" and "b \<notin> dirtyb s" and "b \<notin> heldb s"
  shows "contents s b = disk s b"
proof (cases "\<exists>i<NBUF. b_valid (bufs s i) \<and> b_blockno (bufs s i) = b")
  case True
  then obtain i where i: "i < NBUF" "b_valid (bufs s i)" "b_blockno (bufs s i) = b" by blast
  note ok = cinv_buf [OF assms(1) i(1)]
  have "\<not> b_dirty (bufs s i)" "\<not> sl_locked (slocks s (SBuf i))"
    using assms(2,3) i buf_okD(1) [OF ok i(2)] by (auto simp: dirtyb_iff heldb_iff)
  then show ?thesis using contents_hit [OF assms(1) i] buf_okD(6) [OF ok i(2)] i(3) by simp
next
  case False
  then show ?thesis using contents_miss [of s b] by metis
qed

section \<open>The cache at boot\<close>

lemma init_bio [simp]: "bufs (initlock l n s) = bufs s" "disk (initlock l n s) = disk s" "disksize (initlock l n s) = disksize s"
  "slocks (initlock l n s) = slocks s" "bufs (initsleeplock sl n s) = bufs s" "disk (initsleeplock sl n s) = disk s"
  "disksize (initsleeplock sl n s) = disksize s"
  "slocks (initsleeplock sl n s) = (slocks s)(sl := \<lparr>sl_locked = False, sl_name = n, sl_pid = 0\<rparr>)"
  by (simp_all add: initlock_def initsleeplock_def)

definition link_first :: "nat \<Rightarrow> (nat \<Rightarrow> buf) \<Rightarrow> nat \<Rightarrow> buf" where
  "link_first i bs = (let b1 = set_prev i HEAD (set_next i (b_next (bs HEAD)) bs) in
     set_next HEAD i (set_prev (b_next (b1 HEAD)) i b1))"

lemma binit_buf_fields:
  assumes "i < NBUF"
  shows "bufs (binit_buf i s) = link_first i (bufs s)" "disk (binit_buf i s) = disk s" "disksize (binit_buf i s) = disksize s"
    "slocks (binit_buf i s) = (slocks s)(SBuf i := \<lparr>sl_locked = False, sl_name = ''buffer'', sl_pid = 0\<rparr>)"
proof -
  have b: "upd_buf i (\<lambda>b. b\<lparr>b_next := n, b_prev := HEAD\<rparr>) s = s\<lparr>bufs := set_prev i HEAD (set_next i n (bufs s))\<rparr>" for n
    by (simp add: upd_buf_def set_prev_def set_next_def)
  show "bufs (binit_buf i s) = link_first i (bufs s)" "disk (binit_buf i s) = disk s" "disksize (binit_buf i s) = disksize s"
    "slocks (binit_buf i s) = (slocks s)(SBuf i := \<lparr>sl_locked = False, sl_name = ''buffer'', sl_pid = 0\<rparr>)"
    by (simp_all add: binit_buf_def Let_def b upd_links link_first_def)
qed

lemma link_first_fields [simp]:
  "b_valid (link_first i bs j) = b_valid (bs j)" "b_dirty (link_first i bs j) = b_dirty (bs j)"
  "b_dev (link_first i bs j) = b_dev (bs j)" "b_refcnt (link_first i bs j) = b_refcnt (bs j)"
  by (simp_all add: link_first_def Let_def)

lemma link_first_chain:
  assumes "chain bs HEAD (rev [0..<k]) HEAD" and "k < NBUF"
  shows "chain (link_first k bs) HEAD (rev [0..<Suc k]) HEAD"
proof -
  have h: "HEAD \<notin> set (rev [0..<k])" "k \<noteq> HEAD" using assms(2) by (auto simp: HEAD_def)
  have e: "b_next (bs HEAD) \<noteq> k" using chain_ends [OF assms(1)] h assms(2) by (cases k) auto
  have "chain (link_first k bs) HEAD (k # rev [0..<k]) HEAD"
    by (rule chain_link_head [OF assms(1)]) (use h e in \<open>auto simp: link_first_def Let_def\<close>)
  then show ?thesis by simp
qed

lemma binit_loop:
  assumes "k \<le> NBUF" and "chain (bufs s) HEAD [] HEAD"
  defines "t \<equiv> fold binit_buf [0..<k] s"
  shows "chain (bufs t) HEAD (rev [0..<k]) HEAD" and "\<And>i. i < k \<Longrightarrow> \<not> sl_locked (slocks t (SBuf i))"
    and "disk t = disk s" and "disksize t = disksize s"
    and "\<And>j. b_valid (bufs t j) = b_valid (bufs s j) \<and> b_dirty (bufs t j) = b_dirty (bufs s j) \<and>
      b_dev (bufs t j) = b_dev (bufs s j) \<and> b_refcnt (bufs t j) = b_refcnt (bufs s j)"
  using assms(1) unfolding t_def
proof (induction k)
  case 0
  { case 1 then show ?case using assms(2) by simp }
next
  case (Suc k)
  { case 1 then show ?case using link_first_chain [OF Suc.IH(1)] by (simp add: binit_buf_fields) }
  { case 2 then show ?case using Suc.IH(2) by (auto simp: binit_buf_fields less_Suc_eq) }
qed (simp_all add: binit_buf_fields)

text \<open>A cache in which nothing is cached yet.\<close>

definition cold :: "'z bio_st_scheme \<Rightarrow> bool" where
  "cold s \<longleftrightarrow> (\<exists>xs. lru (bufs s) xs) \<and> (\<forall>b<disksize s. length (disk s b) = BSIZE) \<and>
     (\<forall>i<NBUF. \<not> b_valid (bufs s i) \<and> \<not> b_dirty (bufs s i) \<and> b_refcnt (bufs s i) = 0 \<and> b_dev (bufs s i) = 0 \<and>
       \<not> sl_locked (slocks s (SBuf i)))"

lemma cold_cinv:
  assumes "cold s"
  shows "cinv s" and "contents s = disk s" and "busy s = {}" and "dirtyb s = {}" and "heldb s = {}"
proof -
  show "cinv s" using assms unfolding cold_def cinv_def by (auto simp: buf_ok_def Let_def)
  show "contents s = disk s" using assms contents_miss [of s] by (intro ext) (metis cold_def)
  show "busy s = {}" "dirtyb s = {}" "heldb s = {}" using assms by (auto simp: cold_def busy_def dirtyb_def heldb_def)
qed

lemma binit_cold:
  assumes "\<And>i. i < NBUF \<Longrightarrow> \<not> b_valid (bufs s i) \<and> \<not> b_dirty (bufs s i) \<and> b_refcnt (bufs s i) = 0 \<and> b_dev (bufs s i) = 0"
    and "\<And>b. b < disksize s \<Longrightarrow> length (disk s b) = BSIZE"
  shows "lru (bufs (binit s)) (rev [0..<NBUF])" and "cold (binit s)" and "disk (binit s) = disk s"
proof -
  define u where "u = upd_buf HEAD (\<lambda>b. b\<lparr>b_prev := HEAD, b_next := HEAD\<rparr>) (initlock BcacheLock ''bcache'' s)"
  have c: "chain (bufs u) HEAD [] HEAD" by (simp add: u_def)
  have f: "b_valid (bufs u i) = b_valid (bufs s i) \<and> b_dirty (bufs u i) = b_dirty (bufs s i) \<and> b_dev (bufs u i) = b_dev (bufs s i) \<and>
     b_refcnt (bufs u i) = b_refcnt (bufs s i)" for i by (simp add: u_def)
  have t: "binit s = fold binit_buf [0..<NBUF] u" by (simp add: binit_def u_def)
  note b = binit_loop [OF order_refl c, folded t]
  have z: "\<not> b_valid (bufs (binit s) i) \<and> \<not> b_dirty (bufs (binit s) i) \<and> b_refcnt (bufs (binit s) i) = 0 \<and> b_dev (bufs (binit s) i) = 0"
    if "i < NBUF" for i using b(5) [of i] f [of i] assms(1) [OF that] by simp
  have d: "disk (binit s) = disk s" "disksize (binit s) = disksize s" using b(3,4) by (simp_all add: u_def)
  show l: "lru (bufs (binit s)) (rev [0..<NBUF])" using b(1) by (auto simp: lru_def)
  show "cold (binit s)" using l z b(2) d assms(2) unfolding cold_def by auto
  show "disk (binit s) = disk s" by (rule d)
qed

section \<open>Sample state\<close>

text \<open>The cache at boot over a disk of 1000 empty blocks, with process 3 running.\<close>

definition buf_ex :: "nat \<Rightarrow> buf" where
  "buf_ex i = \<lparr>b_valid = False, b_dirty = False, b_dev = 0, b_blockno = 0, b_refcnt = 0,
     b_prev = (if i = 0 then HEAD else i - 1), b_next = (if i = HEAD then 0 else i + 1), b_data = []\<rparr>"

definition bio_of :: "sched_st \<Rightarrow> bio_st" where
  "bio_of s = sleep_st.extend
     (sched_st.extend s (sleep_st.fields (\<lambda>_. \<lparr>sl_locked = False, sl_name = [], sl_pid = 0\<rparr>)))
     (bio_st.fields buf_ex (\<lambda>_. replicate BSIZE 0) 1000 [])"

definition bio_ex :: bio_st where "bio_ex = bio_of sched_ex"

lemmas bio_defs = sched_st.defs con_st.defs vm_st.defs proc_st.defs kmem_st.defs kcore.defs sleep_st.defs bio_st.defs

lemma bio_ex_fields [simp]: "bufs bio_ex = buf_ex" "disk bio_ex = (\<lambda>_. replicate BSIZE 0)" "disksize bio_ex = 1000"
  "slocks bio_ex l = \<lparr>sl_locked = False, sl_name = [], sl_pid = 0\<rparr>" "procs bio_ex = procs_ex"
  by (simp_all add: bio_ex_def bio_of_def bio_defs flip: sched_ex_fields(1))

lemma bio_ex_thr: "thr None 3 4 bio_ex"
proof -
  have "same_core bio_ex sched_ex" by (simp add: same_core_def bio_ex_def bio_of_def bio_defs)
  then have "held_only None bio_ex" "cur_proc bio_ex = Some 3"
    using held_only_cong [of bio_ex sched_ex None] cur_proc_cong [of bio_ex sched_ex] sched_ex_quiet sched_ex_cur by simp_all
  then show ?thesis by (simp add: thr_def NPROC_def)
qed

lemma lru_ex: "lru buf_ex [0..<NBUF]"
proof -
  have c: "chain buf_ex a [a + 1..<NBUF] HEAD" if "a < NBUF" for a
    using that
  proof (induction "NBUF - a" arbitrary: a)
    case (Suc n)
    then show ?case
      by (cases "a + 1 < NBUF") (simp_all add: upt_conv_Cons, simp_all add: buf_ex_def HEAD_def)
  qed simp
  have "0 < NBUF" by (simp add: param_defs)
  then have "chain buf_ex HEAD [0..<NBUF] HEAD"
    using c [of 0] by (simp add: upt_conv_Cons) (simp add: buf_ex_def)
  then show ?thesis by (auto simp: lru_def)
qed

lemma bio_ex_cold: "cold bio_ex"
  using lru_ex by (auto simp: cold_def) (simp_all add: buf_ex_def)

section \<open>Properties\<close>

text \<open>
  C3: the block cache is a map from block numbers to data.  From any state in which the cache
  invariant holds, \<^verbatim>\<open>bread\<close> of a block nobody has locked returns, when a buffer is free, a locked buffer with the block's current
  contents and changes no block; \<^verbatim>\<open>brelse\<close> then unlocks it and changes no block either; and storing data
  in the buffer, \<^verbatim>\<open>bwrite\<close> and \<^verbatim>\<open>brelse\<close> change exactly this block, in the cache and on the disk.  The
  invariant holds again in the end and no buffer is lost.
\<close>

theorem cache_is_transparent:
  fixes s :: "'z bio_st_scheme"
  assumes "thr None p q s" and "cinv s" and "b < disksize s" and "b \<notin> heldb s" and "card (busy s) < NBUF"
    and "length d = BSIZE"
  shows "\<exists>i t u v w. bread 1 b s = Ok (i, t) \<and> b_data (bufs t i) = contents s b \<and> contents t = contents s \<and>
     brelse i t = Ok u \<and> cinv u \<and> contents u = contents s \<and> disk u = disk s \<and> heldb u = heldb s \<and> busy u = busy s \<and>
     bwrite i (upd_buf i (\<lambda>x. x\<lparr>b_data := d\<rparr>) t) = Ok v \<and> brelse i v = Ok w \<and> cinv w \<and>
     contents w = (contents s)(b := d) \<and> disk w = (disk s)(b := d) \<and> heldb w = heldb s \<and> busy w \<subseteq> busy s"
proof -
  obtain i t where t: "bread 1 b s = Ok (i, t)" "thr None p q t" and r: "after_read q b s i t"
    using bread_ok [OF assms(1-4)] assms(5) by blast
  note rd = r [unfolded after_read_def]
  have ct: "cinv t" "owns q i b t" using rd by simp_all
  have "b \<in> dirtyb t \<or> b_data (bufs t i) = disk t b"
    using clean_contents [OF assms(2) _ assms(4)] rd by auto
  from brelse_ok [OF t(2) ct this] obtain u where u: "brelse i t = Ok u" "after_release q i b t u" by blast
  obtain v where v: "bwrite i (upd_buf i (\<lambda>x. x\<lparr>b_data := d\<rparr>) t) = Ok v" "thr None p q v" "after_write q i b d t v"
    using bwrite_ok [OF t(2) ct assms(6)] by blast
  have cv: "cinv v" "owns q i b v" "b \<in> dirtyb v \<or> b_data (bufs v i) = disk v b" using v(3) by (simp_all add: after_write_def)
  from brelse_ok [OF v(2) cv] obtain w where w: "brelse i v = Ok w" "after_release q i b v w" by blast
  have "busy u = busy s" using u(2) rd by (auto simp: after_release_def)
  moreover have "busy w \<subseteq> busy s" "heldb w = heldb s" "contents w = (contents s)(b := d)" "disk w = (disk s)(b := d)" "cinv w"
    using w(2) v(3) rd assms(4) by (auto simp: after_release_def after_write_def)
  moreover have "heldb u = heldb s" "contents u = contents s" "disk u = disk s" "cinv u"
    using u(2) rd assms(4) by (auto simp: after_release_def)
  ultimately show ?thesis using t(1) u(1) v(1) w(1) rd by blast
qed

theorem cache_is_transparent_witness:
  "\<exists>i t u v w. bread 1 7 bio_ex = Ok (i, t) \<and> b_data (bufs t i) = replicate BSIZE 0 \<and> contents t = contents bio_ex \<and>
     brelse i t = Ok u \<and> cinv u \<and> contents u = contents bio_ex \<and> disk u = disk bio_ex \<and> heldb u = heldb bio_ex \<and>
     busy u = busy bio_ex \<and> bwrite i (upd_buf i (\<lambda>x. x\<lparr>b_data := replicate BSIZE 1\<rparr>) t) = Ok v \<and> brelse i v = Ok w \<and> cinv w \<and>
     contents w = (contents bio_ex)(7 := replicate BSIZE 1) \<and> disk w = (disk bio_ex)(7 := replicate BSIZE 1) \<and>
     heldb w = heldb bio_ex \<and> busy w \<subseteq> busy bio_ex"
proof -
  note c = cold_cinv [OF bio_ex_cold]
  have "(7 :: 32 word) < disksize bio_ex" "card (busy bio_ex) < NBUF" "7 \<notin> heldb bio_ex"
    using c(3,5) by (simp_all add: param_defs)
  then show ?thesis
    using cache_is_transparent [OF bio_ex_thr c(1), of 7 "replicate BSIZE 1"] c(2) by simp
qed

text \<open>
  C11: the doubly linked list of buffers is a list of all buffers in the order of their last use:
  \<^verbatim>\<open>bget\<close> of an uncached block takes the least recently used buffer that is free, and leaves the
  order alone; \<^verbatim>\<open>brelse\<close> moves its buffer to the front.
\<close>

theorem lru_replacement:
  fixes s :: "'z bio_st_scheme"
  assumes "thr None p q s" and "cinv s" and "lru (bufs s) xs"
    and "\<And>i. i < NBUF \<Longrightarrow> \<not> (b_dev (bufs s i) = 1 \<and> b_blockno (bufs s i) = b)" and "b < disksize s"
    and "card (busy s) < NBUF"
  shows "\<exists>i t u. find (\<lambda>i. b_refcnt (bufs s i) = 0 \<and> \<not> b_dirty (bufs s i)) (rev xs) = Some i \<and>
     bread 1 b s = Ok (i, t) \<and> lru (bufs t) xs \<and> brelse i t = Ok u \<and> lru (bufs u) (i # remove1 i xs)"
proof -
  let ?Q = "\<lambda>i. b_refcnt (bufs s i) = 0 \<and> \<not> b_dirty (bufs s i)"
  obtain i t where t: "bread 1 b s = Ok (i, t)" "thr None p q t" "same_bio t (load i b q s)" "slot_for b s i"
    "find ?Q (rev xs) = Some i"
    using bread_uncached [OF assms(1,2,5,6,4) assms(3)] by blast
  have lt: "lru (bufs t) xs" using assms(3) same_bioD(7) [OF t(3)] by (subst lru_cong [of _ "bufs s"]) simp_all
  have c: "cinv t" "owns q i b t"
    using load_cinv [OF assms(2,5) t(4), of q] load_sets(5) [OF assms(2) t(4), of q] same_bioD [OF t(3)] by simp_all
  obtain u where u: "brelse i t = Ok u" "same_bio u (dropped i t)"
    using brelse_dropped [OF t(2) c] by blast
  have "i \<in> set xs" using lt ownsD(1) [OF c] by (simp add: lru_def)
  then obtain ys zs where xs: "xs = ys @ i # zs" "i \<notin> set ys" using split_list_first by metis
  then have "lru ((bufs t)(i := (bufs t i)\<lparr>b_refcnt := 0\<rparr>)) (ys @ i # zs)"
    using lt by (subst lru_cong [of _ "bufs t"]) simp_all
  from lru_relink [OF this] have "lru (bufs u) (i # remove1 i xs)"
    using same_bioD(7) [OF u(2)] xs by (simp add: remove1_split)
  then show ?thesis using t u lt by blast
qed

theorem lru_replacement_witness:
  "\<exists>t u. bread 1 7 bio_ex = Ok (29, t) \<and> lru (bufs t) [0..<NBUF] \<and> brelse 29 t = Ok u \<and> lru (bufs u) (29 # [0..<29])"
proof -
  note c = cold_cinv [OF bio_ex_cold]
  have l: "lru (bufs bio_ex) [0..<NBUF]" using lru_ex by simp
  have n: "\<not> (b_dev (bufs bio_ex i) = 1 \<and> b_blockno (bufs bio_ex i) = 7)" for i by (simp add: buf_ex_def)
  have b: "(7 :: 32 word) < disksize bio_ex" "card (busy bio_ex) < NBUF" using c(3) by (simp_all add: param_defs)
  have r: "rev [0..<NBUF] = 29 # rev [0..<29]" "remove1 29 [0..<NBUF] = [0..<29]" by (simp_all add: param_defs upt_rec)
  show ?thesis
    using lru_replacement [OF bio_ex_thr c(1) l n b] by (simp add: r buf_ex_def)
qed

end
