(* ===== verification/Log.thy ===== *)
theory Log
  imports Bio
begin

unbundle bit_operations_syntax

text \<open>
  The write-ahead log \<^verbatim>\<open>log.c\<close>, with the superblock of \<^verbatim>\<open>fs.h\<close> and \<^verbatim>\<open>readsb\<close> of \<^verbatim>\<open>fs.c\<close>.

  \<^verbatim>\<open>struct logheader\<close> in a block is its bytes: \<^verbatim>\<open>n\<close> at offset 0, \<^verbatim>\<open>block[i]\<close> at offset \<open>4 + 4 * i\<close>.
\<close>

section \<open>State\<close>

record superblock =
  sb_size :: "32 word"
  sb_nblocks :: "32 word"
  sb_ninodes :: "32 word"
  sb_nlog :: "32 word"
  sb_logstart :: "32 word"
  sb_inodestart :: "32 word"
  sb_bmapstart :: "32 word"

record logheader =
  lh_n :: int
  lh_block :: "32 word list"

record log =
  lg_start :: "32 word"
  lg_size :: int
  lg_outstanding :: int
  lg_committing :: bool
  lg_dev :: "32 word"
  lg_lh :: logheader

record log_st = bio_st +
  log :: log

definition upd_log :: "(log \<Rightarrow> log) \<Rightarrow> 'z log_st_scheme \<Rightarrow> 'z log_st_scheme" where
  "upd_log f s = s\<lparr>log := f (log s)\<rparr>"

definition upd_lh :: "(logheader \<Rightarrow> logheader) \<Rightarrow> 'z log_st_scheme \<Rightarrow> 'z log_st_scheme" where
  "upd_lh f s = upd_log (\<lambda>l. l\<lparr>lg_lh := f (lg_lh l)\<rparr>) s"

definition set_data :: "nat \<Rightarrow> byte list \<Rightarrow> 'z bio_st_scheme \<Rightarrow> 'z bio_st_scheme" where
  "set_data i d s = upd_buf i (\<lambda>b. b\<lparr>b_data := d\<rparr>) s"

section \<open>Superblock\<close>

definition superblock_of :: "byte list \<Rightarrow> superblock" where
  "superblock_of d = \<lparr>sb_size = rd32 d 0, sb_nblocks = rd32 d 4, sb_ninodes = rd32 d 8, sb_nlog = rd32 d 12,
     sb_logstart = rd32 d 16, sb_inodestart = rd32 d 20, sb_bmapstart = rd32 d 24\<rparr>"

definition readsb :: "32 word \<Rightarrow> 'z bio_st_scheme \<Rightarrow> (superblock \<times> 'z bio_st_scheme) kres" where
  "readsb dev s =
     kbind (bread dev 1 s) (\<lambda>(bp, s1).
     let sb = superblock_of (b_data (bufs s1 bp)) in
     kbind (brelse bp s1) (\<lambda>s2. Ok (sb, s2)))"

section \<open>Transactions\<close>

definition install_block :: "nat \<Rightarrow> 'z log_st_scheme \<Rightarrow> 'z log_st_scheme kres" where
  "install_block tail s =
     kbind (bread (lg_dev (log s)) (lg_start (log s) + of_nat tail + 1) s) (\<lambda>(lbuf, s1).
     kbind (aread (lh_block (lg_lh (log s1))) (int tail)) (\<lambda>b.
     kbind (bread (lg_dev (log s1)) b s1) (\<lambda>(dbuf, s2).
     kbind (bwrite dbuf (set_data dbuf (b_data (bufs s2 lbuf)) s2)) (\<lambda>s3.
     kbind (brelse lbuf s3) (brelse dbuf)))))"

definition install_trans :: "'z log_st_scheme \<Rightarrow> 'z log_st_scheme kres" where
  "install_trans s = foldk install_block [0..<nat (lh_n (lg_lh (log s)))] s"

definition read_head :: "'z log_st_scheme \<Rightarrow> 'z log_st_scheme kres" where
  "read_head s =
     kbind (bread (lg_dev (log s)) (lg_start (log s)) s) (\<lambda>(bp, s1).
     let d = b_data (bufs s1 bp); n = sint (rd32 d 0) in
     kbind (foldk (\<lambda>i s.
         kbind (awrite (lh_block (lg_lh (log s))) (int i) (rd32 d (4 + 4 * i))) (\<lambda>a.
         Ok (upd_lh (\<lambda>h. h\<lparr>lh_block := a\<rparr>) s)))
       [0..<nat n] (upd_lh (\<lambda>h. h\<lparr>lh_n := n\<rparr>) s1)) (brelse bp))"

fun put_blocks :: "nat \<Rightarrow> 32 word list \<Rightarrow> byte list \<Rightarrow> byte list" where
  "put_blocks i [] d = d"
| "put_blocks i (b # bs) d = put_blocks (Suc i) bs (wr32 d (4 + 4 * i) b)"

definition write_head :: "'z log_st_scheme \<Rightarrow> 'z log_st_scheme kres" where
  "write_head s =
     kbind (bread (lg_dev (log s)) (lg_start (log s)) s) (\<lambda>(bp, s1).
     let h = lg_lh (log s1);
         d = put_blocks 0 (take (nat (lh_n h)) (lh_block h)) (wr32 (b_data (bufs s1 bp)) 0 (word_of_int (lh_n h)))
     in kbind (bwrite bp (set_data bp d s1)) (brelse bp))"

definition recover_from_log :: "'z log_st_scheme \<Rightarrow> 'z log_st_scheme kres" where
  "recover_from_log s =
     kbind (read_head s) (\<lambda>s1.
     kbind (install_trans s1) (\<lambda>s2.
     write_head (upd_lh (\<lambda>h. h\<lparr>lh_n := 0\<rparr>) s2)))"

definition initlog :: "32 word \<Rightarrow> 'z log_st_scheme \<Rightarrow> 'z log_st_scheme kres" where
  "initlog dev s =
     kbind (panic_if (4 + 4 * LOGSIZE \<ge> BSIZE) ''initlog: too big logheader'') (\<lambda>_.
     kbind (readsb dev (initlock LogLock ''log'' s)) (\<lambda>(sb, s1).
     recover_from_log
       (upd_log (\<lambda>l. l\<lparr>lg_start := sb_logstart sb, lg_size := sint (sb_nlog sb), lg_dev := dev\<rparr>) s1)))"

partial_function (option) begin_op_loop ::
  "('z log_st_scheme \<Rightarrow> 'z log_st_scheme kres) \<Rightarrow> 'z log_st_scheme \<Rightarrow> 'z log_st_scheme kres option"
where
  "begin_op_loop sw s =
     (if lg_committing (log s)
      then kobind (sleep sw ChLog (Some LogLock) s) (\<lambda>s1. begin_op_loop sw s1)
      else if lh_n (lg_lh (log s)) + (lg_outstanding (log s) + 1) * int MAXOPBLOCKS > int LOGSIZE
      then kobind (sleep sw ChLog (Some LogLock) s) (\<lambda>s1. begin_op_loop sw s1)
      else Some (release LogLock (upd_log (\<lambda>l. l\<lparr>lg_outstanding := lg_outstanding l + 1\<rparr>) s)))"

definition begin_op :: "'z log_st_scheme \<Rightarrow> 'z log_st_scheme kres" where
  "begin_op s = kbind (acquire LogLock s) (\<lambda>s1. krun (begin_op_loop switch_away s1))"

definition write_log_block :: "nat \<Rightarrow> 'z log_st_scheme \<Rightarrow> 'z log_st_scheme kres" where
  "write_log_block tail s =
     kbind (bread (lg_dev (log s)) (lg_start (log s) + of_nat tail + 1) s) (\<lambda>(to, s1).
     kbind (aread (lh_block (lg_lh (log s1))) (int tail)) (\<lambda>b.
     kbind (bread (lg_dev (log s1)) b s1) (\<lambda>(from, s2).
     kbind (bwrite to (set_data to (b_data (bufs s2 from)) s2)) (\<lambda>s3.
     kbind (brelse from s3) (brelse to)))))"

definition write_log :: "'z log_st_scheme \<Rightarrow> 'z log_st_scheme kres" where
  "write_log s = foldk write_log_block [0..<nat (lh_n (lg_lh (log s)))] s"

definition commit :: "'z log_st_scheme \<Rightarrow> 'z log_st_scheme kres" where
  "commit s =
     (if lh_n (lg_lh (log s)) > 0
      then kbind (write_log s) (\<lambda>s1.
           kbind (write_head s1) (\<lambda>s2.
           kbind (install_trans s2) (\<lambda>s3.
           write_head (upd_lh (\<lambda>h. h\<lparr>lh_n := 0\<rparr>) s3))))
      else Ok s)"

definition end_op :: "'z log_st_scheme \<Rightarrow> 'z log_st_scheme kres" where
  "end_op s =
     kbind (acquire LogLock s) (\<lambda>s1.
     let s2 = upd_log (\<lambda>l. l\<lparr>lg_outstanding := lg_outstanding l - 1\<rparr>) s1 in
     kbind (panic_if (lg_committing (log s2)) ''log.committing'') (\<lambda>_.
     if lg_outstanding (log s2) = 0
     then kbind (release LogLock (upd_log (\<lambda>l. l\<lparr>lg_committing := True\<rparr>) s2)) (\<lambda>s3.
          kbind (commit s3) (\<lambda>s4.
          kbind (acquire LogLock s4) (\<lambda>s5.
          kbind (wakeup ChLog (upd_log (\<lambda>l. l\<lparr>lg_committing := False\<rparr>) s5)) (release LogLock))))
     else kbind (wakeup ChLog s2) (release LogLock)))"

text \<open>The loop of \<^verbatim>\<open>log_write\<close>: the position of a block in the log, the first free one if it is not there.\<close>

definition log_slot :: "logheader \<Rightarrow> 32 word \<Rightarrow> nat" where
  "log_slot h b =
     (case find (\<lambda>i. lh_block h ! i = b) [0..<nat (lh_n h)] of Some i \<Rightarrow> i | None \<Rightarrow> nat (lh_n h))"

definition log_write :: "nat \<Rightarrow> 'z log_st_scheme \<Rightarrow> 'z log_st_scheme kres" where
  "log_write bp s =
     (let l = log s; h = lg_lh l in
      kbind (panic_if (lh_n h \<ge> int LOGSIZE \<or> lh_n h \<ge> lg_size l - 1) ''too big a transaction'') (\<lambda>_.
      kbind (panic_if (lg_outstanding l < 1) ''log_write outside of trans'') (\<lambda>_.
      kbind (acquire LogLock s) (\<lambda>s1.
      let h1 = lg_lh (log s1); bno = b_blockno (bufs s1 bp); i = log_slot h1 bno in
      kbind (awrite (lh_block h1) (int i) bno) (\<lambda>a.
      release LogLock
        (upd_buf bp (\<lambda>b. b\<lparr>b_dirty := True\<rparr>)
          (upd_lh (\<lambda>h. h\<lparr>lh_block := a, lh_n := (if int i = lh_n h then lh_n h + 1 else lh_n h)\<rparr>) s1)))))))"

section \<open>The header block\<close>

text \<open>The header block \<open>d\<close> after \<^verbatim>\<open>write_head\<close> has stored the block numbers \<open>bs\<close>, and the block numbers \<^verbatim>\<open>read_head\<close> finds.\<close>

definition header_bytes :: "byte list \<Rightarrow> 32 word list \<Rightarrow> byte list" where
  "header_bytes d bs = put_blocks 0 bs (wr32 d 0 (word_of_int (int (length bs))))"

definition header_blocks :: "byte list \<Rightarrow> 32 word list" where
  "header_blocks d = map (\<lambda>i. rd32 d (4 + 4 * i)) [0..<nat (sint (rd32 d 0))]"

lemma length_put_blocks [simp]: "length (put_blocks i bs d) = length d"
  by (induction i bs d rule: put_blocks.induct) simp_all

lemma put_blocks_below: "j + 4 \<le> 4 + 4 * i \<Longrightarrow> rd32 (put_blocks i bs d) j = rd32 d j"
  by (induction i bs d rule: put_blocks.induct) (simp_all add: rd32_wr32_other)

lemma put_blocks_nth:
  "k < length bs \<Longrightarrow> 4 + 4 * (i + length bs) \<le> length d \<Longrightarrow> rd32 (put_blocks i bs d) (4 + 4 * (i + k)) = bs ! k"
proof (induction i bs d arbitrary: k rule: put_blocks.induct)
  case (2 i b bs d)
  show ?case
  proof (cases k)
    case 0
    then show ?thesis using 2 by (simp add: put_blocks_below rd32_wr32_same)
  next
    case (Suc k')
    then show ?thesis using 2(1) [of k'] 2(2,3) by simp
  qed
qed simp

lemma length_header [simp]: "length (header_bytes d bs) = length d"
  by (simp add: header_bytes_def)

lemma header_roundtrip:
  assumes "length bs \<le> LOGSIZE" and "length d = BSIZE"
  shows "sint (rd32 (header_bytes d bs) 0) = int (length bs)" and "header_blocks (header_bytes d bs) = bs"
proof -
  have l: "length bs \<le> 30" "length d = 512" using assms by (simp_all add: param_defs BSIZE_def)
  have "rd32 (header_bytes d bs) 0 = word_of_int (int (length bs))"
    using l by (simp add: header_bytes_def put_blocks_below rd32_wr32_same)
  then show n: "sint (rd32 (header_bytes d bs) 0) = int (length bs)"
    using l by (simp add: signed_of_nat signed_take_bit_int_eq_self)
  have "rd32 (header_bytes d bs) (4 + 4 * k) = bs ! k" if "k < length bs" for k
    using put_blocks_nth [OF that, of 0] l by (simp add: header_bytes_def)
  then show "header_blocks (header_bytes d bs) = bs"
    by (intro nth_equalityI) (simp_all add: header_blocks_def n)
qed

section \<open>Copying blocks\<close>

lemma bio_more_log: "bio_st.more t = bio_st.more s \<longleftrightarrow> log t = log s \<and> log_st.more t = log_st.more s"
  for s t :: "'z log_st_scheme"
  by (cases s; cases t; simp)

lemma upd_log_fields [simp]: "bufs (upd_log f s) = bufs s" "slocks (upd_log f s) = slocks s" "disk (upd_log f s) = disk s"
  "disksize (upd_log f s) = disksize s" "wlog (upd_log f s) = wlog s" "log (upd_log f s) = f (log s)"
  "log (upd_lh g s) = (log s)\<lparr>lg_lh := g (lg_lh (log s))\<rparr>" "bufs (upd_lh g s) = bufs s"
  "log_st.more (upd_log f s) = log_st.more s" "log_st.more (upd_lh g s) = log_st.more s" "slocks (upd_lh g s) = slocks s"
  by (simp_all add: upd_log_def upd_lh_def)

lemma same_ilocks_lh [simp]: "same_ilocks (upd_lh f s) t = same_ilocks s t" "same_ilocks s (upd_lh g t) = same_ilocks s t"
  by (simp_all add: same_ilocks_def)

lemma upd_log_bio [simp]: "cinv (upd_log f s) = cinv s" "contents (upd_log f s) = contents s" "dirtyb (upd_log f s) = dirtyb s"
  "heldb (upd_log f s) = heldb s" "busy (upd_log f s) = busy s" "thr lo p q (upd_log f s) = thr lo p q s"
  "owns q i b (upd_log f s) = owns q i b s"
proof -
  show "contents (upd_log f s) = contents s" by (rule contents_cong) simp_all
  show "thr lo p q (upd_log f s) = thr lo p q s" by (rule thr_cong) (simp_all add: same_core_def upd_log_def)
qed (simp_all add: cinv_def buf_ok_def dirtyb_def heldb_def busy_def owns_def sl_held_def)

lemma upd_lh_bio [simp]: "cinv (upd_lh f s) = cinv s" "contents (upd_lh f s) = contents s" "dirtyb (upd_lh f s) = dirtyb s"
  "heldb (upd_lh f s) = heldb s" "busy (upd_lh f s) = busy s" "thr lo p q (upd_lh f s) = thr lo p q s"
  "disk (upd_lh f s) = disk s" "disksize (upd_lh f s) = disksize s" "wlog (upd_lh f s) = wlog s" "owns q i b (upd_lh f s) = owns q i b s"
  by (simp_all add: upd_lh_def)

text \<open>Block \<open>b\<close> is written with \<open>d\<close>, and nothing else happens to the cache.\<close>

definition wrote :: "32 word \<Rightarrow> byte list \<Rightarrow> 'z bio_st_scheme \<Rightarrow> 'z bio_st_scheme \<Rightarrow> bool" where
  "wrote b d s t \<longleftrightarrow> cinv t \<and> contents t = (contents s)(b := d) \<and> disk t = (disk s)(b := d) \<and> dirtyb t = dirtyb s - {b} \<and>
     heldb t = heldb s \<and> busy t \<subseteq> busy s \<and> disksize t = disksize s \<and> wlog t = wlog s @ [(b, d)] \<and>
     bio_st.more t = bio_st.more s"

lemma write_log_block_ok:
  fixes s :: "'z log_st_scheme"
  assumes s: "thr None p q s" "cinv s" "card (busy s) < NBUF" "lg_dev (log s) = 1"
    and k: "k < length (lh_block (lg_lh (log s)))"
    and a: "a = lg_start (log s) + of_nat k + 1" "a < disksize s" "a \<notin> heldb s"
    and b: "b = lh_block (lg_lh (log s)) ! k" "b < disksize s" "b \<notin> heldb s" "b \<in> dirtyb s" "a \<noteq> b"
  shows "\<exists>t. write_log_block k s = Ok t \<and> thr None p q t \<and> wrote a (contents s b) s t"
proof -
  obtain i s1 where s1: "bread 1 a s = Ok (i, s1)" "thr None p q s1" "after_read q a s i s1"
    using bread_ok [OF s(1,2) a(2,3)] s(3) by blast
  note r1 = s1(3) [unfolded after_read_def]
  have l1: "log s1 = log s" using r1 by (simp add: bio_more_log)
  obtain j s2 where s2: "bread 1 b s1 = Ok (j, s2)" "thr None p q s2" "after_read q b s1 j s2"
    using bread_ok [OF s1(2), of b] r1 b by auto
  note r2 = s2(3) [unfolded after_read_def]
  have ij: "i \<noteq> j" using r1 r2 by blast
  have o2: "owns q i a s2" using r1 r2 ij by (auto simp: keeps_owned_def)
  let ?d = "contents s b"
  have d: "b_data (bufs s2 j) = ?d" "length ?d = BSIZE"
    using r1 r2 contents_length [OF s(2) b(2)] by simp_all
  obtain s3 where s3: "bwrite i (upd_buf i (\<lambda>x. x\<lparr>b_data := ?d\<rparr>) s2) = Ok s3" "thr None p q s3" "after_write q i a ?d s2 s3"
    using bwrite_ok [OF s2(2) _ o2 d(2)] r2 by blast
  note r3 = s3(3) [unfolded after_write_def]
  have o3: "owns q j b s3" using r2 r3 ij by (auto simp: keeps_owned_def)
  have d3: "b \<in> dirtyb s3" using b(4,5) r1 r2 r3 by simp
  obtain s4 where s4: "brelse j s3 = Ok s4" "thr None p q s4" "after_release q j b s3 s4"
    using brelse_ok [OF s3(2) _ o3] d3 r3 by blast
  note r4 = s4(3) [unfolded after_release_def]
  have o4: "owns q i a s4" "b_data (bufs s4 i) = ?d" using r3 r4 ij by (auto simp: keeps_owned_def)
  obtain s5 where s5: "brelse i s4 = Ok s5" "thr None p q s5" "after_release q i a s4 s5"
    using brelse_ok [OF s4(2) _ o4(1)] o4(2) r3 r4 by auto
  note r5 = s5(3) [unfolded after_release_def]
  have "write_log_block k s = Ok s5"
    using s1(1) s2(1) s3(1) s4(1) s5(1) s(4) k l1 a(1) b(1) d(1) by (simp add: write_log_block_def set_data_def)
  moreover have "wrote a ?d s s5"
    unfolding wrote_def using r1 r2 r3 r4 r5 d3 ij a(3) b(3-5) by auto
  ultimately show ?thesis using s5(2) by blast
qed

lemma install_block_ok:
  fixes s :: "'z log_st_scheme"
  assumes s: "thr None p q s" "cinv s" "card (busy s) < NBUF" "lg_dev (log s) = 1"
    and k: "k < length (lh_block (lg_lh (log s)))"
    and a: "a = lg_start (log s) + of_nat k + 1" "a < disksize s" "a \<notin> heldb s"
    and b: "b = lh_block (lg_lh (log s)) ! k" "b < disksize s" "b \<notin> heldb s" "b \<in> dirtyb s \<or> card (busy s) + 1 < NBUF" "a \<noteq> b"
  shows "\<exists>t. install_block k s = Ok t \<and> thr None p q t \<and> wrote b (contents s a) s t"
proof -
  obtain i s1 where s1: "bread 1 a s = Ok (i, s1)" "thr None p q s1" "after_read q a s i s1"
    using bread_ok [OF s(1,2) a(2,3)] s(3) by blast
  note r1 = s1(3) [unfolded after_read_def]
  have l1: "log s1 = log s" using r1 by (simp add: bio_more_log)
  have "card (busy s1) \<le> card (busy s) + 1" using r1 by (simp add: card_insert_le_m1 card_insert_if busy_def)
  then have av: "card (busy s1) < NBUF \<or> b \<in> dirtyb s1" using b(4) r1 by auto
  obtain j s2 where s2: "bread 1 b s1 = Ok (j, s2)" "thr None p q s2" "after_read q b s1 j s2"
    using bread_ok [OF s1(2) _ _ _ av] r1 b(2,3,5) by auto
  note r2 = s2(3) [unfolded after_read_def]
  have ij: "i \<noteq> j" using r1 r2 by blast
  have o2: "owns q i a s2" using r1 r2 ij by (auto simp: keeps_owned_def)
  let ?d = "contents s a"
  have d: "b_data (bufs s2 i) = ?d" "length ?d = BSIZE"
    using r1 r2 ij contents_length [OF s(2) a(2)] by (auto simp: keeps_owned_def)
  obtain s3 where s3: "bwrite j (upd_buf j (\<lambda>x. x\<lparr>b_data := ?d\<rparr>) s2) = Ok s3" "thr None p q s3" "after_write q j b ?d s2 s3"
    using bwrite_ok [OF s2(2) _ _ d(2)] r2 by blast
  note r3 = s3(3) [unfolded after_write_def]
  have o3: "owns q i a s3" "b_data (bufs s3 i) = ?d" using o2 d(1) r3 ij by (auto simp: keeps_owned_def)
  have c3: "a \<in> dirtyb s3 \<or> b_data (bufs s3 i) = disk s3 a"
    using clean_contents [OF s(2) _ a(3)] r1 r2 r3 o3(2) b(5) by auto
  obtain s4 where s4: "brelse i s3 = Ok s4" "thr None p q s4" "after_release q i a s3 s4"
    using brelse_ok [OF s3(2) _ o3(1) c3] r3 by blast
  note r4 = s4(3) [unfolded after_release_def]
  have o4: "owns q j b s4" "b_data (bufs s4 j) = ?d" using r3 r4 ij by (auto simp: keeps_owned_def)
  obtain s5 where s5: "brelse j s4 = Ok s5" "thr None p q s5" "after_release q j b s4 s5"
    using brelse_ok [OF s4(2) _ o4(1)] o4(2) r3 r4 by auto
  note r5 = s5(3) [unfolded after_release_def]
  have "install_block k s = Ok s5"
    using s1(1) s2(1) s3(1) s4(1) s5(1) s(4) k l1 a(1) b(1) d(1) by (simp add: install_block_def set_data_def)
  moreover have "wrote b ?d s s5"
    unfolding wrote_def using r1 r2 r3 r4 r5 ij a(3) b(3,5) by auto
  ultimately show ?thesis using s5(2) by blast
qed

lemma write_head_ok:
  fixes s :: "'z log_st_scheme"
  assumes s: "thr None p q s" "cinv s" "card (busy s) < NBUF" "lg_dev (log s) = 1"
    and a: "a = lg_start (log s)" "a < disksize s" "a \<notin> heldb s"
    and b: "lh_n (lg_lh (log s)) = int (length bs)" "take (length bs) (lh_block (lg_lh (log s))) = bs"
  shows "\<exists>t. write_head s = Ok t \<and> thr None p q t \<and> wrote a (header_bytes (contents s a) bs) s t"
proof -
  obtain i s1 where s1: "bread 1 a s = Ok (i, s1)" "thr None p q s1" "after_read q a s i s1"
    using bread_ok [OF s(1,2) a(2,3)] s(3) by blast
  note r1 = s1(3) [unfolded after_read_def]
  have l1: "log s1 = log s" using r1 by (simp add: bio_more_log)
  let ?d = "header_bytes (contents s a) bs"
  have d: "length ?d = BSIZE" using contents_length [OF s(2) a(2)] by simp
  obtain s2 where s2: "bwrite i (upd_buf i (\<lambda>x. x\<lparr>b_data := ?d\<rparr>) s1) = Ok s2" "thr None p q s2" "after_write q i a ?d s1 s2"
    using bwrite_ok [OF s1(2) _ _ d] r1 by blast
  note r2 = s2(3) [unfolded after_write_def]
  obtain s3 where s3: "brelse i s2 = Ok s3" "thr None p q s3" "after_release q i a s2 s3"
    using brelse_ok [OF s2(2), of i a] r2 by auto
  note r3 = s3(3) [unfolded after_release_def]
  have "write_head s = Ok s3"
    using s1(1) s2(1) s3(1) s(4) a(1) l1 b r1 by (simp add: write_head_def set_data_def Let_def header_bytes_def)
  moreover have "wrote a ?d s s3" unfolding wrote_def using r1 r2 r3 a(3) by auto
  ultimately show ?thesis using s3(2) by blast
qed

text \<open>Reading a block and releasing it: the cache looks the same.\<close>

definition looked :: "'z bio_st_scheme \<Rightarrow> 'z bio_st_scheme \<Rightarrow> bool" where
  "looked s t \<longleftrightarrow> cinv t \<and> contents t = contents s \<and> disk t = disk s \<and> dirtyb t = dirtyb s \<and> heldb t = heldb s \<and>
     busy t = busy s \<and> disksize t = disksize s \<and> wlog t = wlog s \<and> same_ilocks s t"

lemma look_release:
  assumes "cinv s" and "b \<notin> heldb s" and "after_read q b s i t" and "thr None p q t"
  shows "\<exists>u. brelse i t = Ok u \<and> thr None p q u \<and> looked s u \<and> bio_st.more u = bio_st.more s"
proof -
  note r = assms(3) [unfolded after_read_def]
  have "b \<in> dirtyb t \<or> b_data (bufs t i) = disk t b" using clean_contents [OF assms(1) _ assms(2)] r by auto
  then obtain u where u: "brelse i t = Ok u" "thr None p q u" "after_release q i b t u"
    using brelse_ok [OF assms(4), of i b] r by blast
  have "looked s u \<and> bio_st.more u = bio_st.more s"
    using u(3) r assms(2) unfolding after_release_def looked_def same_ilocks_def by auto
  then show ?thesis using u by blast
qed

lemma upd_lh_upd_lh [simp]: "upd_lh f (upd_lh g s) = upd_lh (\<lambda>h. f (g h)) s"
  by (simp add: upd_lh_def upd_log_def)

lemma read_blocks_ok:
  fixes s :: "'z log_st_scheme"
  assumes "k \<le> length (lh_block (lg_lh (log s)))"
  shows "foldk (\<lambda>i s. kbind (awrite (lh_block (lg_lh (log s))) (int i) (f i)) (\<lambda>a. Ok (upd_lh (\<lambda>h. h\<lparr>lh_block := a\<rparr>) s))) [0..<k] s =
     Ok (upd_lh (\<lambda>h. h\<lparr>lh_block := map f [0..<k] @ drop k (lh_block h)\<rparr>) s)"
  using assms
proof (induction k)
  case 0
  then show ?case by (simp add: upd_lh_def upd_log_def)
next
  case (Suc k)
  let ?xs = "lh_block (lg_lh (log s))"
  have "(map f [0..<k] @ drop k ?xs)[k := f k] = map f [0..<Suc k] @ drop (Suc k) ?xs"
    using Suc.prems by (simp add: list_update_append Cons_nth_drop_Suc [symmetric])
  then show ?case
    using Suc by (simp add: foldk_append awrite_def) (simp add: upd_lh_def upd_log_def)
qed

lemma read_head_ok:
  fixes s :: "'z log_st_scheme"
  assumes s: "thr None p q s" "cinv s" "card (busy s) < NBUF" "lg_dev (log s) = 1"
    and a: "a = lg_start (log s)" "a < disksize s" "a \<notin> heldb s"
    and b: "sint (rd32 (contents s a) 0) = int (length bs)" "header_blocks (contents s a) = bs"
      "length bs \<le> length (lh_block (lg_lh (log s)))"
  shows "\<exists>t. read_head s = Ok t \<and> thr None p q t \<and> looked s t \<and>
     log t = (log s)\<lparr>lg_lh := \<lparr>lh_n = int (length bs), lh_block = bs @ drop (length bs) (lh_block (lg_lh (log s)))\<rparr>\<rparr> \<and>
     log_st.more t = log_st.more s"
proof -
  obtain i s1 where s1: "bread 1 a s = Ok (i, s1)" "thr None p q s1" "after_read q a s i s1"
    using bread_ok [OF s(1,2) a(2,3)] s(3) by blast
  note r1 = s1(3) [unfolded after_read_def]
  have l1: "log s1 = log s" "b_data (bufs s1 i) = contents s a" using r1 by (simp_all add: bio_more_log)
  let ?g = "\<lambda>h. h\<lparr>lh_n := int (length bs), lh_block := bs @ drop (length bs) (lh_block h)\<rparr>"
  have m: "map (\<lambda>i. rd32 (contents s a) (4 + 4 * i)) [0..<length bs] = bs"
    using b(1,2) by (simp add: header_blocks_def)
  have "read_head s = brelse i (upd_lh ?g s1)"
    using s1(1) s(4) a(1) b(1,3) l1 m
      read_blocks_ok [of "length bs" "upd_lh (\<lambda>h. h\<lparr>lh_n := int (length bs)\<rparr>) s1" "\<lambda>i. rd32 (contents s a) (4 + 4 * i)"]
    by (simp add: read_head_def Let_def)
  moreover have "after_read q a (upd_lh ?g s) i (upd_lh ?g s1)"
    unfolding after_read_def using r1 by (simp add: keeps_owned_def bio_more_log)
  then obtain t where "brelse i (upd_lh ?g s1) = Ok t" "thr None p q t" "looked (upd_lh ?g s) t" "bio_st.more t = bio_st.more (upd_lh ?g s)"
    using look_release [of "upd_lh ?g s" a q i "upd_lh ?g s1" p] s(2) a(3) s1(2) by auto
  ultimately show ?thesis by (simp add: looked_def bio_more_log)
qed

section \<open>Sequences of writes\<close>

definition apply_writes :: "(32 word \<times> byte list) list \<Rightarrow> (32 word \<Rightarrow> byte list) \<Rightarrow> 32 word \<Rightarrow> byte list" where
  "apply_writes W d = fold (\<lambda>(b, x) d. d(b := x)) W d"

lemma apply_writes_simps [simp]: "apply_writes [] d = d" "apply_writes ((b, x) # W) d = apply_writes W (d(b := x))"
  "apply_writes (W @ V) d = apply_writes V (apply_writes W d)"
  by (simp_all add: apply_writes_def)

lemma apply_writes_other: "b \<notin> fst ` set W \<Longrightarrow> apply_writes W d b = d b"
  by (induction W arbitrary: d) auto

lemma apply_writes_map:
  "inj_on f {..<n} \<Longrightarrow> i < n \<Longrightarrow> apply_writes (map (\<lambda>i. (f i, g i)) [0..<n]) d (f i) = g i"
proof (induction n)
  case (Suc n)
  then show ?case by (cases "i = n") (auto simp: inj_on_def)
qed simp

text \<open>The blocks of \<open>W\<close> are written, in this order.\<close>

definition wrote_all :: "(32 word \<times> byte list) list \<Rightarrow> 'z bio_st_scheme \<Rightarrow> 'z bio_st_scheme \<Rightarrow> bool" where
  "wrote_all W s t \<longleftrightarrow> cinv t \<and> contents t = apply_writes W (contents s) \<and> disk t = apply_writes W (disk s) \<and>
     dirtyb t = dirtyb s - fst ` set W \<and> heldb t = heldb s \<and> busy t \<subseteq> busy s \<and> disksize t = disksize s \<and>
     wlog t = wlog s @ W \<and> bio_st.more t = bio_st.more s"

lemma wrote_all_Nil: "cinv s \<Longrightarrow> wrote_all [] s s"
  by (simp add: wrote_all_def)

lemma wrote_all_snoc: "wrote_all W s t \<Longrightarrow> wrote b d t u \<Longrightarrow> wrote_all (W @ [(b, d)]) s u"
  by (auto simp: wrote_all_def wrote_def)

lemma wrote_all_one: "wrote b d s t \<Longrightarrow> wrote_all [(b, d)] s t"
  by (auto simp: wrote_all_def wrote_def)

lemma wrote_all_trans: "wrote_all W s t \<Longrightarrow> wrote_all V t u \<Longrightarrow> wrote_all (W @ V) s u"
  by (auto simp: wrote_all_def)

lemma card_busy_mono: "busy t \<subseteq> busy s \<Longrightarrow> card (busy t) \<le> card (busy s)"
  by (rule card_mono) (auto simp: busy_def)

section \<open>The loops of the log\<close>

definition logblk :: "32 word \<Rightarrow> nat \<Rightarrow> 32 word" where
  "logblk st i = st + of_nat i + 1"

lemma logblk_inj: "i < 2 ^ 31 \<Longrightarrow> j < 2 ^ 31 \<Longrightarrow> logblk st i = logblk st j \<longleftrightarrow> i = j"
  by (auto simp: logblk_def word_of_nat_eq_iff take_bit_nat_eq_self)

lemma logblk_head: "i < 2 ^ 31 \<Longrightarrow> logblk st i \<noteq> st"
proof
  assume "i < 2 ^ 31" "logblk st i = st"
  then have "(of_nat (Suc i) :: 32 word) = of_nat 0" by (simp add: logblk_def add.commute)
  then show False using \<open>i < 2 ^ 31\<close> by (simp only: word_of_nat_eq_iff) (simp add: take_bit_nat_eq_self)
qed

text \<open>The log in memory lists the blocks \<open>bs\<close>; they and the log blocks for them are blocks of the disk nobody has locked.\<close>

definition logs :: "32 word list \<Rightarrow> 'z log_st_scheme \<Rightarrow> bool" where
  "logs bs s \<longleftrightarrow> (let st = lg_start (log s) in
     lg_dev (log s) = 1 \<and> lh_n (lg_lh (log s)) = int (length bs) \<and> length bs \<le> LOGSIZE \<and>
     length (lh_block (lg_lh (log s))) = LOGSIZE \<and> take (length bs) (lh_block (lg_lh (log s))) = bs \<and>
     (\<forall>i<length bs. logblk st i < disksize s \<and> logblk st i \<notin> heldb s \<and> logblk st i \<notin> set bs) \<and>
     st < disksize s \<and> st \<notin> heldb s \<and> st \<notin> set bs \<and> (\<forall>b\<in>set bs. b < disksize s \<and> b \<notin> heldb s))"

lemma logs_cong: "log t = log s \<Longrightarrow> heldb t = heldb s \<Longrightarrow> disksize t = disksize s \<Longrightarrow> logs bs t = logs bs s"
  by (simp add: logs_def)

lemma logs_nth:
  assumes "logs bs s" and "k < length bs"
  shows "k < length (lh_block (lg_lh (log s)))" and "lh_block (lg_lh (log s)) ! k = bs ! k"
proof -
  have "take (length bs) (lh_block (lg_lh (log s))) = bs" using assms(1) by (simp add: logs_def Let_def)
  then show "lh_block (lg_lh (log s)) ! k = bs ! k" using assms(2) nth_take by metis
  show "k < length (lh_block (lg_lh (log s)))" using assms by (simp add: logs_def Let_def)
qed

lemma logsD:
  assumes "logs bs s"
  shows "lg_dev (log s) = 1" and "lh_n (lg_lh (log s)) = int (length bs)" and "length bs \<le> LOGSIZE"
    and "take (length bs) (lh_block (lg_lh (log s))) = bs"
    and "\<And>i. i < length bs \<Longrightarrow> logblk (lg_start (log s)) i < disksize s \<and> logblk (lg_start (log s)) i \<notin> heldb s \<and>
           logblk (lg_start (log s)) i \<notin> set bs"
    and "lg_start (log s) < disksize s" and "lg_start (log s) \<notin> heldb s" and "lg_start (log s) \<notin> set bs"
    and "\<And>b. b \<in> set bs \<Longrightarrow> b < disksize s \<and> b \<notin> heldb s" and "length (lh_block (lg_lh (log s))) = LOGSIZE"
  using assms by (simp_all add: logs_def Let_def)

text \<open>The writes of \<^verbatim>\<open>write_log\<close> and of \<^verbatim>\<open>install_trans\<close>.\<close>

definition log_writes :: "32 word \<Rightarrow> 32 word list \<Rightarrow> (32 word \<Rightarrow> byte list) \<Rightarrow> nat \<Rightarrow> (32 word \<times> byte list) list" where
  "log_writes st bs f k = map (\<lambda>i. (logblk st i, f (bs ! i))) [0..<k]"

definition install_writes :: "32 word \<Rightarrow> 32 word list \<Rightarrow> (32 word \<Rightarrow> byte list) \<Rightarrow> nat \<Rightarrow> (32 word \<times> byte list) list" where
  "install_writes st bs f k = map (\<lambda>i. (bs ! i, f (logblk st i))) [0..<k]"

lemma log_writes_blocks: "fst ` set (log_writes st bs f k) = logblk st ` {..<k}"
  by (simp add: log_writes_def image_image lessThan_atLeast0)

lemma install_writes_blocks: "k \<le> length bs \<Longrightarrow> fst ` set (install_writes st bs f k) = set (take k bs)"
  by (simp add: install_writes_def image_image nth_image)

lemma write_log_loop:
  fixes s :: "'z log_st_scheme"
  assumes s: "thr None p q s" "cinv s" "card (busy s) < NBUF" "logs bs s"
    and d: "set bs \<subseteq> dirtyb s" and k: "k \<le> length bs"
  shows "\<exists>t. foldk write_log_block [0..<k] s = Ok t \<and> thr None p q t \<and>
     wrote_all (log_writes (lg_start (log s)) bs (contents s) k) s t"
  using k
proof (induction k)
  case 0
  then show ?case using s wrote_all_Nil [OF s(2)] by (simp add: log_writes_def)
next
  case (Suc k)
  let ?st = "lg_start (log s)"
  obtain t where t: "foldk write_log_block [0..<k] s = Ok t" "thr None p q t"
    and w: "wrote_all (log_writes ?st bs (contents s) k) s t"
    using Suc by auto
  note wd = w [unfolded wrote_all_def log_writes_blocks]
  have l: "log t = log s" using wd by (simp add: bio_more_log)
  have lt: "logs bs t" using s(4) logs_cong [of t s bs] l wd by simp
  note g = logsD [OF s(4)] and gt = logsD [OF lt]
  have kb: "k < length bs" "bs ! k \<in> set bs" using Suc.prems by simp_all
  have "logblk ?st x \<noteq> bs ! k" if "x < k" for x using g(5) [of x] that kb by auto
  then have nl: "bs ! k \<notin> logblk ?st ` {..<k}" by (metis imageE lessThan_iff)
  then have c: "contents t (bs ! k) = contents s (bs ! k)"
    using wd apply_writes_other [of "bs ! k"] log_writes_blocks by simp
  have dk: "bs ! k \<in> dirtyb t" using wd d kb(2) nl by auto
  have b: "card (busy t) < NBUF" using card_busy_mono [of t s] wd s(3) by simp
  have ne: "logblk ?st k \<noteq> bs ! k" using g(5) kb by metis
  obtain u where u: "write_log_block k t = Ok u" "thr None p q u" "wrote (logblk ?st k) (contents t (bs ! k)) t u"
    using write_log_block_ok [OF t(2) _ b gt(1) logs_nth(1) [OF lt kb(1)], of "logblk ?st k" "bs ! k"]
      wd gt(5) [OF kb(1)] gt(9) [OF kb(2)] logs_nth(2) [OF lt kb(1)] dk ne l by (auto simp: logblk_def)
  have "wrote_all (log_writes ?st bs (contents s) (Suc k)) s u"
    using wrote_all_snoc [OF w u(3)] c by (simp add: log_writes_def)
  then show ?case using t(1) u(1,2) by (auto simp: foldk_append)
qed

lemma install_loop:
  fixes s :: "'z log_st_scheme"
  assumes s: "thr None p q s" "cinv s" "card (busy s) < NBUF" "logs bs s"
    and d: "distinct bs \<and> set bs \<subseteq> dirtyb s \<or> card (busy s) + 1 < NBUF" and k: "k \<le> length bs"
  shows "\<exists>t. foldk install_block [0..<k] s = Ok t \<and> thr None p q t \<and>
     wrote_all (install_writes (lg_start (log s)) bs (contents s) k) s t"
  using k
proof (induction k)
  case 0
  then show ?case using s wrote_all_Nil [OF s(2)] by (simp add: install_writes_def)
next
  case (Suc k)
  let ?st = "lg_start (log s)"
  obtain t where t: "foldk install_block [0..<k] s = Ok t" "thr None p q t"
    and w: "wrote_all (install_writes ?st bs (contents s) k) s t"
    using Suc by auto
  have kb: "k < length bs" "bs ! k \<in> set bs" "k \<le> length bs" using Suc.prems by simp_all
  note wd = w [unfolded wrote_all_def install_writes_blocks [OF kb(3)]]
  have l: "log t = log s" using wd by (simp add: bio_more_log)
  have lt: "logs bs t" using s(4) logs_cong [of t s bs] l wd by simp
  note g = logsD [OF s(4)] and gt = logsD [OF lt]
  have nl: "logblk ?st k \<notin> set (take k bs)" using g(5) [OF kb(1)] by (meson in_set_takeD)
  then have c: "contents t (logblk ?st k) = contents s (logblk ?st k)"
    using wd apply_writes_other [of "logblk ?st k"] install_writes_blocks [OF kb(3)] by simp
  have b: "card (busy t) \<le> card (busy s)" using card_busy_mono [of t s] wd by simp
  have "bs ! k \<notin> set (take k bs)" if "distinct bs" using that kb(1) by (auto simp: in_set_conv_nth nth_eq_iff_index_eq)
  then have dk: "bs ! k \<in> dirtyb t \<or> card (busy t) + 1 < NBUF" using wd d kb(2) b by auto
  have ne: "logblk ?st k \<noteq> bs ! k" using g(5) kb by metis
  obtain u where u: "install_block k t = Ok u" "thr None p q u" "wrote (bs ! k) (contents t (logblk ?st k)) t u"
    using install_block_ok [OF t(2) _ _ gt(1) logs_nth(1) [OF lt kb(1)], of "logblk ?st k" "bs ! k"]
      wd gt(5) [OF kb(1)] gt(9) [OF kb(2)] logs_nth(2) [OF lt kb(1)] dk ne l b s(3) by (auto simp: logblk_def)
  have "wrote_all (install_writes ?st bs (contents s) (Suc k)) s u"
    using wrote_all_snoc [OF w u(3)] c by (simp add: install_writes_def)
  then show ?case using t(1) u(1,2) by (auto simp: foldk_append)
qed

section \<open>Commit\<close>

text \<open>
  The disk writes of a commit of the blocks \<open>bs\<close> with the new contents \<open>f\<close>: the log, the header, the
  blocks, and the empty header.
\<close>

definition commit_writes :: "32 word \<Rightarrow> 32 word list \<Rightarrow> (32 word \<Rightarrow> byte list) \<Rightarrow> (32 word \<times> byte list) list" where
  "commit_writes st bs f =
     log_writes st bs f (length bs) @ [(st, header_bytes (f st) bs)] @ map (\<lambda>b. (b, f b)) bs @
     [(st, header_bytes (header_bytes (f st) bs) [])]"

lemma small_log: "logs bs s \<Longrightarrow> i < length bs \<Longrightarrow> i < 2 ^ 31"
  using logsD(3) [of bs s] by (simp add: param_defs)

lemma wrote_state:
  fixes s :: "'z log_st_scheme"
  assumes "wrote_all W s t" and "card (busy s) < NBUF"
  shows "cinv t" and "contents t = apply_writes W (contents s)" and "dirtyb t = dirtyb s - fst ` set W"
    and "card (busy t) < NBUF" and "log t = log s" and "heldb t = heldb s" and "disksize t = disksize s"
    and "logs bs t = logs bs s"
proof -
  show w: "cinv t" "contents t = apply_writes W (contents s)" "dirtyb t = dirtyb s - fst ` set W" "log t = log s"
    "heldb t = heldb s" "disksize t = disksize s"
    using assms(1) by (simp_all add: wrote_all_def bio_more_log)
  show "card (busy t) < NBUF" using assms card_busy_mono [of t s] by (simp add: wrote_all_def)
  show "logs bs t = logs bs s" using w by (intro logs_cong)
qed

lemma commit_ok:
  fixes s :: "'z log_st_scheme"
  assumes s: "thr None p q s" "cinv s" "card (busy s) < NBUF" "logs bs s"
    and bs: "bs \<noteq> []" "distinct bs" "set bs \<subseteq> dirtyb s"
  shows "\<exists>t. commit s = Ok t \<and> thr None p q t \<and> cinv t \<and> wlog t = wlog s @ commit_writes (lg_start (log s)) bs (contents s) \<and>
     disk t = apply_writes (commit_writes (lg_start (log s)) bs (contents s)) (disk s) \<and> lh_n (lg_lh (log t)) = 0"
proof -
  let ?st = "lg_start (log s)" and ?C = "contents s" and ?n = "length bs"
  let ?L = "log_writes ?st bs ?C ?n" and ?H = "[(?st, header_bytes (?C ?st) bs)]"
  note g = logsD [OF s(4)]
  obtain s1 where s1: "write_log s = Ok s1" "thr None p q s1" and w1: "wrote_all ?L s s1"
    using write_log_loop [OF s bs(3) order_refl] g(2) by (auto simp: write_log_def)
  note e1 = wrote_state [OF w1 s(3)]
  have st: "?st \<notin> logblk ?st ` {..<?n}" using logblk_head small_log [OF s(4)] by (metis imageE lessThan_iff)
  have c1: "contents s1 ?st = ?C ?st" using e1(2) apply_writes_other [of ?st ?L] st log_writes_blocks by metis
  obtain s2 where s2: "write_head s1 = Ok s2" "thr None p q s2" and h2: "wrote ?st (header_bytes (?C ?st) bs) s1 s2"
    using write_head_ok [OF s1(2) e1(1,4) _ refl, of bs] g e1(5-7) c1 by auto
  have w2: "wrote_all (?L @ ?H) s s2" using wrote_all_snoc [OF w1 h2] .
  note e2 = wrote_state [OF w2 s(3)]
  have d2: "set bs \<subseteq> dirtyb s2"
    using e2(3) bs(3) g(5,8) by (auto simp: log_writes_blocks)
  obtain s3 where s3: "install_trans s2 = Ok s3" "thr None p q s3"
    and i3: "wrote_all (install_writes ?st bs (contents s2) ?n) s2 s3"
    using install_loop [OF s2(2) e2(1,4), of bs ?n] e2(5,8) s(4) bs(2) d2 g(2) by (auto simp: install_trans_def)
  have "inj_on (logblk ?st) {..<?n}" using logblk_inj small_log [OF s(4)] by (auto simp: inj_on_def)
  then have "contents s2 (logblk ?st i) = ?C (bs ! i)" if "i < ?n" for i
    using e2(2) apply_writes_map [OF _ that, of "logblk ?st"] logblk_head small_log [OF s(4) that] that
    by (simp add: log_writes_def)
  then have iw: "install_writes ?st bs (contents s2) ?n = map (\<lambda>b. (b, ?C b)) bs"
    unfolding install_writes_def by (intro nth_equalityI) simp_all
  have w3: "wrote_all ((?L @ ?H) @ map (\<lambda>b. (b, ?C b)) bs) s s3" using wrote_all_trans [OF w2] i3 iw by simp
  note e3 = wrote_state [OF w3 s(3)]
  have c3: "contents s3 ?st = header_bytes (?C ?st) bs"
    using e3(2) apply_writes_other [of ?st "map (\<lambda>b. (b, ?C b)) bs"] g(8) by (auto simp: image_image)
  let ?s3 = "upd_lh (\<lambda>h. h\<lparr>lh_n := 0\<rparr>) s3"
  obtain s4 where s4: "write_head ?s3 = Ok s4" "thr None p q s4" and h4: "wrote ?st (header_bytes (header_bytes (?C ?st) bs) []) ?s3 s4"
    using write_head_ok [of p q ?s3 ?st "[]"] s3(2) e3(1,4-7) g(1,6,7) c3 by auto
  have "commit s = Ok s4"
    using s1(1) s2(1) s3(1) s4(1) g(2) bs(1) by (simp add: commit_def)
  moreover have "wlog s4 = wlog s @ commit_writes ?st bs ?C" "disk s4 = apply_writes (commit_writes ?st bs ?C) (disk s)"
    using h4 w3 by (simp_all add: wrote_def wrote_all_def commit_writes_def)
  moreover have "cinv s4" "lh_n (lg_lh (log s4)) = 0" using h4 by (simp_all add: wrote_def bio_more_log)
  ultimately show ?thesis using s4(2) by blast
qed

section \<open>Redo logging\<close>

text \<open>
  The argument for the log, for any encoding \<open>enc\<close> of the list of logged blocks in the header block that
  \<open>dec\<close> inverts.  A commit writes \<open>wal_writes\<close>; recovery copies the logged blocks home (\<open>redo\<close>).
\<close>

definition wal_writes ::
  "(byte list \<Rightarrow> 32 word list \<Rightarrow> byte list) \<Rightarrow> 32 word \<Rightarrow> 32 word list \<Rightarrow> (32 word \<Rightarrow> byte list) \<Rightarrow> (32 word \<times> byte list) list" where
  "wal_writes enc st bs f =
     log_writes st bs f (length bs) @ [(st, enc (f st) bs)] @ map (\<lambda>b. (b, f b)) bs @ [(st, enc (enc (f st) bs) [])]"

definition redo :: "(byte list \<Rightarrow> 32 word list) \<Rightarrow> 32 word \<Rightarrow> (32 word \<Rightarrow> byte list) \<Rightarrow> 32 word \<Rightarrow> byte list" where
  "redo dec st d = (let bs = dec (d st) in apply_writes (install_writes st bs d (length bs)) d)"

lemma redo_empty: "dec (d st) = [] \<Longrightarrow> redo dec st d = d"
  by (simp add: redo_def install_writes_def)

lemma apply_writes_blocks: "apply_writes (map (\<lambda>b. (b, f b)) bs) d b = (if b \<in> set bs then f b else d b)"
  by (induction bs arbitrary: d) auto

locale redo_log =
  fixes enc :: "byte list \<Rightarrow> 32 word list \<Rightarrow> byte list" and dec :: "byte list \<Rightarrow> 32 word list"
  assumes dec_enc: "length bs \<le> LOGSIZE \<Longrightarrow> length d = BSIZE \<Longrightarrow> dec (enc d bs) = bs"
    and length_enc: "length (enc d bs) = length d"
begin

lemma crash_before:
  assumes "dec (d st) = []" and "k \<le> length bs" and "length bs \<le> LOGSIZE" and "b \<notin> logblk st ` {..<length bs}"
  shows "redo dec st (apply_writes (take k (wal_writes enc st bs f)) d) b = d b"
proof -
  have t: "take k (wal_writes enc st bs f) = log_writes st bs f k"
    using assms(2) by (simp add: wal_writes_def log_writes_def take_map min_def)
  have "logblk st i \<noteq> st" if "i < k" for i using logblk_head [of i] that assms(2,3) by (simp add: param_defs)
  then have "st \<notin> logblk st ` {..<k}" by (metis imageE lessThan_iff)
  then have "apply_writes (log_writes st bs f k) d st = d st" by (intro apply_writes_other) (simp add: log_writes_blocks)
  then show ?thesis
    using assms t by (simp add: redo_empty) (intro apply_writes_other, auto simp: log_writes_blocks)
qed

lemma crash_after:
  assumes bs: "length bs \<le> LOGSIZE" "st \<notin> set bs" "\<And>i. i < length bs \<Longrightarrow> logblk st i \<notin> set bs"
    and f: "length (f st) = BSIZE" and k: "length bs < k" and b: "b \<noteq> st" "b \<notin> logblk st ` {..<length bs}"
  shows "redo dec st (apply_writes (take k (wal_writes enc st bs f)) d) b = (if b \<in> set bs then f b else d b)"
proof -
  let ?n = "length bs" and ?L = "log_writes st bs f (length bs)" and ?I = "map (\<lambda>b. (b, f b)) bs"
  let ?d1 = "apply_writes (?L @ [(st, enc (f st) bs)]) d"
  obtain m where m: "k = ?n + 1 + m" using k by (metis less_iff_Suc_add add_Suc_right add_Suc Suc_eq_plus1)
  have lt: "length ?L = ?n" by (simp add: log_writes_def)
  have small: "i < 2 ^ 31" if "i < ?n" for i using that bs(1) by (simp add: param_defs)
  have inj: "inj_on (logblk st) {..<?n}" using logblk_inj small by (auto simp: inj_on_def)
  have d1b: "?d1 b = d b" using b apply_writes_other [of b ?L d] by (simp add: log_writes_blocks)
  show ?thesis
  proof (cases "m \<le> ?n")
    case True
    let ?d = "apply_writes (take m ?I) ?d1"
    have W: "apply_writes (take k (wal_writes enc st bs f)) d = ?d" using True lt by (simp add: wal_writes_def m)
    have keep: "?d c = ?d1 c" if "c \<notin> set bs" for c
      using that by (intro apply_writes_other) (auto simp: take_map dest: in_set_takeD)
    have st: "dec (?d st) = bs" using keep [OF bs(2)] dec_enc [OF bs(1) f] by simp
    have lg: "?d (logblk st i) = f (bs ! i)" if "i < ?n" for i
      using keep [OF bs(3) [OF that]] apply_writes_map [OF inj that, of "\<lambda>i. f (bs ! i)" d] logblk_head [OF small [OF that]]
      by (simp add: log_writes_def)
    have "install_writes st bs ?d ?n = ?I" unfolding install_writes_def by (intro nth_equalityI) (use lg in simp_all)
    then have "redo dec st ?d b = (if b \<in> set bs then f b else ?d b)"
      unfolding redo_def st Let_def by (simp add: apply_writes_blocks)
    then show ?thesis using W keep [of b] d1b by auto
  next
    case False
    let ?d = "apply_writes (?I @ [(st, enc (enc (f st) bs) [])]) ?d1"
    have "take k (wal_writes enc st bs f) = wal_writes enc st bs f" using False lt by (simp add: wal_writes_def m)
    then have W: "apply_writes (take k (wal_writes enc st bs f)) d = ?d" by (simp add: wal_writes_def)
    have "dec (?d st) = []" using dec_enc [of "[]" "enc (f st) bs"] f by (simp add: length_enc)
    then show ?thesis using W d1b b(1) by (simp add: redo_empty apply_writes_blocks)
  qed
qed

end

interpretation xv6_log: redo_log header_bytes header_blocks
  by unfold_locales (simp_all add: header_roundtrip)

lemma commit_writes_wal: "commit_writes st bs f = wal_writes header_bytes st bs f"
  by (simp add: commit_writes_def wal_writes_def)

section \<open>Recovery\<close>

lemma recover_ok:
  fixes r :: "'z log_st_scheme"
  assumes r: "thr None p q r" "cinv r" "contents r = disk r" "card (busy r) + 1 < NBUF" "lg_dev (log r) = 1"
      "length (lh_block (lg_lh (log r))) = LOGSIZE"
    and st: "st = lg_start (log r)" "st < disksize r" "st \<notin> heldb r" "st \<notin> set bs"
    and bs: "sint (rd32 (disk r st) 0) = int (length bs)" "header_blocks (disk r st) = bs" "length bs \<le> LOGSIZE"
    and lb: "\<And>i. i < length bs \<Longrightarrow> logblk st i < disksize r \<and> logblk st i \<notin> heldb r \<and> logblk st i \<notin> set bs"
    and b: "\<And>b. b \<in> set bs \<Longrightarrow> b < disksize r \<and> b \<notin> heldb r"
  shows "\<exists>u. recover_from_log r = Ok u \<and> thr None p q u \<and> cinv u \<and> lh_n (lg_lh (log u)) = 0 \<and> header_blocks (disk u st) = [] \<and>
     (\<forall>b. b \<noteq> st \<longrightarrow> disk u b = redo header_blocks st (disk r) b)"
proof -
  obtain r1 where r1: "read_head r = Ok r1" "thr None p q r1" "looked r r1"
    and l1: "log r1 = (log r)\<lparr>lg_lh := \<lparr>lh_n = int (length bs), lh_block = bs @ drop (length bs) (lh_block (lg_lh (log r)))\<rparr>\<rparr>"
    using read_head_ok [OF r(1,2) _ r(5) st(1-3)] r(3,4,6) bs by auto
  note k1 = r1(3) [unfolded looked_def]
  have g: "logs bs r1"
    using r(5,6) st bs(3) lb b k1 l1 by (simp add: logs_def)
  have c1: "card (busy r1) < NBUF" "card (busy r1) + 1 < NBUF" using k1 r(4) by simp_all
  obtain r2 where r2: "install_trans r1 = Ok r2" "thr None p q r2"
    and w2: "wrote_all (install_writes st bs (disk r) (length bs)) r1 r2"
    using install_loop [OF r1(2) _ c1(1) g _ order_refl] c1(2) k1 l1 r(3) st(1) by (auto simp: install_trans_def)
  note e2 = wrote_state [OF w2 c1(1)]
  let ?r2 = "upd_lh (\<lambda>h. h\<lparr>lh_n := 0\<rparr>) r2"
  obtain u where u: "write_head ?r2 = Ok u" "thr None p q u" "wrote st (header_bytes (contents r2 st) []) ?r2 u"
    using write_head_ok [of p q ?r2 st "[]"] r2(2) e2 l1 k1 r(5) st by auto
  have "recover_from_log r = Ok u" using r1(1) r2(1) u(1) by (simp add: recover_from_log_def)
  moreover have "disk u b = redo header_blocks st (disk r) b" if "b \<noteq> st" for b
    using u(3) w2 k1 that bs(2) by (simp add: wrote_def wrote_all_def redo_def)
  moreover have "length (contents r2 st) = BSIZE" using contents_length [OF e2(1)] e2(7) k1 st(2) by simp
  then have "header_blocks (disk u st) = []" using u(3) header_roundtrip [of "[]"] by (simp add: wrote_def)
  moreover have "cinv u" "lh_n (lg_lh (log u)) = 0" using u(3) by (simp_all add: wrote_def bio_more_log)
  ultimately show ?thesis using u(2) by blast
qed

lemma readsb_ok:
  assumes "thr None p q s" and "cinv s" and "card (busy s) < NBUF" and "1 < disksize s" and "1 \<notin> heldb s"
  shows "\<exists>t. readsb 1 s = Ok (superblock_of (contents s 1), t) \<and> thr None p q t \<and> looked s t \<and> bio_st.more t = bio_st.more s"
proof -
  obtain i t where t: "bread 1 1 s = Ok (i, t)" "thr None p q t" "after_read q 1 s i t"
    using bread_ok [OF assms(1,2,4,5)] assms(3) by blast
  then have d: "b_data (bufs t i) = contents s 1" by (simp add: after_read_def)
  obtain u where "brelse i t = Ok u" "thr None p q u" "looked s u" "bio_st.more u = bio_st.more s"
    using look_release [OF assms(2,5) t(3,2)] by blast
  then show ?thesis using t(1) d by (simp add: readsb_def Let_def)
qed

lemma thr_initlock: "thr None p q s \<Longrightarrow> thr None p q (initlock l n s)"
proof -
  assume t: "thr None p q s"
  have "cpus (initlock l n s) = cpus s" "ncpu (initlock l n s) = ncpu s" "me (initlock l n s) = me s" "iflag (initlock l n s) = iflag s"
    "procs (initlock l n s) = procs s" "cpu_index (initlock l n s) = cpu_index s"
    by (simp_all add: initlock_def)
  moreover have "\<not> lk_locked (locks (initlock l n s) l')" for l'
    using t by (simp add: thr_def quiet_def initlock_def)
  ultimately show ?thesis
    using t by (simp add: thr_def quiet_def cpu_ready_def depth_def my_index_def cur_proc_def)
qed

lemma initlock_bio [simp]: "cinv (initlock l n s) = cinv s" "contents (initlock l n s) = contents s" "dirtyb (initlock l n s) = dirtyb s"
  "heldb (initlock l n s) = heldb s" "busy (initlock l n s) = busy s" "bio_st.more (initlock l n s) = bio_st.more s"
  "wlog (initlock l n s) = wlog s"
proof -
  show "contents (initlock l n s) = contents s" by (rule contents_cong) simp_all
qed (simp_all add: cinv_def buf_ok_def dirtyb_def heldb_def busy_def initlock_def)

lemma initlog_ok:
  fixes r :: "'z log_st_scheme"
  assumes r: "thr None p q r" "cold r" "length (lh_block (lg_lh (log r))) = LOGSIZE" "1 < disksize r"
    and st: "st = sb_logstart (superblock_of (disk r 1))" "st < disksize r" "st \<notin> set bs"
    and bs: "sint (rd32 (disk r st) 0) = int (length bs)" "header_blocks (disk r st) = bs" "length bs \<le> LOGSIZE"
    and lb: "\<And>i. i < length bs \<Longrightarrow> logblk st i < disksize r \<and> logblk st i \<notin> set bs"
    and b: "\<And>b. b \<in> set bs \<Longrightarrow> b < disksize r"
  shows "\<exists>u. initlog 1 r = Ok u \<and> thr None p q u \<and> cinv u \<and> lh_n (lg_lh (log u)) = 0 \<and> header_blocks (disk u st) = [] \<and>
     (\<forall>b. b \<noteq> st \<longrightarrow> disk u b = redo header_blocks st (disk r) b)"
proof -
  note c = cold_cinv [OF r(2)]
  let ?r = "initlock LogLock ''log'' r"
  have nb: "1 < NBUF" by (simp add: param_defs)
  obtain t where t: "readsb 1 ?r = Ok (superblock_of (disk r 1), t)" "thr None p q t" "looked ?r t" "bio_st.more t = bio_st.more ?r"
    using readsb_ok [OF thr_initlock [OF r(1), of LogLock "''log''"]] c r(4) nb by auto
  note k = t(3) [unfolded looked_def]
  let ?sb = "superblock_of (disk r 1)"
  let ?f = "\<lambda>l. l\<lparr>lg_start := sb_logstart ?sb, lg_size := sint (sb_nlog ?sb), lg_dev := 1\<rparr>"
  have l: "log t = log r" using t(4) by (simp add: bio_more_log)
  have "\<exists>u. recover_from_log (upd_log ?f t) = Ok u \<and> thr None p q u \<and> cinv u \<and> lh_n (lg_lh (log u)) = 0 \<and>
      header_blocks (disk u st) = [] \<and> (\<forall>b. b \<noteq> st \<longrightarrow> disk u b = redo header_blocks st (disk (upd_log ?f t)) b)"
    by (rule recover_ok) (use t(2) k c l r(3) st bs lb b nb in auto)
  then show ?thesis using t(1) k by (simp add: initlog_def param_defs BSIZE_def)
qed

text \<open>The header a crash leaves after \<open>k\<close> of the writes of a commit.\<close>

lemma crash_header:
  assumes "length bs \<le> LOGSIZE" and "st \<notin> set bs"
  shows "apply_writes (take k (commit_writes st bs f)) d st =
     (if k \<le> length bs then d st else if k \<le> 2 * length bs + 1 then header_bytes (f st) bs
      else header_bytes (header_bytes (f st) bs) [])"
proof -
  let ?n = "length bs" and ?L = "log_writes st bs f (length bs)" and ?I = "map (\<lambda>b. (b, f b)) bs"
  have lt: "length ?L = ?n" by (simp add: log_writes_def)
  have "logblk st i \<noteq> st" if "i < ?n" for i using logblk_head [of i] that assms(1) by (simp add: param_defs)
  then have L: "st \<notin> fst ` set ?L" unfolding log_writes_blocks by (metis imageE lessThan_iff)
  have "k = ?n + 1 + (k - ?n - 1) \<and> k - ?n - 1 \<le> ?n" if "?n < k" "k \<le> 2 * ?n + 1" using that by linarith
  then consider "k \<le> ?n" | m where "k = ?n + 1 + m" "m \<le> ?n" | "2 * ?n + 1 < k" by (meson not_le_imp_less)
  then show ?thesis
  proof cases
    case 1
    then have "take k (commit_writes st bs f) = take k ?L" using lt by (simp add: commit_writes_def)
    moreover have "st \<notin> fst ` set (take k ?L)" using L by (auto dest: in_set_takeD)
    ultimately show ?thesis using 1 by (simp add: apply_writes_other)
  next
    case 2
    then have "take k (commit_writes st bs f) = (?L @ [(st, header_bytes (f st) bs)]) @ take m ?I"
      using lt by (simp add: commit_writes_def)
    moreover have "st \<notin> fst ` set (take m ?I)" using assms(2) by (auto simp: take_map dest: in_set_takeD)
    ultimately show ?thesis using 2 by (simp add: apply_writes_other)
  next
    case 3
    then have "take k (commit_writes st bs f) = commit_writes st bs f" using lt by (simp add: commit_writes_def)
    then show ?thesis using 3 by (simp add: commit_writes_def)
  qed
qed

text \<open>A transaction of the blocks \<open>bs\<close> that is ready to be committed: the blocks are dirty in the cache and the log on disk is empty.\<close>

definition commit_ready :: "32 word list \<Rightarrow> 'z log_st_scheme \<Rightarrow> bool" where
  "commit_ready bs s \<longleftrightarrow> cinv s \<and> card (busy s) < NBUF \<and> logs bs s \<and> bs \<noteq> [] \<and> distinct bs \<and> set bs \<subseteq> dirtyb s \<and>
     lg_start (log s) \<notin> dirtyb s \<and> rd32 (disk s (lg_start (log s))) 0 = 0"

text \<open>Block 1 is the superblock, outside the log and the transaction, and says where the log starts.\<close>

definition superblock_ready :: "32 word list \<Rightarrow> 'z log_st_scheme \<Rightarrow> bool" where
  "superblock_ready bs s \<longleftrightarrow> 1 < disksize s \<and> sb_logstart (superblock_of (disk s 1)) = lg_start (log s) \<and> 1 \<notin> set bs \<and>
     lg_start (log s) \<noteq> 1 \<and> (\<forall>i<length bs. logblk (lg_start (log s)) i \<noteq> 1)"

lemma commit_writes_off:
  assumes "1 \<notin> set bs" and "st \<noteq> 1" and "\<And>i. i < length bs \<Longrightarrow> logblk st i \<noteq> 1"
  shows "apply_writes (take k (commit_writes st bs f)) d 1 = d 1"
proof -
  have "1 \<notin> fst ` set (commit_writes st bs f)"
    using assms by (auto simp: commit_writes_def log_writes_def)
  then show ?thesis by (intro apply_writes_other) (auto dest: in_set_takeD)
qed

section \<open>Recording a block\<close>

text \<open>The blocks of the transaction in memory.\<close>

definition log_list :: "'z log_st_scheme \<Rightarrow> 32 word list" where
  "log_list s = take (nat (lh_n (lg_lh (log s)))) (lh_block (lg_lh (log s)))"

text \<open>A buffer a process owns may become dirty.\<close>

lemma mark_dirty:
  assumes "cinv s" and "owns q i b s"
  defines "t \<equiv> upd_buf i (\<lambda>b. b\<lparr>b_dirty := True\<rparr>) s"
  shows "cinv t" and "dirtyb t = insert b (dirtyb s)" and "contents t = contents s" and "heldb t = heldb s"
    and "busy t = busy s" and "owns q i b t"
proof -
  note o = ownsD [OF assms(1,2)]
  show "owns q i b t" using assms(2) by (simp add: t_def owns_def sl_held_def)
  show "heldb t = heldb s" by (auto simp: t_def heldb_def)
  show "busy t = busy s" using o(2) by (auto simp: t_def busy_def sl_held_def)
  obtain xs where "lru (bufs s) xs" using assms(1) by (auto simp: cinv_def)
  then have "lru (bufs t) xs" by (subst lru_cong [of _ "bufs s"]) (simp_all add: t_def)
  moreover have "buf_ok t j" if "j < NBUF" for j
    using cinv_buf [OF assms(1) that] o by (cases "j = i") (auto simp: t_def buf_ok_def Let_def sl_held_def)
  moreover have "j = k" if "j < NBUF" "k < NBUF" "b_dev (bufs t j) = 1" "b_dev (bufs t k) = 1"
    "b_blockno (bufs t j) = b_blockno (bufs t k)" for j k
    using that cinv_inj [OF assms(1), of j k] by (simp add: t_def split: if_splits)
  moreover have "disk t = disk s" "disksize t = disksize s" by (simp_all add: t_def)
  ultimately show "cinv t" using cinv_disk [OF assms(1)] unfolding cinv_def by metis
  show "contents t = contents s" by (rule contents_cong) (simp_all add: t_def)
  have "c \<in> dirtyb t \<longleftrightarrow> c = b \<or> (\<exists>j<NBUF. b_dirty (bufs s j) \<and> b_blockno (bufs s j) = c)" for c
    unfolding dirtyb_iff t_def using o(1,4) by auto
  then show "dirtyb t = insert b (dirtyb s)" by (intro set_eqI) (simp add: dirtyb_iff)
qed

lemma find_upt_nth:
  assumes "n \<le> length xs"
  shows "find (\<lambda>i. xs ! i = b) [0..<n] = None \<longleftrightarrow> b \<notin> set (take n xs)"
    and "find (\<lambda>i. xs ! i = b) [0..<n] = Some i \<Longrightarrow> i < n \<and> xs ! i = b"
  using assms by (auto simp: find_None_iff find_Some_iff in_set_conv_nth)

lemma log_frame [simp]: "log (acq l s) = log s" "log (rel l s) = log s"
  "log_st.more (acq l s) = log_st.more s" "log_st.more (rel l s) = log_st.more s"
  by (simp_all add: acq_def push_def rel_def pop_def Let_def)

lemma log_list_slot:
  assumes "0 \<le> lh_n h" and "lh_n h < int (length (lh_block h))"
  defines "n \<equiv> nat (lh_n h)"
  shows "log_slot h b < length (lh_block h)"
    and "take (nat (if int (log_slot h b) = lh_n h then lh_n h + 1 else lh_n h)) ((lh_block h)[log_slot h b := b]) =
      (if b \<in> set (take n (lh_block h)) then take n (lh_block h) else take n (lh_block h) @ [b])"
proof -
  have n: "n < length (lh_block h)" "lh_n h = int n" using assms(1,2) by (simp_all add: n_def)
  note f = find_upt_nth [of n "lh_block h" b]
  define i where "i = log_slot h b"
  have le: "n \<le> length (lh_block h)" using n(1) by simp
  have c: "(b \<in> set (take n (lh_block h)) \<longrightarrow> i < n \<and> lh_block h ! i = b) \<and> (b \<notin> set (take n (lh_block h)) \<longrightarrow> i = n)"
  proof (cases "find (\<lambda>i. lh_block h ! i = b) [0..<n]")
    case None
    then show ?thesis using f(1) [OF le] by (simp add: i_def log_slot_def n_def)
  next
    case (Some j)
    then show ?thesis using f(1) [OF le] f(2) [OF le Some] by (simp add: i_def log_slot_def n_def)
  qed
  then show "log_slot h b < length (lh_block h)" using n(1) unfolding i_def by fastforce
  have "take (nat (if int i = lh_n h then lh_n h + 1 else lh_n h)) ((lh_block h)[i := b]) =
      (if b \<in> set (take n (lh_block h)) then take n (lh_block h) else take n (lh_block h) @ [b])"
  proof (cases "b \<in> set (take n (lh_block h))")
    case True
    then have "(lh_block h)[i := b] = lh_block h" using c by (metis list_update_id)
    then show ?thesis using True c n(2) by simp
  next
    case False
    then have "nat (lh_n h + 1) = Suc n" using n(2) by simp
    then show ?thesis using False c n by (simp add: take_Suc_update)
  qed
  then show "take (nat (if int (log_slot h b) = lh_n h then lh_n h + 1 else lh_n h)) ((lh_block h)[log_slot h b := b]) =
      (if b \<in> set (take n (lh_block h)) then take n (lh_block h) else take n (lh_block h) @ [b])"
    by (simp only: i_def)
qed

lemma log_write_ok:
  fixes s :: "'z log_st_scheme"
  assumes s: "thr None p q s" "cinv s" "owns q i b s"
    and l: "1 \<le> lg_outstanding (log s)" "0 \<le> lh_n (lg_lh (log s))" "length (lh_block (lg_lh (log s))) = LOGSIZE"
    and fits: "lh_n (lg_lh (log s)) < int LOGSIZE" "lh_n (lg_lh (log s)) < lg_size (log s) - 1"
  shows "\<exists>t. log_write i s = Ok t \<and> thr None p q t \<and> cinv t \<and> contents t = contents s \<and> disk t = disk s \<and> wlog t = wlog s \<and>
     heldb t = heldb s \<and> busy t = busy s \<and> owns q i b t \<and> disksize t = disksize s \<and> same_ilocks s t \<and> log_st.more t = log_st.more s \<and>
     lg_outstanding (log t) = lg_outstanding (log s) \<and> lg_size (log t) = lg_size (log s) \<and>
     length (lh_block (lg_lh (log t))) = LOGSIZE \<and> dirtyb t = insert b (dirtyb s) \<and> log_list t = (if b \<in> set (log_list s) then log_list s else log_list s @ [b]) \<and>
     lh_n (lg_lh (log t)) = int (length (log_list t))"
proof -
  define h where "h = lg_lh (log s)"
  define n where "n = (if int (log_slot h b) = lh_n h then lh_n h + 1 else lh_n h)"
  define g :: "logheader \<Rightarrow> logheader" where "g = (\<lambda>h'. h'\<lparr>lh_block := (lh_block h)[log_slot h b := b], lh_n := n\<rparr>)"
  define u where "u = upd_lh g (acq LogLock s)"
  define v where "v = upd_buf i (\<lambda>b. b\<lparr>b_dirty := True\<rparr>) u"
  note o = ownsD [OF s(2,3)]
  have h: "0 \<le> lh_n h" "lh_n h < int (length (lh_block h))" using fits l by (simp_all add: h_def)
  note sl = log_list_slot [OF h, of b, folded n_def]
  note a = thr_acquire [OF s(1), of LogLock]
  have sb: "same_bio (acq LogLock s) s" by (simp add: same_bio_def)
  have c: "cinv u" "owns q i b u" "contents u = contents s" "dirtyb u = dirtyb s"
    using s(2,3) same_bioD [OF sb] by (simp_all add: u_def)
  note m = mark_dirty [OF c(1,2), folded v_def]
  have v: "thr (Some LogLock) p q v" using a(2) by (simp add: v_def u_def)
  note r = thr_release [OF v]
  have sr: "same_bio (rel LogLock v) v" by (simp add: same_bio_def)
  have run: "log_write i s = Ok (rel LogLock v)"
    using l(1) fits a(1) sl(1) r(1) o(4)
    by (simp add: log_write_def Let_def u_def v_def g_def n_def upd_lh_def upd_log_def flip: h_def cong: if_cong split del: if_split)
  have lg: "lg_lh (log (rel LogLock v)) = h\<lparr>lh_block := (lh_block h)[log_slot h b := b], lh_n := n\<rparr>"
    by (simp add: v_def u_def upd_buf_def g_def h_def)
  then have ll: "log_list (rel LogLock v) = (if b \<in> set (log_list s) then log_list s else log_list s @ [b])"
    using sl(2) by (simp add: log_list_def flip: h_def)
  have "nat n \<le> length (lh_block h)" "0 \<le> n" using h by (auto simp: n_def)
  then have ln: "lh_n (lg_lh (log (rel LogLock v))) = int (length (log_list (rel LogLock v)))"
    using lg by (simp add: log_list_def)
  have "disk (rel LogLock v) = disk s" "wlog (rel LogLock v) = wlog s" "disksize (rel LogLock v) = disksize s"
    "log_st.more (rel LogLock v) = log_st.more s" "lg_outstanding (log (rel LogLock v)) = lg_outstanding (log s)"
    "lg_size (log (rel LogLock v)) = lg_size (log s)" "length (lh_block (lg_lh (log (rel LogLock v)))) = LOGSIZE"
    "heldb u = heldb s" "busy u = busy s" "same_ilocks s (rel LogLock v)"
    using l(3) same_bioD [OF sb] by (simp_all add: v_def u_def g_def upd_buf_def h_def same_ilocks_def)
  then show ?thesis using run r(2) m c ll ln same_bioD [OF sr] by (intro exI [of _ "rel LogLock v"]) simp
qed

section \<open>Sample state\<close>

definition disk_ex :: "32 word \<Rightarrow> byte list" where
  "disk_ex b = (if b = 1 then wr32 (replicate BSIZE 0) 16 2 else replicate BSIZE 0)"

definition log_of :: "bio_st \<Rightarrow> log_st" where
  "log_of s = bio_st.extend s (log_st.fields \<lparr>lg_start = 2, lg_size = 30, lg_outstanding = 0, lg_committing = True, lg_dev = 1,
     lg_lh = \<lparr>lh_n = 1, lh_block = 100 # replicate 29 0\<rparr>\<rparr>)"

text \<open>Block 100 has been changed by a transaction that is about to be committed.\<close>

definition log_ex :: log_st where
  "log_ex = log_of (upd_buf 0 (\<lambda>b. b\<lparr>b_valid := True, b_dirty := True, b_dev := 1, b_blockno := 100, b_data := replicate BSIZE 1\<rparr>)
     (bio_ex\<lparr>disk := disk_ex\<rparr>))"

text \<open>The machine booted on the disk that a crash left after the first two writes of this commit.\<close>

definition crash_ex :: log_st where
  "crash_ex = log_of (bio_ex\<lparr>disk := apply_writes (take 2 (commit_writes 2 [100] (contents log_ex))) disk_ex\<rparr>)"

lemma log_of_fields [simp]: "bufs (log_of s) = bufs s" "slocks (log_of s) = slocks s" "disk (log_of s) = disk s"
  "disksize (log_of s) = disksize s" "wlog (log_of s) = wlog s" "lg_start (log (log_of s)) = 2" "lg_dev (log (log_of s)) = 1"
  "lg_lh (log (log_of s)) = \<lparr>lh_n = 1, lh_block = 100 # replicate 29 0\<rparr>"
  by (simp_all add: log_of_def log_st.defs bio_defs)

lemma log_of_thr: "thr lo p q s \<Longrightarrow> thr lo p q (log_of s)"
proof -
  assume t: "thr lo p q s"
  have "same_core (log_of s) s" "procs (log_of s) = procs s"
    by (simp_all add: same_core_def log_of_def log_st.defs bio_defs)
  then show ?thesis
    using t held_only_cong [of "log_of s" s lo] cur_proc_cong [of "log_of s" s] by (simp add: thr_def)
qed

lemma log_ex_thr: "thr None 3 4 log_ex"
  unfolding log_ex_def by (rule log_of_thr) (simp add: bio_ex_thr)

lemma crash_ex_thr: "thr None 3 4 crash_ex"
  unfolding crash_ex_def by (rule log_of_thr) (simp add: bio_ex_thr)

lemma length_disk_ex [simp]: "length (disk_ex b) = BSIZE"
  by (simp add: disk_ex_def)

lemma log_ex_fields: "disk log_ex = disk_ex" "disksize log_ex = 1000" "slocks log_ex l = \<lparr>sl_locked = False, sl_name = [], sl_pid = 0\<rparr>"
  "bufs log_ex = buf_ex(0 := (buf_ex 0)\<lparr>b_valid := True, b_dirty := True, b_dev := 1, b_blockno := 100, b_data := replicate BSIZE 1\<rparr>)"
  "lg_start (log log_ex) = 2" "wlog log_ex = []" "lg_dev (log log_ex) = 1"
  "lg_lh (log log_ex) = \<lparr>lh_n = 1, lh_block = 100 # replicate 29 0\<rparr>"
  by (simp_all add: log_ex_def) (simp add: bio_ex_def bio_of_def bio_defs)

lemma log_ex_cinv: "cinv log_ex"
proof -
  have "lru (bufs log_ex) [0..<NBUF]" using lru_ex by (subst lru_cong [of _ buf_ex]) (simp_all add: log_ex_fields)
  moreover have "buf_ok log_ex i" for i by (simp add: buf_ok_def log_ex_fields buf_ex_def)
  moreover have "i = 0" if "b_dev (bufs log_ex i) = 1" for i using that by (simp add: log_ex_fields buf_ex_def split: if_splits)
  moreover have "length (disk log_ex b) = BSIZE" for b by (simp add: log_ex_fields)
  ultimately show ?thesis unfolding cinv_def by metis
qed

lemma log_ex_sets: "busy log_ex = {0}" "dirtyb log_ex = {100}" "heldb log_ex = {}"
proof -
  have d: "b_dirty (bufs log_ex i) \<longleftrightarrow> i = 0" "b_blockno (bufs log_ex 0) = 100" "\<not> sl_locked (slocks log_ex l)" for i l
    by (simp_all add: log_ex_fields buf_ex_def)
  have "0 < NBUF" by (simp add: param_defs)
  then show "busy log_ex = {0}" "dirtyb log_ex = {100}" "heldb log_ex = {}"
    by (auto simp: busy_def dirtyb_def heldb_def d)
qed

lemma log_ex_ready: "commit_ready [100] log_ex" "superblock_ready [100] log_ex"
proof -
  show "commit_ready [100] log_ex"
    using log_ex_cinv
    by (simp add: commit_ready_def logs_def log_ex_fields log_ex_sets logblk_def param_defs disk_ex_def rd32_def BSIZE_def)
  show "superblock_ready [100] log_ex"
    by (simp add: superblock_ready_def log_ex_fields logblk_def disk_ex_def superblock_of_def rd32_wr32_same BSIZE_def)
qed

lemma crash_ex_writes: "apply_writes (take 2 (commit_writes 2 [100] f)) disk_ex =
    disk_ex(3 := f 100, 2 := header_bytes (f 2) [100])"
  by (simp add: commit_writes_def log_writes_def logblk_def)

lemma crash_ex_disk: "disk crash_ex = apply_writes (take 2 (commit_writes 2 [100] (contents log_ex))) disk_ex"
  "disksize crash_ex = 1000" "length (lh_block (lg_lh (log crash_ex))) = LOGSIZE"
  by (simp_all add: crash_ex_def param_defs)

lemma crash_ex_cold: "cold crash_ex"
proof -
  have "length (contents log_ex b) = BSIZE" if "b < 1000" for b
    using contents_length [OF log_ex_cinv] that by (simp add: log_ex_fields)
  then have "length (disk crash_ex b) = BSIZE" for b by (simp add: crash_ex_disk crash_ex_writes)
  moreover have "lru (bufs crash_ex) [0..<NBUF]" using lru_ex by (simp add: crash_ex_def)
  moreover have "\<not> b_valid (bufs crash_ex i) \<and> \<not> b_dirty (bufs crash_ex i) \<and> b_refcnt (bufs crash_ex i) = 0 \<and> b_dev (bufs crash_ex i) = 0 \<and>
     \<not> sl_locked (slocks crash_ex (SBuf i))" for i by (simp add: crash_ex_def buf_ex_def)
  ultimately show ?thesis unfolding cold_def by blast
qed

section \<open>Properties\<close>

text \<open>
  C2: transactions are atomic with respect to crashes.  \<^verbatim>\<open>commit\<close> of a transaction that changed the blocks
  \<open>bs\<close> returns, and it writes to the disk exactly the blocks of \<open>commit_writes\<close>, in this order.  Suppose the
  machine stops after any number \<open>k\<close> of these writes and boots again with an empty cache on the disk as it then is.  Then
  \<^verbatim>\<open>initlog\<close> returns, and every block \<open>b\<close> outside the log is as it was before the
  transaction, when the header of the log had not been written (\<open>k\<close> at most the number of blocks),
  and otherwise as the transaction left it: all of its blocks or none.
\<close>

theorem commit_crash_atomic:
  fixes s r :: "'z log_st_scheme" and b :: "32 word"
  assumes s: "thr None p q s" "commit_ready bs s" "superblock_ready bs s"
    and r: "thr None p' q' r" "cold r" "disksize r = disksize s" "length (lh_block (lg_lh (log r))) = LOGSIZE"
      "disk r = apply_writes (take k (commit_writes (lg_start (log s)) bs (contents s))) (disk s)"
    and b: "b \<notin> insert (lg_start (log s)) (logblk (lg_start (log s)) ` {..<length bs})"
  shows "\<exists>t u. commit s = Ok t \<and> wlog t = wlog s @ commit_writes (lg_start (log s)) bs (contents s) \<and> initlog 1 r = Ok u \<and>
     disk u b = (if k \<le> length bs then disk s b else if b \<in> set bs then contents s b else disk s b) \<and>
     header_blocks (disk u (lg_start (log s))) = []"
proof -
  let ?st = "lg_start (log s)" and ?C = "contents s" and ?n = "length bs"
  have cr: "cinv s" "card (busy s) < NBUF" "logs bs s" "bs \<noteq> []" "distinct bs" "set bs \<subseteq> dirtyb s" "?st \<notin> dirtyb s"
    and z: "rd32 (disk s ?st) 0 = 0" using s(2) by (simp_all add: commit_ready_def)
  note sb = s(3) [unfolded superblock_ready_def]
  note g = logsD [OF cr(3)]
  obtain t where t: "commit s = Ok t" "wlog t = wlog s @ commit_writes ?st bs ?C"
    using commit_ok [OF s(1) cr(1-6)] by blast
  have len: "length (?C ?st) = BSIZE" by (rule contents_length [OF cr(1) g(6)])
  note h = crash_header [OF g(3,8), of k ?C "disk s", folded r(5)]
  define xs where "xs = (if k \<le> ?n \<or> 2 * ?n + 1 < k then [] else bs)"
  have hx: "sint (rd32 (disk r ?st) 0) = int (length xs)" "header_blocks (disk r ?st) = xs"
    using h z len header_roundtrip [of bs "?C ?st"] header_roundtrip [of "[]" "header_bytes (?C ?st) bs"] g(3)
    by (auto simp: xs_def header_blocks_def)
  have xb: "set xs \<subseteq> set bs" "length xs \<le> ?n" by (auto simp: xs_def)
  have x1: "?st \<notin> set xs" "length xs \<le> LOGSIZE" using xb g(3,8) by auto
  have x2: "logblk ?st i < disksize r \<and> logblk ?st i \<notin> set xs" if "i < length xs" for i
    using g(5) [of i] that xb r(3) by auto
  have x3: "b < disksize r" if "b \<in> set xs" for b using g(9) [of b] that xb(1) r(3) by auto
  have "disk r 1 = disk s 1" using sb commit_writes_off [of bs ?st k ?C "disk s"] r(5) by simp
  then have x4: "1 < disksize r" "?st = sb_logstart (superblock_of (disk r 1))" "?st < disksize r" using sb g(6) r(3) by simp_all
  obtain u where u: "initlog 1 r = Ok u" "header_blocks (disk u ?st) = []"
    "\<And>b. b \<noteq> ?st \<Longrightarrow> disk u b = redo header_blocks ?st (disk r) b"
    using initlog_ok [OF r(1,2,4) x4 x1(1) hx x1(2) x2 x3] by blast
  have "redo header_blocks ?st (disk r) b = (if k \<le> ?n then disk s b else if b \<in> set bs then ?C b else disk s b)"
  proof (cases "k \<le> ?n")
    case True
    have "header_blocks (disk s ?st) = []" using z by (simp add: header_blocks_def)
    from xv6_log.crash_before [where d = "disk s", OF this True g(3)] show ?thesis using True b by (simp add: r(5) commit_writes_wal)
  next
    case False
    have "redo header_blocks ?st (apply_writes (take k (wal_writes header_bytes ?st bs ?C)) (disk s)) b =
        (if b \<in> set bs then ?C b else disk s b)"
      by (rule xv6_log.crash_after) (use g(3,5,8) len False b in auto)
    then show ?thesis using False by (simp add: r(5) commit_writes_wal)
  qed
  then show ?thesis using t u b by auto
qed

theorem commit_crash_atomic_witness:
  "\<exists>t u. commit log_ex = Ok t \<and> wlog t = commit_writes 2 [100] (contents log_ex) \<and> initlog 1 crash_ex = Ok u \<and>
     disk u 100 = replicate BSIZE 1 \<and> disk crash_ex 100 = replicate BSIZE 0 \<and> header_blocks (disk u 2) = []"
proof -
  have c: "contents log_ex 100 = replicate BSIZE 1"
    using contents_hit [OF log_ex_cinv, of 0 100] by (simp add: param_defs log_ex_fields)
  have "\<exists>t u. commit log_ex = Ok t \<and> wlog t = wlog log_ex @ commit_writes (lg_start (log log_ex)) [100] (contents log_ex) \<and>
     initlog 1 crash_ex = Ok u \<and>
     disk u 100 = (if 2 \<le> length [100::32 word] then disk log_ex 100 else if 100 \<in> set [100::32 word] then contents log_ex 100
       else disk log_ex 100) \<and> header_blocks (disk u (lg_start (log log_ex))) = []"
    by (rule commit_crash_atomic [OF log_ex_thr log_ex_ready crash_ex_thr crash_ex_cold])
      (simp_all add: crash_ex_disk log_ex_fields logblk_def lessThan_Suc)
  then show ?thesis using c by (simp add: crash_ex_disk crash_ex_writes log_ex_fields disk_ex_def)
qed

text \<open>
  C33: recording a block in a transaction.  \<^verbatim>\<open>log_write\<close> of a locked buffer panics when the log is full: at \<^verbatim>\<open>LOGSIZE\<close> blocks
  or at one less than the size the superblock gives.  Otherwise it returns; a block that the
  transaction has already recorded is absorbed, and a new one is appended, so no block is recorded
  twice; the block is dirty, so that it stays in the cache until the commit, and the disk is not touched.
\<close>

theorem log_write_absorbs:
  fixes s :: "'z log_st_scheme"
  assumes "thr None p q s" and "cinv s" and "owns q i b s" and "1 \<le> lg_outstanding (log s)" and "0 \<le> lh_n (lg_lh (log s))"
    and "length (lh_block (lg_lh (log s))) = LOGSIZE" and "distinct (log_list s)"
  shows "if int LOGSIZE \<le> lh_n (lg_lh (log s)) \<or> lg_size (log s) - 1 \<le> lh_n (lg_lh (log s))
     then log_write i s = Panic ''too big a transaction''
     else \<exists>t. log_write i s = Ok t \<and> cinv t \<and> contents t = contents s \<and> disk t = disk s \<and> wlog t = wlog s \<and>
       b \<in> dirtyb t \<and> log_list t = (if b \<in> set (log_list s) then log_list s else log_list s @ [b]) \<and>
       lh_n (lg_lh (log t)) = int (length (log_list t)) \<and> distinct (log_list t)"
proof (cases "int LOGSIZE \<le> lh_n (lg_lh (log s)) \<or> lg_size (log s) - 1 \<le> lh_n (lg_lh (log s))")
  case True
  then show ?thesis by (simp add: log_write_def)
next
  case False
  then show ?thesis using log_write_ok [OF assms(1-6)] assms(7) by auto
qed

theorem log_write_absorbs_witness:
  "\<exists>t. log_write 1 (load 1 7 4 (upd_log (\<lambda>l. l\<lparr>lg_outstanding := 1\<rparr>) log_ex)) = Ok t \<and> log_list t = [100, 7] \<and> 7 \<in> dirtyb t"
proof -
  let ?a = "upd_log (\<lambda>l. l\<lparr>lg_outstanding := 1\<rparr>) log_ex"
  let ?b = "load 1 7 4 ?a"
  have c: "cinv ?a" "thr None 3 4 ?a" using log_ex_cinv log_ex_thr by simp_all
  have f: "slot_for 7 ?a 1" by (simp add: slot_for_def log_ex_fields buf_ex_def param_defs)
  have "thr None 3 4 ?b" using c(2) by (simp add: load_def sl_take_def)
  moreover have "cinv ?b" by (rule load_cinv [OF c(1) _ f]) (simp add: log_ex_fields)
  moreover have "owns 4 1 7 ?b" by (rule load_sets(5) [OF c(1) f])
  moreover have l: "log ?b = (log log_ex)\<lparr>lg_outstanding := 1\<rparr>"
    using load_fields(6) [of 1 7 4 ?a, unfolded bio_more_log] by simp
  moreover have "lg_size (log log_ex) = 30" by (simp add: log_ex_def log_of_def log_st.defs bio_defs)
  ultimately show ?thesis
    using log_write_absorbs [of 3 4 ?b 1 7] by (simp add: log_ex_fields log_list_def param_defs split: if_splits) auto
qed

end
