(* ===== verification/Txn.thy ===== *)
theory Txn
  imports Log
begin

text \<open>
  Changing blocks inside a transaction.  The file system changes a block in one way: \<^verbatim>\<open>bread\<close>, a change of
  the data of the buffer, \<^verbatim>\<open>log_write\<close> and \<^verbatim>\<open>brelse\<close>.  The lemma \<open>edit_ok\<close> says what these four steps do to the contents
  of the disk as processes see them, so that the proofs about inodes and the bitmap need not look at the
  cache and the log again.  There is no code here.
\<close>

section \<open>Room in the transaction\<close>

text \<open>The transaction has room for \<open>k\<close> more blocks, in the header of the log, on the disk and in the cache.\<close>

definition room :: "nat \<Rightarrow> 'z log_st_scheme \<Rightarrow> bool" where
  "room k s \<longleftrightarrow> cinv s \<and> 1 \<le> lg_outstanding (log s) \<and> 0 \<le> lh_n (lg_lh (log s)) \<and>
     length (lh_block (lg_lh (log s))) = LOGSIZE \<and> lh_n (lg_lh (log s)) + int k \<le> int LOGSIZE \<and>
     lh_n (lg_lh (log s)) + int k \<le> lg_size (log s) - 1 \<and> card (busy s) + k \<le> NBUF"

lemma room_mono: "room k s \<Longrightarrow> j \<le> k \<Longrightarrow> room j s"
  by (simp add: room_def)

lemma room_cinv: "room k s \<Longrightarrow> cinv s"
  by (simp add: room_def)

text \<open>What a process sees of the file system when it holds no buffer: the contents of the blocks change from \<open>s\<close>
  to \<open>t\<close> as \<open>f\<close> says, the disk itself does not change, and the blocks \<open>B\<close> have become part of the transaction.\<close>

definition edited :: "32 word set \<Rightarrow> ((32 word \<Rightarrow> byte list) \<Rightarrow> 32 word \<Rightarrow> byte list) \<Rightarrow> 'z log_st_scheme \<Rightarrow> 'z log_st_scheme \<Rightarrow> bool" where
  "edited B f s t \<longleftrightarrow> contents t = f (contents s) \<and> dirtyb t = B \<union> dirtyb s \<and> set (log_list t) = B \<union> set (log_list s) \<and>
     heldb t = heldb s \<and> disk t = disk s \<and> wlog t = wlog s \<and> disksize t = disksize s \<and> same_ilocks s t \<and> log_st.more t = log_st.more s"

lemma edited_refl: "edited {} (\<lambda>c. c) s s"
  by (simp add: edited_def)

lemma edited_trans: "edited B f s t \<Longrightarrow> edited C g t u \<Longrightarrow> edited (B \<union> C) (\<lambda>c. g (f c)) s u"
  unfolding edited_def using same_ilocks_trans [of s t u] by auto

lemma looked_edited: "looked s t \<Longrightarrow> bio_st.more t = bio_st.more s \<Longrightarrow> edited {} (\<lambda>c. c) s t"
  for s t :: "'z log_st_scheme"
  by (simp add: looked_def edited_def bio_more_log log_list_def)

lemma looked_room: "looked s t \<Longrightarrow> bio_st.more t = bio_st.more s \<Longrightarrow> room k s \<Longrightarrow> room k t"
  for s t :: "'z log_st_scheme"
  by (simp add: looked_def room_def bio_more_log)

section \<open>One block\<close>

text \<open>The data of a buffer a process owns may change.\<close>

lemma set_data_fields [simp]:
  "bufs (set_data i d s) = (bufs s)(i := (bufs s i)\<lparr>b_data := d\<rparr>)" "slocks (set_data i d s) = slocks s"
  "disk (set_data i d s) = disk s" "disksize (set_data i d s) = disksize s" "wlog (set_data i d s) = wlog s"
  "bio_st.more (set_data i d s) = bio_st.more s" "thr lo p q (set_data i d s) = thr lo p q s"
  by (simp_all add: set_data_def)

lemma change_data:
  assumes "cinv s" and "owns q i b s" and "length d = BSIZE"
  defines "t \<equiv> set_data i d s"
  shows "cinv t" and "contents t = (contents s)(b := d)" and "dirtyb t = dirtyb s" and "heldb t = heldb s"
    and "busy t = busy s" and "owns q i b t"
proof -
  note o = ownsD [OF assms(1,2)]
  show "owns q i b t" using assms(2) by (simp add: t_def owns_def sl_held_def)
  show "dirtyb t = dirtyb s" "heldb t = heldb s" "busy t = busy s" by (auto simp: t_def dirtyb_def heldb_def busy_def)
  obtain xs where "lru (bufs s) xs" using assms(1) by (auto simp: cinv_def)
  then have "lru (bufs t) xs" by (subst lru_cong [of _ "bufs s"]) (simp_all add: t_def)
  moreover have "buf_ok t j" if "j < NBUF" for j
    using cinv_buf [OF assms(1) that] o assms(3) by (cases "j = i") (auto simp: t_def buf_ok_def Let_def sl_held_def)
  moreover have "j = k" if "j < NBUF" "k < NBUF" "b_dev (bufs t j) = 1" "b_dev (bufs t k) = 1"
    "b_blockno (bufs t j) = b_blockno (bufs t k)" for j k
    using that cinv_inj [OF assms(1), of j k] by (simp add: t_def split: if_splits)
  moreover have "disk t = disk s" "disksize t = disksize s" by (simp_all add: t_def)
  ultimately show t: "cinv t" using cinv_disk [OF assms(1)] unfolding cinv_def by metis
  show "contents t = (contents s)(b := d)"
  proof
    fix c
    show "contents t c = ((contents s)(b := d)) c"
    proof (cases "c = b")
      case True
      then show ?thesis using contents_hit [OF t o(1), of b] o(3,4) by (simp add: t_def)
    next
      case False
      have "contents t c = contents s c"
      proof (rule contents_eqI [OF assms(1) t])
        fix j assume "j < NBUF" "b_valid (bufs t j)" "b_blockno (bufs t j) = c"
        then show "contents s c = b_data (bufs t j)"
          using contents_hit [OF assms(1), of j c] False o(4) by (auto simp: t_def split: if_splits)
      next
        assume n: "\<And>j. j < NBUF \<Longrightarrow> b_valid (bufs t j) \<Longrightarrow> b_blockno (bufs t j) \<noteq> c"
        have "b_blockno (bufs s j) \<noteq> c" if "j < NBUF" "b_valid (bufs s j)" for j
          using that n [of j] by (cases "j = i") (simp_all add: t_def)
        then show "contents s c = disk t c" using contents_miss [of s c] by (simp add: t_def)
      qed
      then show ?thesis using False by simp
    qed
  qed
qed

lemma edit_ok:
  fixes s :: "'z log_st_scheme"
  assumes s: "thr None p q s" "room (Suc k) s" and b: "b < disksize s" "b \<notin> heldb s" and d: "length d = BSIZE"
  shows "\<exists>i s1 s2 t. bread 1 b s = Ok (i, s1) \<and> b_data (bufs s1 i) = contents s b \<and> bio_st.more s1 = bio_st.more s \<and>
     log_write i (set_data i d s1) = Ok s2 \<and> brelse i s2 = Ok t \<and> thr None p q t \<and> room k t \<and>
     edited {b} (\<lambda>c. c(b := d)) s t \<and> log_st.more s2 = log_st.more s"
proof -
  have av: "cinv s" "card (busy s) < NBUF \<or> b \<in> dirtyb s" using s(2) by (auto simp: room_def)
  obtain i s1 where s1: "bread 1 b s = Ok (i, s1)" "thr None p q s1" "after_read q b s i s1"
    using bread_ok [OF s(1) av(1) b av(2)] by blast
  note r1 = s1(3) [unfolded after_read_def]
  have l1: "log s1 = log s" "log_st.more s1 = log_st.more s" using r1 by (simp_all add: bio_more_log)
  define u where "u = set_data i d s1"
  have o1: "cinv s1" "owns q i b s1" using r1 by simp_all
  note c = change_data [OF o1 d, folded u_def]
  have u: "thr None p q u" "log u = log s" "log_st.more u = log_st.more s" "disk u = disk s1" "wlog u = wlog s1" "disksize u = disksize s1"
    using s1(2) l1 set_data_fields(6) [of i d s1, unfolded bio_more_log] by (simp_all add: u_def)
  obtain s2 where s2: "log_write i u = Ok s2" "thr None p q s2" "cinv s2" "contents s2 = contents u" "disk s2 = disk u"
    "wlog s2 = wlog u" "heldb s2 = heldb u" "busy s2 = busy u" "owns q i b s2" "disksize s2 = disksize u"
    "log_st.more s2 = log_st.more u" "lg_outstanding (log s2) = lg_outstanding (log u)" "lg_size (log s2) = lg_size (log u)"
    "length (lh_block (lg_lh (log s2))) = LOGSIZE" "dirtyb s2 = insert b (dirtyb u)"
    "log_list s2 = (if b \<in> set (log_list u) then log_list u else log_list u @ [b])"
    "lh_n (lg_lh (log s2)) = int (length (log_list s2))" "same_ilocks u s2"
    using log_write_ok [OF u(1) c(1,6)] u(2) s(2) unfolding room_def by auto
  obtain t where t: "brelse i s2 = Ok t" "thr None p q t" "after_release q i b s2 t"
    using brelse_ok [OF s2(2,3,9)] s2(15) by blast
  note r3 = t(3) [unfolded after_release_def]
  have l3: "log t = log s2" "log_st.more t = log_st.more s2" using r3 by (simp_all add: bio_more_log)
  have "card (busy t) \<le> card (busy s) + 1"
    using r1 r3 s2(8,15) c(5) by (simp add: card_insert_if busy_def)
  moreover have "length (log_list u) \<le> nat (lh_n (lg_lh (log s)))" using u(2) by (simp add: log_list_def)
  then have "lh_n (lg_lh (log t)) \<le> lh_n (lg_lh (log s)) + 1" "0 \<le> lh_n (lg_lh (log t))"
    using s(2) s2(16,17) l3(1) by (auto simp: room_def)
  ultimately have rk: "room k t" using s(2) s2 l3 r3 u(2) unfolding room_def by auto
  have e: "contents t = (contents s)(b := d)" "dirtyb t = {b} \<union> dirtyb s" "disk t = disk s" "wlog t = wlog s"
    "disksize t = disksize s" "log_st.more t = log_st.more s"
    using r1 r3 c s2(4-6,10,11,15) u l3(2) by simp_all
  have "heldb t = heldb s" using r1 r3 c(4) s2(7) b(2) by simp
  moreover have "log_list t = log_list s2" "log_list u = log_list s" using l3(1) u(2) by (simp_all add: log_list_def)
  then have "set (log_list t) = {b} \<union> set (log_list s)" using s2(16) by auto
  moreover have "same_ilocks s1 u" by (simp add: u_def same_ilocks_def)
  then have "same_ilocks s t" using r1 r3 s2(18) unfolding same_ilocks_def by simp
  ultimately have "edited {b} (\<lambda>c. c(b := d)) s t" using e by (simp add: edited_def)
  moreover have "log_st.more s2 = log_st.more s" "b_data (bufs s1 i) = contents s b" "bio_st.more s1 = bio_st.more s"
    using s2(11) u(3) r1 by simp_all
  ultimately show ?thesis using s1(1) s2(1) t(1,2) rk unfolding u_def by blast
qed

end
