(* ===== verification/Inode.thy ===== *)
theory Inode
  imports Txn
begin

unbundle bit_operations_syntax

text \<open>
  Blocks and inodes: the first half of \<^verbatim>\<open>fs.c\<close>, up to \<^verbatim>\<open>stati\<close>.

  \<^verbatim>\<open>icache\<close> is a function from the index of the cache entry; an inode pointer is such an index
  and the null pointer is \<open>None\<close>.  \<^verbatim>\<open>struct dinode\<close> in a block is its 64 bytes.  The constants the
  compiler computes from \<^verbatim>\<open>sizeof\<close> are written out.
\<close>

section \<open>State\<close>

definition ROOTINO :: "32 word" where "ROOTINO = 1"
definition NDIRECT :: nat where "NDIRECT = 12"
definition NINDIRECT :: nat where "NINDIRECT = BSIZE div 4"
definition MAXFILE :: nat where "MAXFILE = NDIRECT + NINDIRECT"
definition DINODE_SIZE :: nat where "DINODE_SIZE = 64"
definition IPB :: "32 word" where "IPB = of_nat (BSIZE div DINODE_SIZE)"
definition BPB :: "32 word" where "BPB = of_nat (BSIZE * 8)"
definition T_DIR :: "16 word" where "T_DIR = 1"
definition T_FILE :: "16 word" where "T_FILE = 2"
definition T_DEV :: "16 word" where "T_DEV = 3"

definition IBLOCK :: "32 word \<Rightarrow> superblock \<Rightarrow> 32 word" where
  "IBLOCK i sb = i div IPB + sb_inodestart sb"

definition BBLOCK :: "32 word \<Rightarrow> superblock \<Rightarrow> 32 word" where
  "BBLOCK b sb = b div BPB + sb_bmapstart sb"

record dinode =
  d_type :: "16 word"
  d_major :: "16 word"
  d_minor :: "16 word"
  d_nlink :: "16 word"
  d_size :: "32 word"
  d_addrs :: "32 word list"

record inode =
  i_dev :: "32 word"
  i_inum :: "32 word"
  i_ref :: int
  i_valid :: bool
  i_type :: "16 word"
  i_major :: "16 word"
  i_minor :: "16 word"
  i_nlink :: "16 word"
  i_size :: "32 word"
  i_addrs :: "32 word list"

record stat =
  st_dev :: "32 word"
  st_ino :: "32 word"
  st_type :: "16 word"
  st_nlink :: "16 word"
  st_size :: "32 word"

record fs_st = log_st +
  sb :: superblock
  icache :: "nat \<Rightarrow> inode"

definition upd_inode :: "nat \<Rightarrow> (inode \<Rightarrow> inode) \<Rightarrow> 'z fs_st_scheme \<Rightarrow> 'z fs_st_scheme" where
  "upd_inode ip f s = s\<lparr>icache := (icache s)(ip := f (icache s ip))\<rparr>"

section \<open>Blocks\<close>

definition bzero :: "32 word \<Rightarrow> 32 word \<Rightarrow> 'z log_st_scheme \<Rightarrow> 'z log_st_scheme kres" where
  "bzero dev bno s =
     kbind (bread dev bno s) (\<lambda>(bp, s1).
     kbind (log_write bp (set_data bp (replicate BSIZE 0) s1)) (brelse bp))"

text \<open>The bits of a bitmap block: bit \<open>bi mod 8\<close> of byte \<open>bi div 8\<close>.\<close>

definition bit_mask :: "nat \<Rightarrow> byte" where
  "bit_mask bi = push_bit (bi mod 8) 1"

definition bit_clear :: "byte list \<Rightarrow> nat \<Rightarrow> bool" where
  "bit_clear d bi \<longleftrightarrow> d ! (bi div 8) AND bit_mask bi = 0"

definition mark_used :: "byte list \<Rightarrow> nat \<Rightarrow> byte list" where
  "mark_used d bi = d[bi div 8 := d ! (bi div 8) OR bit_mask bi]"

definition mark_free :: "byte list \<Rightarrow> nat \<Rightarrow> byte list" where
  "mark_free d bi = d[bi div 8 := d ! (bi div 8) AND NOT (bit_mask bi)]"

text \<open>The inner loop of \<^verbatim>\<open>balloc\<close>: the first clear bit of the block below the size of the file system.\<close>

definition free_bit :: "32 word \<Rightarrow> 32 word \<Rightarrow> byte list \<Rightarrow> nat option" where
  "free_bit b n d =
     find (\<lambda>bi. bit_clear d bi) (takeWhile (\<lambda>bi. b + of_nat bi < n) [0..<unat BPB])"

partial_function (option) balloc_loop ::
  "32 word \<Rightarrow> 32 word \<Rightarrow> 'z fs_st_scheme \<Rightarrow> (32 word \<times> 'z fs_st_scheme) kres option"
where
  "balloc_loop dev b s =
     (if b < sb_size (sb s) then
        kobind (bread dev (BBLOCK b (sb s)) s) (\<lambda>(bp, s1).
        case free_bit b (sb_size (sb s1)) (b_data (bufs s1 bp)) of
          Some bi \<Rightarrow>
            kobind (log_write bp (set_data bp (mark_used (b_data (bufs s1 bp)) bi) s1)) (\<lambda>s2.
            kobind (brelse bp s2) (\<lambda>s3.
            kobind (bzero dev (b + of_nat bi) s3) (\<lambda>s4. Some (Ok (b + of_nat bi, s4)))))
        | None \<Rightarrow> kobind (brelse bp s1) (\<lambda>s2. balloc_loop dev (b + BPB) s2))
      else Some (Panic ''balloc: out of blocks''))"

definition balloc :: "32 word \<Rightarrow> 'z fs_st_scheme \<Rightarrow> (32 word \<times> 'z fs_st_scheme) kres" where
  "balloc dev s = krun (balloc_loop dev 0 s)"

definition bfree :: "32 word \<Rightarrow> 32 word \<Rightarrow> 'z fs_st_scheme \<Rightarrow> 'z fs_st_scheme kres" where
  "bfree dev b s =
     kbind (readsb dev s) (\<lambda>(super, s1).
     let s2 = s1\<lparr>sb := super\<rparr> in
     kbind (bread dev (BBLOCK b (sb s2)) s2) (\<lambda>(bp, s3).
     let bi = unat (b mod BPB); d = b_data (bufs s3 bp) in
     kbind (panic_if (bit_clear d bi) ''freeing free block'') (\<lambda>_.
     kbind (log_write bp (set_data bp (mark_free d bi) s3)) (brelse bp))))"

section \<open>Inodes on disk\<close>

definition dinode_at :: "byte list \<Rightarrow> nat \<Rightarrow> dinode" where
  "dinode_at d k =
     (let o' = k * DINODE_SIZE in
      \<lparr>d_type = rd16 d o', d_major = rd16 d (o' + 2), d_minor = rd16 d (o' + 4), d_nlink = rd16 d (o' + 6),
       d_size = rd32 d (o' + 8), d_addrs = map (\<lambda>i. rd32 d (o' + 12 + 4 * i)) [0..<NDIRECT + 1]\<rparr>)"

fun put_words :: "nat \<Rightarrow> 32 word list \<Rightarrow> byte list \<Rightarrow> byte list" where
  "put_words o' [] d = d"
| "put_words o' (w # ws) d = put_words (o' + 4) ws (wr32 d o' w)"

definition put_dinode :: "byte list \<Rightarrow> nat \<Rightarrow> dinode \<Rightarrow> byte list" where
  "put_dinode d k x =
     (let o' = k * DINODE_SIZE;
          d1 = wr16 d o' (d_type x); d2 = wr16 d1 (o' + 2) (d_major x); d3 = wr16 d2 (o' + 4) (d_minor x);
          d4 = wr16 d3 (o' + 6) (d_nlink x); d5 = wr32 d4 (o' + 8) (d_size x)
      in put_words (o' + 12) (d_addrs x) d5)"

section \<open>The inode cache\<close>

definition iget :: "32 word \<Rightarrow> 32 word \<Rightarrow> 'z fs_st_scheme \<Rightarrow> (nat \<times> 'z fs_st_scheme) kres" where
  "iget dev inum s =
     kbind (acquire IcacheLock s) (\<lambda>s1.
     case find (\<lambda>i. i_ref (icache s1 i) > 0 \<and> i_dev (icache s1 i) = dev \<and> i_inum (icache s1 i) = inum) [0..<NINODE] of
       Some ip \<Rightarrow>
         kbind (release IcacheLock (upd_inode ip (\<lambda>x. x\<lparr>i_ref := i_ref x + 1\<rparr>) s1)) (\<lambda>s2. Ok (ip, s2))
     | None \<Rightarrow>
         (case find (\<lambda>i. i_ref (icache s1 i) = 0) [0..<NINODE] of
            None \<Rightarrow> Panic ''iget: no inodes''
          | Some ip \<Rightarrow>
              kbind (release IcacheLock
                (upd_inode ip (\<lambda>x. x\<lparr>i_dev := dev, i_inum := inum, i_ref := 1, i_valid := False\<rparr>) s1))
                (\<lambda>s2. Ok (ip, s2))))"

definition iinit :: "32 word \<Rightarrow> 'z fs_st_scheme \<Rightarrow> 'z fs_st_scheme kres" where
  "iinit dev s =
     (let s1 = fold (\<lambda>i. initsleeplock (SInode i) ''inode'') [0..<NINODE] (initlock IcacheLock ''icache'' s) in
      kbind (readsb dev s1) (\<lambda>(super, s2).
      cprintf (''sb: size %d nblocks %d ninodes %d nlog %d logstart %d inodestart %d bmap start %d'' @ nl)
        [PInt (sb_size super), PInt (sb_nblocks super), PInt (sb_ninodes super), PInt (sb_nlog super),
         PInt (sb_logstart super), PInt (sb_inodestart super), PInt (sb_bmapstart super)]
        (s2\<lparr>sb := super\<rparr>)))"

partial_function (option) ialloc_loop ::
  "32 word \<Rightarrow> 16 word \<Rightarrow> 32 word \<Rightarrow> 'z fs_st_scheme \<Rightarrow> (nat \<times> 'z fs_st_scheme) kres option"
where
  "ialloc_loop dev ty inum s =
     (if inum < sb_ninodes (sb s) then
        kobind (bread dev (IBLOCK inum (sb s)) s) (\<lambda>(bp, s1).
        let d = b_data (bufs s1 bp); k = unat (inum mod IPB) in
        if d_type (dinode_at d k) = 0 then
          kobind (log_write bp (set_data bp
            (wr16 (patch d (k * DINODE_SIZE) (replicate DINODE_SIZE 0)) (k * DINODE_SIZE) ty) s1)) (\<lambda>s2.
          kobind (brelse bp s2) (\<lambda>s3. Some (iget dev inum s3)))
        else kobind (brelse bp s1) (\<lambda>s2. ialloc_loop dev ty (inum + 1) s2))
      else Some (Panic ''ialloc: no inodes''))"

definition ialloc :: "32 word \<Rightarrow> 16 word \<Rightarrow> 'z fs_st_scheme \<Rightarrow> (nat \<times> 'z fs_st_scheme) kres" where
  "ialloc dev ty s = krun (ialloc_loop dev ty 1 s)"

definition iupdate :: "nat \<Rightarrow> 'z fs_st_scheme \<Rightarrow> 'z fs_st_scheme kres" where
  "iupdate ip s =
     kbind (bread (i_dev (icache s ip)) (IBLOCK (i_inum (icache s ip)) (sb s)) s) (\<lambda>(bp, s1).
     let x = icache s1 ip;
         d = put_dinode (b_data (bufs s1 bp)) (unat (i_inum x mod IPB))
               \<lparr>d_type = i_type x, d_major = i_major x, d_minor = i_minor x, d_nlink = i_nlink x,
                d_size = i_size x, d_addrs = i_addrs x\<rparr>
     in kbind (log_write bp (set_data bp d s1)) (brelse bp))"

definition idup :: "nat \<Rightarrow> 'z fs_st_scheme \<Rightarrow> (nat \<times> 'z fs_st_scheme) kres" where
  "idup ip s =
     kbind (acquire IcacheLock s) (\<lambda>s1.
     kbind (release IcacheLock (upd_inode ip (\<lambda>x. x\<lparr>i_ref := i_ref x + 1\<rparr>) s1)) (\<lambda>s2. Ok (ip, s2)))"

definition ilock :: "nat \<Rightarrow> 'z fs_st_scheme \<Rightarrow> 'z fs_st_scheme kres" where
  "ilock ip s =
     kbind (panic_if (i_ref (icache s ip) < 1) ''ilock'') (\<lambda>_.
     kbind (acquiresleep switch_away (SInode ip) s) (\<lambda>s1.
     if \<not> i_valid (icache s1 ip) then
       kbind (bread (i_dev (icache s1 ip)) (IBLOCK (i_inum (icache s1 ip)) (sb s1)) s1) (\<lambda>(bp, s2).
       let x = dinode_at (b_data (bufs s2 bp)) (unat (i_inum (icache s2 ip) mod IPB));
           s3 = upd_inode ip (\<lambda>y. y\<lparr>i_type := d_type x, i_major := d_major x, i_minor := d_minor x,
                  i_nlink := d_nlink x, i_size := d_size x, i_addrs := d_addrs x\<rparr>) s2
       in kbind (brelse bp s3) (\<lambda>s4.
          let s5 = upd_inode ip (\<lambda>y. y\<lparr>i_valid := True\<rparr>) s4 in
          kbind (panic_if (i_type (icache s5 ip) = 0) ''ilock: no type'') (\<lambda>_. Ok s5)))
     else Ok s1))"

definition iunlock :: "nat \<Rightarrow> 'z fs_st_scheme \<Rightarrow> 'z fs_st_scheme kres" where
  "iunlock ip s =
     kbind (holdingsleep (SInode ip) s) (\<lambda>(h, s1).
     kbind (panic_if (\<not> h \<or> i_ref (icache s1 ip) < 1) ''iunlock'') (\<lambda>_. releasesleep (SInode ip) s1))"

section \<open>Inode contents\<close>

definition bmap :: "nat \<Rightarrow> 32 word \<Rightarrow> 'z fs_st_scheme \<Rightarrow> (32 word \<times> 'z fs_st_scheme) kres" where
  "bmap ip bn s =
     (if bn < of_nat NDIRECT then
        let addr = i_addrs (icache s ip) ! unat bn in
        if addr = 0 then
          kbind (balloc (i_dev (icache s ip)) s) (\<lambda>(addr, s1).
          Ok (addr, upd_inode ip (\<lambda>x. x\<lparr>i_addrs := (i_addrs x)[unat bn := addr]\<rparr>) s1))
        else Ok (addr, s)
      else
        let bn = bn - of_nat NDIRECT in
        if bn < of_nat NINDIRECT then
          let addr = i_addrs (icache s ip) ! NDIRECT in
          kbind (if addr = 0 then
              kbind (balloc (i_dev (icache s ip)) s) (\<lambda>(addr, s1).
              Ok (addr, upd_inode ip (\<lambda>x. x\<lparr>i_addrs := (i_addrs x)[NDIRECT := addr]\<rparr>) s1))
            else Ok (addr, s)) (\<lambda>(addr, s1).
          kbind (bread (i_dev (icache s1 ip)) addr s1) (\<lambda>(bp, s2).
          let a = rd32 (b_data (bufs s2 bp)) (4 * unat bn) in
          kbind (if a = 0 then
              kbind (balloc (i_dev (icache s2 ip)) s2) (\<lambda>(a, s3).
              kbind (log_write bp (set_data bp (wr32 (b_data (bufs s3 bp)) (4 * unat bn) a) s3)) (\<lambda>s4. Ok (a, s4)))
            else Ok (a, s2)) (\<lambda>(a, s5).
          kbind (brelse bp s5) (\<lambda>s6. Ok (a, s6)))))
        else Panic ''bmap: out of range'')"

definition itrunc :: "nat \<Rightarrow> 'z fs_st_scheme \<Rightarrow> 'z fs_st_scheme kres" where
  "itrunc ip s =
     kbind (foldk (\<lambda>i s.
         let a = i_addrs (icache s ip) ! i in
         if a \<noteq> 0 then
           kbind (bfree (i_dev (icache s ip)) a s) (\<lambda>s1.
           Ok (upd_inode ip (\<lambda>x. x\<lparr>i_addrs := (i_addrs x)[i := 0]\<rparr>) s1))
         else Ok s) [0..<NDIRECT] s) (\<lambda>s1.
     kbind (if i_addrs (icache s1 ip) ! NDIRECT \<noteq> 0 then
         kbind (bread (i_dev (icache s1 ip)) (i_addrs (icache s1 ip) ! NDIRECT) s1) (\<lambda>(bp, s2).
         kbind (foldk (\<lambda>j s.
             let a = rd32 (b_data (bufs s bp)) (4 * j) in
             if a \<noteq> 0 then bfree (i_dev (icache s ip)) a s else Ok s) [0..<NINDIRECT] s2) (\<lambda>s3.
         kbind (brelse bp s3) (\<lambda>s4.
         kbind (bfree (i_dev (icache s4 ip)) (i_addrs (icache s4 ip) ! NDIRECT) s4) (\<lambda>s5.
         Ok (upd_inode ip (\<lambda>x. x\<lparr>i_addrs := (i_addrs x)[NDIRECT := 0]\<rparr>) s5)))))
       else Ok s1) (\<lambda>s6.
     iupdate ip (upd_inode ip (\<lambda>x. x\<lparr>i_size := 0\<rparr>) s6)))"

definition iput :: "nat \<Rightarrow> 'z fs_st_scheme \<Rightarrow> 'z fs_st_scheme kres" where
  "iput ip s =
     kbind (acquiresleep switch_away (SInode ip) s) (\<lambda>s1.
     kbind (if i_valid (icache s1 ip) \<and> i_nlink (icache s1 ip) = 0 then
         kbind (acquire IcacheLock s1) (\<lambda>s2.
         let r = i_ref (icache s2 ip) in
         kbind (release IcacheLock s2) (\<lambda>s3.
         if r = 1 then
           kbind (itrunc ip s3) (\<lambda>s4.
           kbind (iupdate ip (upd_inode ip (\<lambda>x. x\<lparr>i_type := 0\<rparr>) s4)) (\<lambda>s5.
           Ok (upd_inode ip (\<lambda>x. x\<lparr>i_valid := False\<rparr>) s5)))
         else Ok s3))
       else Ok s1) (\<lambda>s6.
     kbind (releasesleep (SInode ip) s6) (\<lambda>s7.
     kbind (acquire IcacheLock s7) (\<lambda>s8.
     release IcacheLock (upd_inode ip (\<lambda>x. x\<lparr>i_ref := i_ref x - 1\<rparr>) s8)))))"

definition iunlockput :: "nat \<Rightarrow> 'z fs_st_scheme \<Rightarrow> 'z fs_st_scheme kres" where
  "iunlockput ip s = kbind (iunlock ip s) (iput ip)"

definition stati :: "nat \<Rightarrow> 'z fs_st_scheme \<Rightarrow> stat" where
  "stati ip s =
     (let x = icache s ip in
      \<lparr>st_dev = i_dev x, st_ino = i_inum x, st_type = i_type x, st_nlink = i_nlink x, st_size = i_size x\<rparr>)"

section \<open>The bitmap and the inode blocks as data\<close>

text \<open>Bit \<open>k\<close> of a bitmap block.\<close>

lemma bit_mask_bit: "bit (bit_mask bi) j \<longleftrightarrow> j = bi mod 8"
  by (auto simp: bit_mask_def bit_simps)

lemma bit_clear_iff: "bit_clear d bi \<longleftrightarrow> \<not> bit (d ! (bi div 8)) (bi mod 8)"
  proof -
  let ?w = "d ! (bi div 8)"
  have "?w AND bit_mask bi = (if bit ?w (bi mod 8) then bit_mask bi else 0)"
    by (rule bit_eqI) (auto simp: bit_and_iff bit_mask_bit)
  moreover have "bit (bit_mask bi) (bi mod 8)" by (simp add: bit_mask_bit)
  ultimately show ?thesis by (auto simp: bit_clear_def)
qed

lemma length_mark [simp]: "length (mark_used d bi) = length d" "length (mark_free d bi) = length d"
  by (simp_all add: mark_used_def mark_free_def)

lemma div_mod_8_eq: "i div 8 = j div 8 \<Longrightarrow> i mod 8 = j mod 8 \<Longrightarrow> i = j" for i j :: nat
  by (metis div_mult_mod_eq)

lemma mark_used_clear:
  "bi div 8 < length d \<Longrightarrow> bit_clear (mark_used d bi) bj \<longleftrightarrow> bit_clear d bj \<and> bj \<noteq> bi"
  using div_mod_8_eq [of bj bi]
  by (cases "bj div 8 = bi div 8") (auto simp: bit_clear_iff mark_used_def bit_or_iff bit_mask_bit)

lemma mark_free_clear:
  "bi div 8 < length d \<Longrightarrow> bit_clear (mark_free d bi) bj \<longleftrightarrow> bit_clear d bj \<or> bj = bi"
  using div_mod_8_eq [of bj bi]
  by (cases "bj div 8 = bi div 8") (auto simp: bit_clear_iff mark_free_def bit_and_iff bit_not_iff bit_mask_bit)

lemma free_bit_Some:
  assumes "free_bit b n d = Some bi"
  shows "bi < unat BPB" and "bit_clear d bi" and "b + of_nat bi < n"
    and "\<forall>j<bi. \<not> bit_clear d j"
proof -
  let ?xs = "takeWhile (\<lambda>bi. b + of_nat bi < n) [0..<unat BPB]"
  obtain i where i: "i < length ?xs" "bit_clear d (?xs ! i)" "bi = ?xs ! i" "\<forall>j<i. \<not> bit_clear d (?xs ! j)"
    using assms by (auto simp: free_bit_def find_Some_iff)
  have nth: "?xs ! j = j" if "j < length ?xs" for j
    using that takeWhile_nth [of j "\<lambda>bi. b + of_nat bi < n" "[0..<unat BPB]"] length_takeWhile_le [of "\<lambda>bi. b + of_nat bi < n" "[0..<unat BPB]"]
    by simp
  have bi: "bi = i" using i nth by simp
  have "bi \<in> set ?xs" using i by simp
  then have "b + of_nat bi < n \<and> bi \<in> set [0..<unat BPB]" by (metis set_takeWhileD)
  then show "bi < unat BPB" "b + of_nat bi < n" by simp_all
  show "bit_clear d bi" using i by simp
  show "\<forall>j<bi. \<not> bit_clear d j" using i nth bi by simp
qed

lemma free_bit_None:
  assumes "free_bit b n d = None" and "bi < unat BPB" and "\<forall>j\<le>bi. b + of_nat j < n"
  shows "\<not> bit_clear d bi"
proof -
  have "takeWhile (\<lambda>bi. b + of_nat bi < n) [0..<Suc bi] = [0..<Suc bi]"
    using assms(3) by (simp add: takeWhile_eq_all_conv)
  moreover have "[0..<unat BPB] = [0..<Suc bi] @ [Suc bi..<unat BPB]"
    using assms(2) upt_add_eq_append [of 0 "Suc bi" "unat BPB - Suc bi"] by simp
  ultimately have "bi \<in> set (takeWhile (\<lambda>bi. b + of_nat bi < n) [0..<unat BPB])"
    using assms(3) by (simp add: takeWhile_append2 del: upt_Suc) (simp add: takeWhile_append)
  then show ?thesis using assms(1) by (auto simp: free_bit_def find_None_iff)
qed

text \<open>Dinode \<open>k\<close> of a block of inodes.\<close>

lemma length_put_words [simp]: "length (put_words o' ws d) = length d"
  by (induction ws arbitrary: o' d) simp_all

lemma put_words_other:
  "j + 4 \<le> o' \<or> o' + 4 * length ws \<le> j \<Longrightarrow> rd32 (put_words o' ws d) j = rd32 d j"
  "j + 2 \<le> o' \<or> o' + 4 * length ws \<le> j \<Longrightarrow> rd16 (put_words o' ws d) j = rd16 d j"
  by (induction ws arbitrary: o' d) (auto simp: rd32_wr32_other rd16_wr32_other)

lemma put_words_nth:
  "i < length ws \<Longrightarrow> o' + 4 * length ws \<le> length d \<Longrightarrow> rd32 (put_words o' ws d) (o' + 4 * i) = ws ! i"
proof (induction ws arbitrary: o' d i)
  case (Cons w ws)
  show ?case
  proof (cases i)
    case 0
    then show ?thesis using Cons.prems put_words_other(1) [of o' "o' + 4" ws] by (simp add: rd32_wr32_same)
  next
    case (Suc k)
    have "o' + 4 * i = (o' + 4) + 4 * k" using Suc by simp
    then show ?thesis using Cons.IH [of k "o' + 4" "wr32 d o' w"] Cons.prems Suc by (simp add: add.assoc)
  qed
qed simp

lemma length_put_dinode [simp]: "length (put_dinode d k x) = length d"
  by (simp add: put_dinode_def Let_def)

lemma dinode_same:
  assumes "length d = BSIZE" and "k < 8" and "length (d_addrs x) = NDIRECT + 1"
  shows "dinode_at (put_dinode d k x) k = x"
proof -
  let ?o = "k * DINODE_SIZE"
  have o: "?o + 64 \<le> length d" using assms(1,2) by (simp add: DINODE_SIZE_def BSIZE_def)
  have "map (\<lambda>i. rd32 (put_dinode d k x) (?o + 12 + 4 * i)) [0..<NDIRECT + 1] = d_addrs x"
    using assms(3) o by (intro nth_equalityI) (simp_all add: put_dinode_def Let_def put_words_nth NDIRECT_def del: upt_Suc)
  then show ?thesis using o
    by (cases x) (simp add: dinode_at_def Let_def, simp add: put_dinode_def Let_def put_words_other
        rd16_wr16_same rd16_wr16_other rd16_wr32_other rd32_wr32_same)
qed

lemma dinode_other:
  assumes "length d = BSIZE" and "k < 8" and "j < 8" and "j \<noteq> k" and "length (d_addrs x) = NDIRECT + 1"
  shows "dinode_at (put_dinode d k x) j = dinode_at d j"
proof -
  have s: "j * DINODE_SIZE + 64 \<le> k * DINODE_SIZE \<or> k * DINODE_SIZE + 64 \<le> j * DINODE_SIZE"
    using assms(4) by (simp add: DINODE_SIZE_def) linarith
  have r16: "rd16 (put_dinode d k x) (j * DINODE_SIZE + m) = rd16 d (j * DINODE_SIZE + m)" if "m + 2 \<le> 64" for m
    using s that assms(5) by (auto simp: put_dinode_def Let_def put_words_other rd16_wr16_other rd16_wr32_other NDIRECT_def)
  have r32: "rd32 (put_dinode d k x) (j * DINODE_SIZE + m) = rd32 d (j * DINODE_SIZE + m)" if "m + 4 \<le> 64" for m
    using s that assms(5) by (auto simp: put_dinode_def Let_def put_words_other rd32_wr16_other rd32_wr32_other NDIRECT_def)
  have "rd32 (put_dinode d k x) (j * DINODE_SIZE + 12 + 4 * i) = rd32 d (j * DINODE_SIZE + 12 + 4 * i)" if "i < 13" for i
    using r32 [of "12 + 4 * i"] that by (simp add: add.assoc)
  then show ?thesis using r16 [of 0] r16 [of 2] r16 [of 4] r16 [of 6] r32 [of 8] by (simp add: dinode_at_def Let_def NDIRECT_def)
qed

section \<open>Changing blocks, inodes and the bitmap\<close>

lemma fs_more: "log_st.more t = log_st.more s \<longleftrightarrow> sb t = sb s \<and> icache t = icache s \<and> fs_st.more t = fs_st.more s"
  for s t :: "'z fs_st_scheme"
  by (cases s; cases t; simp)

lemma edited_fs: "edited B f s t \<Longrightarrow> sb t = sb s \<and> icache t = icache s \<and> fs_st.more t = fs_st.more s"
  for s t :: "'z fs_st_scheme"
  by (simp add: edited_def fs_more)

lemma bzero_ok:
  assumes "thr None p q s" and "room (Suc k) s" and "b < disksize s" and "b \<notin> heldb s"
  shows "\<exists>t. bzero 1 b s = Ok t \<and> thr None p q t \<and> room k t \<and> edited {b} (\<lambda>c. c(b := replicate BSIZE 0)) s t"
  using edit_ok [OF assms, of "replicate BSIZE 0"] by (auto simp: bzero_def)

text \<open>The dinode an entry of the inode cache stands for.\<close>

definition dinode_of :: "inode \<Rightarrow> dinode" where
  "dinode_of x = \<lparr>d_type = i_type x, d_major = i_major x, d_minor = i_minor x, d_nlink = i_nlink x,
     d_size = i_size x, d_addrs = i_addrs x\<rparr>"

lemma iupdate_ok:
  fixes s :: "'z fs_st_scheme"
  assumes "thr None p q s" and "room (Suc k) s" and "i_dev (icache s ip) = 1"
    and b: "b = IBLOCK (i_inum (icache s ip)) (sb s)" "b < disksize s" "b \<notin> heldb s"
  shows "\<exists>t. iupdate ip s = Ok t \<and> thr None p q t \<and> room k t \<and>
     edited {b} (\<lambda>c. c(b := put_dinode (contents s b) (unat (i_inum (icache s ip) mod IPB)) (dinode_of (icache s ip)))) s t"
proof -
  let ?d = "put_dinode (contents s b) (unat (i_inum (icache s ip) mod IPB)) (dinode_of (icache s ip))"
  have d: "length ?d = BSIZE" using contents_length [OF room_cinv [OF assms(2)] b(2)] by simp
  obtain i s1 s2 t where t: "bread 1 b s = Ok (i, s1)" "b_data (bufs s1 i) = contents s b" "bio_st.more s1 = bio_st.more s"
    "log_write i (set_data i ?d s1) = Ok s2" "brelse i s2 = Ok t" "thr None p q t" "room k t" "edited {b} (\<lambda>c. c(b := ?d)) s t"
    using edit_ok [OF assms(1,2) b(2,3) d] by blast
  have "icache s1 = icache s" using t(3) by (simp add: bio_more_log fs_more)
  then have "iupdate ip s = Ok t"
    using t(1,2,4,5) assms(3) by (simp add: iupdate_def Let_def dinode_of_def flip: b(1))
  then show ?thesis using t(6-8) by blast
qed

text \<open>Block \<open>b\<close> of the file system is free in the bitmap.\<close>

definition free_block :: "'z fs_st_scheme \<Rightarrow> 32 word \<Rightarrow> bool" where
  "free_block s b \<longleftrightarrow> bit_clear (contents s (BBLOCK b (sb s))) (unat (b mod BPB))"

text \<open>The bitmap is on the disk, no process holds a block of it or a free block, and its own blocks are in use.\<close>

definition bitmap_ok :: "'z fs_st_scheme \<Rightarrow> bool" where
  "bitmap_ok s \<longleftrightarrow> sb_size (sb s) \<le> disksize s \<and> unat (sb_size (sb s)) + unat BPB \<le> 2 ^ 32 \<and>
     (\<forall>b. b < sb_size (sb s) \<longrightarrow> BBLOCK b (sb s) < disksize s \<and> BBLOCK b (sb s) \<notin> heldb s) \<and>
     (\<forall>b. b < sb_size (sb s) \<longrightarrow> free_block s b \<longrightarrow> b \<notin> heldb s \<and> (\<forall>c. c < sb_size (sb s) \<longrightarrow> b \<noteq> BBLOCK c (sb s)))"

lemma unat_BPB: "unat BPB = 4096"
  by (simp add: BPB_def BSIZE_def)

lemma aligned_add:
  assumes "b mod BPB = 0" and "bi < 4096" and "unat b + 4096 \<le> 2 ^ 32"
  shows "unat (b + of_nat bi) = unat b + bi" and "(b + of_nat bi) div BPB = b div BPB" and "unat ((b + of_nat bi) mod BPB) = bi"
proof -
  have m: "unat b mod 4096 = 0" using assms(1) by (metis unat_BPB unat_mod unat_0)
  have "unat (of_nat bi :: 32 word) = bi" using assms(2) by (simp add: unat_of_nat take_bit_nat_eq_self)
  then show u: "unat (b + of_nat bi) = unat b + bi" using assms(2,3) by (simp add: unat_word_ariths(1))
  obtain j where j: "unat b = 4096 * j" using m by auto
  have "unat ((b + of_nat bi) div BPB) = unat (b div BPB)"
    using u j assms(2) by (simp add: unat_div unat_BPB)
  then show "(b + of_nat bi) div BPB = b div BPB" by (simp add: word_unat_eq_iff)
  show "unat ((b + of_nat bi) mod BPB) = bi" using u j assms(2) by (simp add: unat_mod unat_BPB)
qed

text \<open>Taking a free block: its bit is set and it is cleared.\<close>

definition take_block :: "superblock \<Rightarrow> 32 word \<Rightarrow> (32 word \<Rightarrow> byte list) \<Rightarrow> 32 word \<Rightarrow> byte list" where
  "take_block S b c = c(BBLOCK b S := mark_used (c (BBLOCK b S)) (unat (b mod BPB)), b := replicate BSIZE 0)"

lemma looked_fs: "looked s t \<Longrightarrow> bio_st.more t = bio_st.more s \<Longrightarrow> contents t = contents s \<and> heldb t = heldb s \<and>
    disksize t = disksize s \<and> sb t = sb s \<and> icache t = icache s"
  for s t :: "'z fs_st_scheme"
  by (simp add: looked_def bio_more_log fs_more)

lemma looked_bitmap:
  fixes s t :: "'z fs_st_scheme"
  assumes "looked s t" and "bio_st.more t = bio_st.more s"
  shows "free_block t = free_block s" and "bitmap_ok t = bitmap_ok s"
proof -
  note l = looked_fs [OF assms]
  show f: "free_block t = free_block s" using l by (intro ext) (simp add: free_block_def)
  show "bitmap_ok t = bitmap_ok s" using l by (simp add: bitmap_ok_def f)
qed

text \<open>The bitmap block with a free block in it.\<close>

lemma balloc_hit:
  fixes s :: "'z fs_st_scheme"
  assumes s: "thr None p q s" "room (Suc (Suc k)) s" "bitmap_ok s"
    and b: "b mod BPB = 0" "b < sb_size (sb s)"
    and f: "free_bit b (sb_size (sb s)) (contents s (BBLOCK b (sb s))) = Some bi"
  shows "\<exists>t. balloc_loop 1 b s = Some (Ok (b + of_nat bi, t)) \<and> thr None p q t \<and> room k t \<and>
     edited {BBLOCK b (sb s), b + of_nat bi} (take_block (sb s) (b + of_nat bi)) s t"
proof -
  let ?B = "BBLOCK b (sb s)" and ?r = "b + of_nat bi"
  note fb = free_bit_Some [OF f]
  have sz: "unat b + 4096 \<le> 2 ^ 32"
    using b(2) s(3) by (simp add: bitmap_ok_def unat_BPB word_less_nat_alt)
  have bi: "bi < 4096" using fb(1) by (simp add: unat_BPB)
  note al = aligned_add [OF b(1) bi sz]
  have B: "BBLOCK ?r (sb s) = ?B" using al(2) by (simp add: BBLOCK_def)
  have fr: "free_block s ?r" using fb(2) al(3) B by (simp add: free_block_def)
  have ok: "?B < disksize s" "?B \<notin> heldb s" "?r < disksize s" "?r \<notin> heldb s" "?r \<noteq> ?B"
    using s(3) b(2) fb(3) fr by (auto simp: bitmap_ok_def)
  let ?d = "mark_used (contents s ?B) bi"
  have d: "length ?d = BSIZE" using contents_length [OF room_cinv [OF s(2)] ok(1)] by simp
  obtain i s1 s2 s3 where t: "bread 1 ?B s = Ok (i, s1)" "b_data (bufs s1 i) = contents s ?B" "bio_st.more s1 = bio_st.more s"
    "log_write i (set_data i ?d s1) = Ok s2" "brelse i s2 = Ok s3" "thr None p q s3" "room (Suc k) s3"
    "edited {?B} (\<lambda>c. c(?B := ?d)) s s3"
    using edit_ok [OF s(1,2) ok(1,2) d] by blast
  have e: "disksize s3 = disksize s" "heldb s3 = heldb s" using t(8) by (simp_all add: edited_def)
  have "sb s1 = sb s" using t(3) by (simp add: bio_more_log fs_more)
  obtain u where u: "bzero 1 ?r s3 = Ok u" "thr None p q u" "room k u" "edited {?r} (\<lambda>c. c(?r := replicate BSIZE 0)) s3 u"
    using bzero_ok [OF t(6,7), of ?r] ok(3,4) e by auto
  have "balloc_loop 1 b s = Some (Ok (?r, u))"
    using t(1,2,4,5) u(1) b(2) f \<open>sb s1 = sb s\<close> by (subst balloc_loop.simps) simp
  moreover have "edited {?B, ?r} (take_block (sb s) ?r) s u"
    using edited_trans [OF t(8) u(4)] al(3) B t(8) by (simp add: edited_def take_block_def insert_commute)
  ultimately show ?thesis using u(2,3) by blast
qed

lemma balloc_miss:
  fixes s :: "'z fs_st_scheme"
  assumes s: "thr None p q s" "room (Suc k) s" "bitmap_ok s" and b: "b < sb_size (sb s)"
    and f: "free_bit b (sb_size (sb s)) (contents s (BBLOCK b (sb s))) = None"
  shows "\<exists>t. balloc_loop 1 b s = balloc_loop 1 (b + BPB) t \<and> thr None p q t \<and> looked s t \<and> bio_st.more t = bio_st.more s"
proof -
  let ?B = "BBLOCK b (sb s)"
  have ok: "?B < disksize s" "?B \<notin> heldb s" "cinv s" "card (busy s) < NBUF \<or> ?B \<in> dirtyb s"
    using s(2,3) b by (auto simp: bitmap_ok_def room_def)
  obtain i s1 where s1: "bread 1 ?B s = Ok (i, s1)" "thr None p q s1" "after_read q ?B s i s1"
    using bread_ok [OF s(1) ok(3,1,2,4)] by blast
  obtain t where t: "brelse i s1 = Ok t" "thr None p q t" "looked s t" "bio_st.more t = bio_st.more s"
    using look_release [OF ok(3,2) s1(3,2)] by blast
  have "bio_st.more s1 = bio_st.more s" "b_data (bufs s1 i) = contents s ?B" using s1(3) by (simp_all add: after_read_def)
  then have "balloc_loop 1 b s = balloc_loop 1 (b + BPB) t"
    using s1(1) t(1) b f by (subst balloc_loop.simps) (simp add: bio_more_log fs_more)
  then show ?thesis using t by blast
qed

lemma free_block_offset:
  assumes "b mod BPB = 0" and "b \<le> c" and "unat c < unat b + 4096" and "unat b + 4096 \<le> 2 ^ 32"
  shows "free_block s c \<longleftrightarrow> bit_clear (contents s (BBLOCK b (sb s))) (unat c - unat b)"
    and "c = b + of_nat (unat c - unat b)"
proof -
  let ?j = "unat c - unat b"
  have le: "unat b \<le> unat c" using assms(2) by (simp add: word_le_nat_alt)
  then have j: "?j < 4096" using assms(3) by linarith
  note al = aligned_add [OF assms(1) j assms(4)]
  show c: "c = b + of_nat ?j" using al(1) le by (simp add: word_unat_eq_iff)
  show "free_block s c \<longleftrightarrow> bit_clear (contents s (BBLOCK b (sb s))) ?j"
    using al(2,3) c by (simp add: free_block_def BBLOCK_def)
qed

lemma balloc_hit_first:
  fixes s :: "'z fs_st_scheme"
  assumes "b mod BPB = 0" and "unat b + 4096 \<le> 2 ^ 32"
    and f: "free_bit b (sb_size (sb s)) (contents s (BBLOCK b (sb s))) = Some bi"
  shows "b \<le> b + of_nat bi" and "free_block s (b + of_nat bi)" and "b \<le> c \<Longrightarrow> c < b + of_nat bi \<Longrightarrow> \<not> free_block s c"
proof -
  note fb = free_bit_Some [OF f]
  have bi: "bi < 4096" using fb(1) by (simp add: unat_BPB)
  note al = aligned_add [OF assms(1) bi assms(2)]
  show le: "b \<le> b + of_nat bi" using al(1) by (simp add: word_le_nat_alt)
  show "free_block s (b + of_nat bi)"
    using free_block_offset(1) [OF assms(1) le _ assms(2), of s] al(1) bi fb(2) by simp
  show "\<not> free_block s c" if "b \<le> c" "c < b + of_nat bi"
  proof -
    have u: "unat b \<le> unat c" "unat c < unat b + bi" using that al(1) by (simp_all add: word_le_nat_alt word_less_nat_alt)
    then have "unat c < unat b + 4096" "unat c - unat b < bi" using bi by linarith+
    then show ?thesis using free_block_offset(1) [OF assms(1) that(1) _ assms(2), of s] fb(4) by simp
  qed
qed

lemma balloc_miss_none:
  assumes "b mod BPB = 0" and "unat b + 4096 \<le> 2 ^ 32"
    and f: "free_bit b (sb_size (sb s)) (contents s (BBLOCK b (sb s))) = None"
    and c: "b \<le> c" "unat c < unat b + 4096" "c < sb_size (sb s)"
  shows "\<not> free_block s c"
proof -
  let ?j = "unat c - unat b"
  have u: "unat b \<le> unat c" using c(1) by (simp add: word_le_nat_alt)
  have "b + of_nat i < sb_size (sb s)" if "i \<le> ?j" for i
  proof -
    have "i < 4096" using that c(2) u by linarith
    then have "unat (b + of_nat i) = unat b + i" using aligned_add(1) [OF assms(1) _ assms(2)] by blast
    then show ?thesis using that u c(3) by (simp add: word_less_nat_alt)
  qed
  moreover have "?j < unat BPB" using c(2) u by (simp add: unat_BPB)
  ultimately have "\<not> bit_clear (contents s (BBLOCK b (sb s))) ?j" using free_bit_None [OF f] by blast
  then show ?thesis using free_block_offset(1) [OF assms(1) c(1,2) assms(2)] by blast
qed

definition took_first :: "int \<Rightarrow> nat \<Rightarrow> 32 word \<Rightarrow> nat \<Rightarrow> 'z fs_st_scheme \<Rightarrow> 32 word \<Rightarrow> 'z fs_st_scheme \<Rightarrow> bool" where
  "took_first q p b k s r t \<longleftrightarrow> b \<le> r \<and> r < sb_size (sb s) \<and> free_block s r \<and> (\<forall>c. b \<le> c \<longrightarrow> c < r \<longrightarrow> \<not> free_block s c) \<and>
     thr None p q t \<and> room k t \<and> edited {BBLOCK r (sb s), r} (take_block (sb s) r) s t"

lemma balloc_loop_ok:
  fixes s :: "'z fs_st_scheme"
  assumes "thr None p q s" and "room (Suc (Suc k)) s" and "bitmap_ok s" and "b mod BPB = 0"
  shows "(\<exists>r t. balloc_loop 1 b s = Some (Ok (r, t)) \<and> took_first q p b k s r t) \<or>
     (balloc_loop 1 b s = Some (Panic ''balloc: out of blocks'') \<and> (\<forall>c. b \<le> c \<longrightarrow> c < sb_size (sb s) \<longrightarrow> \<not> free_block s c))"
  using assms
proof (induction "unat (sb_size (sb s)) - unat b" arbitrary: b s rule: less_induct)
  case less
  show ?case
  proof (cases "b < sb_size (sb s)")
    case False
    then have "balloc_loop 1 b s = Some (Panic ''balloc: out of blocks'')" by (subst balloc_loop.simps) simp
    then show ?thesis using False by auto
  next
    case True
    let ?B = "BBLOCK b (sb s)"
    have u: "unat b < unat (sb_size (sb s))" "unat (sb_size (sb s)) + 4096 \<le> 2 ^ 32"
      using True less.prems(3) by (simp_all add: word_less_nat_alt bitmap_ok_def unat_BPB)
    then have sz: "unat b + 4096 \<le> 2 ^ 32" "unat b + 4096 < 2 ^ 32" by linarith+
    show ?thesis
    proof (cases "free_bit b (sb_size (sb s)) (contents s ?B)")
      case (Some bi)
      note h = balloc_hit_first [OF less.prems(4) sz(1) Some] and fb = free_bit_Some [OF Some]
      have B: "BBLOCK (b + of_nat bi) (sb s) = ?B"
        using aligned_add(2) [OF less.prems(4) _ sz(1)] fb(1) by (simp add: BBLOCK_def unat_BPB)
      then show ?thesis
        using balloc_hit [OF less.prems(1-4) True Some] h fb(3) unfolding took_first_def by metis
    next
      case None
      obtain t where t: "balloc_loop 1 b s = balloc_loop 1 (b + BPB) t" "thr None p q t" "looked s t" "bio_st.more t = bio_st.more s"
        using balloc_miss [OF less.prems(1-3) True None] by blast
      note l = looked_fs [OF t(3,4)] looked_bitmap [OF t(3,4)] looked_room [OF t(3,4) less.prems(2)]
      have b': "unat (b + BPB) = unat b + 4096" using sz(2) by (simp add: unat_word_ariths(1) unat_BPB)
      then have m: "(b + BPB) mod BPB = 0"
        using less.prems(4) by (metis unat_BPB unat_mod unat_0 mod_add_self2 word_unat_eq_iff)
      have skip: "\<not> free_block s c" if "b \<le> c" "\<not> b + BPB \<le> c" "c < sb_size (sb s)" for c
        using balloc_miss_none [OF less.prems(4) sz(1) None that(1) _ that(3)] that(2) b' by (simp add: word_le_nat_alt)
      have le: "b \<le> b + BPB" using b' by (simp add: word_le_nat_alt)
      have le': "b \<le> c" if "b + BPB \<le> c" for c using le that by (rule order_trans)
      have "unat (sb_size (sb t)) - unat (b + BPB) < unat (sb_size (sb s)) - unat b" using l b' u by simp
      from less.hyps [OF this t(2) l(4) _ m]
      have ih: "(\<exists>r u. balloc_loop 1 b s = Some (Ok (r, u)) \<and> took_first q p (b + BPB) k t r u) \<or>
        (balloc_loop 1 b s = Some (Panic ''balloc: out of blocks'') \<and> (\<forall>c. b + BPB \<le> c \<longrightarrow> c < sb_size (sb t) \<longrightarrow> \<not> free_block t c))"
        using l(3) less.prems(3) t(1) by simp
      have "took_first q p b k s r u" if w: "took_first q p (b + BPB) k t r u" for r u
      proof -
        have "\<not> free_block s c" if "b \<le> c" "c < r" for c
          using skip [OF that(1)] w that l order.strict_trans [of c r "sb_size (sb s)"]
          by (cases "b + BPB \<le> c") (auto simp: took_first_def)
        moreover have "edited ({} \<union> {BBLOCK r (sb s), r}) (take_block (sb s) r) s u"
          using edited_trans [OF looked_edited [OF t(3,4)], of "{BBLOCK r (sb s), r}" "take_block (sb s) r" u] w l by (simp add: took_first_def)
        ultimately show ?thesis using w l le' by (simp add: took_first_def)
      qed
      then show ?thesis using ih skip l by metis
    qed
  qed
qed

section \<open>Locking an inode\<close>

lemma upd_inode_fields [simp]:
  "icache (upd_inode ip f s) = (icache s)(ip := f (icache s ip))" "sb (upd_inode ip f s) = sb s" "slocks (upd_inode ip f s) = slocks s"
  "bufs (upd_inode ip f s) = bufs s" "disk (upd_inode ip f s) = disk s" "disksize (upd_inode ip f s) = disksize s"
  "wlog (upd_inode ip f s) = wlog s" "log (upd_inode ip f s) = log s" "fs_st.more (upd_inode ip f s) = fs_st.more s"
  by (simp_all add: upd_inode_def)

lemma upd_inode_bio [simp]: "cinv (upd_inode ip f s) = cinv s" "contents (upd_inode ip f s) = contents s"
  "dirtyb (upd_inode ip f s) = dirtyb s" "heldb (upd_inode ip f s) = heldb s" "busy (upd_inode ip f s) = busy s"
  "thr lo p q (upd_inode ip f s) = thr lo p q s" "owns q i b (upd_inode ip f s) = owns q i b s" "room k (upd_inode ip f s) = room k s"
  "same_ilocks (upd_inode ip f s) t = same_ilocks s t" "same_ilocks s (upd_inode ip f u) = same_ilocks s u"
  "log_list (upd_inode ip f s) = log_list s"
proof -
  show c: "cinv (upd_inode ip f s) = cinv s" by (simp add: cinv_def buf_ok_def)
  show "contents (upd_inode ip f s) = contents s" by (rule contents_cong) simp_all
  show t: "thr lo p q (upd_inode ip f s) = thr lo p q s" by (rule thr_cong) (simp_all add: same_core_def upd_inode_def)
  show b: "busy (upd_inode ip f s) = busy s" by (simp add: busy_def)
  show "room k (upd_inode ip f s) = room k s" by (simp add: room_def c b)
qed (simp_all add: dirtyb_def heldb_def owns_def sl_held_def same_ilocks_def log_list_def)

lemma after_read_inode:
  "after_read q b s i t \<Longrightarrow> after_read q b (upd_inode ip (\<lambda>_. x) s) i (upd_inode ip (\<lambda>_. x) t)"
  for s t :: "'z fs_st_scheme"
  by (simp add: after_read_def keeps_owned_def bio_more_log fs_more)

text \<open>Taking the lock of an inode does not touch the block cache.\<close>

lemma ilock_bio:
  assumes "same_bio t (sl_take (SInode ip) q s)"
  shows "cinv t = cinv s" "contents t = contents s" "dirtyb t = dirtyb s" "heldb t = heldb s" "busy t = busy s"
    "disk t = disk s" "disksize t = disksize s" "wlog t = wlog s" "bio_st.more t = bio_st.more s"
    "slocks t = (slocks s)(SInode ip := (slocks s (SInode ip))\<lparr>sl_locked := True, sl_pid := q\<rparr>)"
proof -
  note e = same_bioD [OF assms]
  have c: "contents (sl_take (SInode ip) q s) = contents s" by (rule contents_cong) (simp_all add: sl_take_def)
  have l: "slocks (sl_take (SInode ip) q s) = (slocks s)(SInode ip := (slocks s (SInode ip))\<lparr>sl_locked := True, sl_pid := q\<rparr>)"
    by (simp add: sl_take_def upd_slock_def)
  show "cinv t = cinv s" "contents t = contents s" "dirtyb t = dirtyb s" "heldb t = heldb s" "busy t = busy s"
    "disk t = disk s" "disksize t = disksize s" "wlog t = wlog s" "bio_st.more t = bio_st.more s"
    "slocks t = (slocks s)(SInode ip := (slocks s (SInode ip))\<lparr>sl_locked := True, sl_pid := q\<rparr>)"
    using e c l by (simp_all add: cinv_def buf_ok_def dirtyb_def heldb_def busy_def) (simp_all add: sl_take_def)
qed

text \<open>An entry of the cache filled from the disk.\<close>

definition fill_inode :: "dinode \<Rightarrow> inode \<Rightarrow> inode" where
  "fill_inode x y = y\<lparr>i_type := d_type x, i_major := d_major x, i_minor := d_minor x, i_nlink := d_nlink x,
     i_size := d_size x, i_addrs := d_addrs x, i_valid := True\<rparr>"

lemma ilock_load_ok:
  fixes s :: "'z fs_st_scheme"
  assumes s: "thr None p q s" "cinv s" "\<not> sl_locked (slocks s (SInode ip))"
    and i: "1 \<le> i_ref (icache s ip)" "\<not> i_valid (icache s ip)" "i_dev (icache s ip) = 1"
    and b: "b = IBLOCK (i_inum (icache s ip)) (sb s)" "b < disksize s" "b \<notin> heldb s" "card (busy s) < NBUF \<or> b \<in> dirtyb s"
    and x: "x = dinode_at (contents s b) (unat (i_inum (icache s ip) mod IPB))" "d_type x \<noteq> 0"
  shows "\<exists>t. ilock ip s = Ok t \<and> thr None p q t \<and> icache t = (icache s)(ip := fill_inode x (icache s ip)) \<and>
     sl_held (SInode ip) q t \<and> cinv t \<and> contents t = contents s \<and> disk t = disk s \<and> log t = log s \<and> sb t = sb s"
proof -
  obtain s1 where s1: "acquiresleep switch_away (SInode ip) s = Ok s1" "thr None p q s1" "same_bio s1 (sl_take (SInode ip) q s)"
    using acquiresleep_bio [OF s(1,3)] by blast
  note e = ilock_bio [OF s1(3)]
  have m1: "icache s1 = icache s" "sb s1 = sb s" "log s1 = log s" using e(9) by (simp_all add: bio_more_log fs_more)
  obtain i s2 where s2: "bread 1 b s1 = Ok (i, s2)" "thr None p q s2" "after_read q b s1 i s2"
    using bread_ok [OF s1(2), of b] e s(2) b(2-4) by auto
  note r = s2(3) [unfolded after_read_def]
  have m2: "icache s2 = icache s" using r m1 by (simp add: bio_more_log fs_more)
  define y where "y = (icache s ip)\<lparr>i_type := d_type x, i_major := d_major x, i_minor := d_minor x,
     i_nlink := d_nlink x, i_size := d_size x, i_addrs := d_addrs x\<rparr>"
  define u where "u = upd_inode ip (\<lambda>_. y) s1"
  define v where "v = upd_inode ip (\<lambda>_. y) s2"
  have "after_read q b u i v" unfolding u_def v_def by (rule after_read_inode [OF s2(3)])
  then obtain w where w: "brelse i v = Ok w" "thr None p q w" "looked u w" "bio_st.more w = bio_st.more u"
    using look_release [of u b q i v p] e s(2) b(3) s2(2) by (auto simp: u_def v_def)
  have mw: "icache w = (icache s)(ip := y)" "sb w = sb s" "log w = log s"
    using w(4) m1 by (simp_all add: bio_more_log fs_more u_def)
  let ?t = "upd_inode ip (\<lambda>y. y\<lparr>i_valid := True\<rparr>) w"
  have vv: "upd_inode ip (\<lambda>y. y\<lparr>i_type := d_type x, i_major := d_major x, i_minor := d_minor x,
      i_nlink := d_nlink x, i_size := d_size x, i_addrs := d_addrs x\<rparr>) s2 = v"
    using m2 by (simp add: v_def y_def upd_inode_def)
  have "ilock ip s = Ok ?t"
    using s1(1) s2(1) w(1) i m1 m2 mw x r e(2) b(1) vv
    by (simp add: ilock_def Let_def y_def)
  moreover have "sl_held (SInode ip) q ?t"
    using w(3) e(10) by (simp add: looked_def same_ilocks_def sl_held_def u_def)
  moreover have "icache ?t = (icache s)(ip := fill_inode x (icache s ip))"
    by (simp add: mw y_def fill_inode_def)
  ultimately show ?thesis using w(2,3) e mw by (intro exI [of _ ?t]) (simp add: looked_def u_def)
qed

text \<open>The bitmap after a block is taken.\<close>

lemma took_bitmap:
  fixes s :: "'z fs_st_scheme"
  assumes "bitmap_ok s" and "cinv s" and "took_first q p b k s r t" and c: "c < sb_size (sb s)"
  shows "free_block t c \<longleftrightarrow> free_block s c \<and> c \<noteq> r"
proof -
  note w = assms(3) [unfolded took_first_def]
  have e: "edited {BBLOCK r (sb s), r} (take_block (sb s) r) s t" and r: "r < sb_size (sb s)" "free_block s r" using w by blast+
  have t: "contents t = take_block (sb s) r (contents s)" "sb t = sb s"
    using e edited_fs [OF e] by (simp_all add: edited_def)
  have ne: "BBLOCK c (sb s) \<noteq> r" "BBLOCK r (sb s) < disksize s"
    using assms(1) r c unfolding bitmap_ok_def by blast+
  have len: "unat (r mod BPB) div 8 < length (contents s (BBLOCK r (sb s)))"
    using contents_length [OF assms(2) ne(2)] by (simp add: unat_mod unat_BPB BSIZE_def less_mult_imp_div_less)
  show ?thesis
  proof (cases "BBLOCK c (sb s) = BBLOCK r (sb s)")
    case True
    then have d: "c div BPB = r div BPB" by (simp add: BBLOCK_def)
    have "c = r" if "unat (c mod BPB) = unat (r mod BPB)"
    proof -
      have "unat c div 4096 = unat r div 4096" "unat c mod 4096 = unat r mod 4096"
        using arg_cong [OF d, of unat] that by (simp_all add: unat_div unat_mod unat_BPB)
      then have "unat c = unat r" by (metis div_mult_mod_eq)
      then show ?thesis by (simp add: word_unat_eq_iff)
    qed
    then have "unat (c mod BPB) = unat (r mod BPB) \<longleftrightarrow> c = r" by blast
    then show ?thesis using ne(1) True mark_used_clear [OF len, of "unat (c mod BPB)"] by (simp add: free_block_def take_block_def t)
  next
    case False
    then have "c \<noteq> r" by auto
    then show ?thesis using ne(1) False by (simp add: free_block_def take_block_def t)
  qed
qed

section \<open>Sample state\<close>

text \<open>A file system of 1000 blocks in the middle of a transaction: the inodes start at block 32, the bitmap is
  block 58, and the blocks below 64 are in use.  Entry 0 of the inode cache holds inode 9.\<close>

definition fs_disk :: "32 word \<Rightarrow> byte list" where
  "fs_disk b = (if b = 58 then replicate 8 255 @ replicate (BSIZE - 8) 0 else replicate BSIZE 0)"

definition inode_ex :: inode where
  "inode_ex = \<lparr>i_dev = 1, i_inum = 9, i_ref = 1, i_valid = True, i_type = 2, i_major = 0, i_minor = 0, i_nlink = 1,
     i_size = 1000, i_addrs = [100, 101] @ replicate 11 0\<rparr>"

definition fs_of :: "log_st \<Rightarrow> fs_st" where
  "fs_of s = log_st.extend s (fs_st.fields
     \<lparr>sb_size = 1000, sb_nblocks = 941, sb_ninodes = 200, sb_nlog = 30, sb_logstart = 2, sb_inodestart = 32, sb_bmapstart = 58\<rparr>
     (\<lambda>i. if i = 0 then inode_ex else inode_ex\<lparr>i_inum := 0, i_ref := 0, i_valid := False\<rparr>))"

definition fs_ex :: fs_st where
  "fs_ex = fs_of (upd_log (\<lambda>l. l\<lparr>lg_outstanding := 1, lg_lh := \<lparr>lh_n = 0, lh_block = replicate 30 0\<rparr>\<rparr>) (log_of (bio_ex\<lparr>disk := fs_disk\<rparr>)))"

lemma fs_of_fields [simp]: "bufs (fs_of s) = bufs s" "slocks (fs_of s) = slocks s" "disk (fs_of s) = disk s"
  "disksize (fs_of s) = disksize s" "log (fs_of s) = log s" "sb_size (sb (fs_of s)) = 1000" "sb_inodestart (sb (fs_of s)) = 32"
  "sb_bmapstart (sb (fs_of s)) = 58"
  by (simp_all add: fs_of_def fs_st.defs log_st.defs bio_defs)

lemma fs_ex_icache: "icache fs_ex i = (if i = 0 then inode_ex else inode_ex\<lparr>i_inum := 0, i_ref := 0, i_valid := False\<rparr>)"
  by (simp add: fs_ex_def fs_of_def fs_st.defs log_st.defs bio_defs)

lemma fs_ex_thr: "thr None 3 4 fs_ex"
proof -
  let ?s = "upd_log (\<lambda>l. l\<lparr>lg_outstanding := 1, lg_lh := \<lparr>lh_n = 0, lh_block = replicate 30 0\<rparr>\<rparr>) (log_of (bio_ex\<lparr>disk := fs_disk\<rparr>))"
  have t: "thr None 3 4 (bio_ex\<lparr>disk := fs_disk\<rparr>)"
    using bio_ex_thr thr_cong [of "bio_ex\<lparr>disk := fs_disk\<rparr>" bio_ex] by (simp add: same_core_def)
  then have "thr None 3 4 ?s" using log_of_thr by simp
  moreover have "thr None 3 4 fs_ex = thr None 3 4 ?s"
    by (rule thr_cong) (simp_all add: same_core_def fs_ex_def fs_of_def fs_st.defs log_st.defs bio_defs)
  ultimately show ?thesis by simp
qed

lemma fs_ex_cold: "cold fs_ex"
proof -
  have "lru (bufs fs_ex) [0..<NBUF]" using lru_ex by (simp add: fs_ex_def)
  moreover have "length (disk fs_ex b) = BSIZE" for b by (simp add: fs_ex_def fs_disk_def BSIZE_def)
  moreover have "\<not> b_valid (bufs fs_ex i) \<and> \<not> b_dirty (bufs fs_ex i) \<and> b_refcnt (bufs fs_ex i) = 0 \<and> b_dev (bufs fs_ex i) = 0 \<and>
     \<not> sl_locked (slocks fs_ex (SBuf i))" for i by (simp add: fs_ex_def buf_ex_def)
  ultimately show ?thesis unfolding cold_def by blast
qed

lemma fs_ex_room: "room 20 fs_ex"
proof -
  have "lg_size (log fs_ex) = 30" by (simp add: fs_ex_def log_of_def log_st.defs bio_defs)
  then show ?thesis using cold_cinv [OF fs_ex_cold] by (simp add: room_def fs_ex_def param_defs)
qed


end
