(* ===== verification/Console.thy ===== *)
theory Console
  imports Inode
begin

unbundle bit_operations_syntax

text \<open>
  Console input, the console device and \<^verbatim>\<open>panic\<close>: the second half of \<^verbatim>\<open>console.c\<close>.

  The function pointer \<^verbatim>\<open>getc\<close> of \<^verbatim>\<open>consoleintr\<close> is the list of the values its calls return.
  The destination of \<^verbatim>\<open>consoleread\<close> is not written here: the function returns the bytes it stores
  there, in order, next to its result.  \<^verbatim>\<open>devsw\<close> records for each major number whether its \<^verbatim>\<open>read\<close>
  and \<^verbatim>\<open>write\<close> entries are set; the console's functions are the only ones that are ever entered.
\<close>

section \<open>State\<close>

definition INPUT_BUF :: "32 word" where "INPUT_BUF = 128"

record cinput =
  in_buf :: "byte list"
  in_r :: "32 word"
  in_w :: "32 word"
  in_e :: "32 word"

record cin_st = fs_st +
  input :: cinput
  devsw :: "(bool \<times> bool) list"

definition CONSOLE :: nat where "CONSOLE = 1"

definition upd_input :: "(cinput \<Rightarrow> cinput) \<Rightarrow> 'z cin_st_scheme \<Rightarrow> 'z cin_st_scheme" where
  "upd_input f s = s\<lparr>input := f (input s)\<rparr>"

definition in_at :: "cinput \<Rightarrow> 32 word \<Rightarrow> byte" where
  "in_at x i = in_buf x ! unat (i mod INPUT_BUF)"

text \<open>\<^verbatim>\<open>C(x)\<close>, a control character.\<close>

definition Ctl :: "char \<Rightarrow> int" where
  "Ctl x = int (of_char x) - int (of_char (CHR ''@''))"

section \<open>Input\<close>

partial_function (option) kill_line :: "'z cin_st_scheme \<Rightarrow> 'z cin_st_scheme kres option" where
  "kill_line s =
     (if in_e (input s) \<noteq> in_w (input s) \<and> in_at (input s) (in_e (input s) - 1) \<noteq> 10
      then kobind (consputc BACKSPACE (upd_input (\<lambda>x. x\<lparr>in_e := in_e x - 1\<rparr>) s)) (\<lambda>s1. kill_line s1)
      else Some (Ok s))"

definition input_char :: "int \<Rightarrow> 'z cin_st_scheme \<Rightarrow> 'z cin_st_scheme kres" where
  "input_char c s =
     (if c = Ctl (CHR ''P'') then Ok s
      else if c = Ctl (CHR ''U'') then krun (kill_line s)
      else if c = Ctl (CHR ''H'') \<or> c = 127 then
        if in_e (input s) \<noteq> in_w (input s)
        then consputc BACKSPACE (upd_input (\<lambda>x. x\<lparr>in_e := in_e x - 1\<rparr>) s)
        else Ok s
      else if c \<noteq> 0 \<and> in_e (input s) - in_r (input s) < INPUT_BUF then
        let c = (if c = 13 then 10 else c);
            s1 = upd_input (\<lambda>x. x\<lparr>in_buf := (in_buf x)[unat (in_e x mod INPUT_BUF) := word_of_int c],
                   in_e := in_e x + 1\<rparr>) s
        in kbind (consputc c s1) (\<lambda>s2.
           if c = 10 \<or> c = Ctl (CHR ''D'') \<or> in_e (input s2) = in_r (input s2) + INPUT_BUF
           then wakeup ChCons (upd_input (\<lambda>x. x\<lparr>in_w := in_e x\<rparr>) s2)
           else Ok s2)
      else Ok s)"

definition consoleintr :: "int list \<Rightarrow> 'z cin_st_scheme \<Rightarrow> 'z cin_st_scheme kres" where
  "consoleintr getc s =
     (let cs = takeWhile (\<lambda>c. c \<ge> 0) getc in
      kbind (acquire ConsLock s) (\<lambda>s1.
      kbind (foldk input_char cs s1) (\<lambda>s2.
      kbind (release ConsLock s2) (\<lambda>s3.
      if Ctl (CHR ''P'') \<in> set cs then procdump s3 else Ok s3))))"

section \<open>The console device\<close>

partial_function (option) consoleread_loop ::
  "('z cin_st_scheme \<Rightarrow> 'z cin_st_scheme kres) \<Rightarrow> int \<Rightarrow> int \<Rightarrow> byte list \<Rightarrow> 'z cin_st_scheme \<Rightarrow>
     (bool \<times> int \<times> byte list \<times> 'z cin_st_scheme) kres option"
where
  "consoleread_loop sw target n acc s =
     (if n \<le> 0 then Some (Ok (False, n, acc, s))
      else if in_r (input s) = in_w (input s) then
        kobind (myproc s) (\<lambda>(p, s1). kobind (deref p) (\<lambda>p.
        if p_killed (procs s1 ! p) then Some (Ok (True, n, acc, s1))
        else kobind (sleep sw ChCons (Some ConsLock) s1) (\<lambda>s2. consoleread_loop sw target n acc s2)))
      else
        let c = in_at (input s) (in_r (input s));
            s1 = upd_input (\<lambda>x. x\<lparr>in_r := in_r x + 1\<rparr>) s
        in if c = 4 then
             Some (Ok (False, n, acc, if n < target then upd_input (\<lambda>x. x\<lparr>in_r := in_r x - 1\<rparr>) s1 else s1))
           else if c = 10 then Some (Ok (False, n - 1, acc @ [c], s1))
           else consoleread_loop sw target (n - 1) (acc @ [c]) s1)"

definition consoleread ::
  "nat \<Rightarrow> int \<Rightarrow> 'z cin_st_scheme \<Rightarrow> (int \<times> byte list \<times> 'z cin_st_scheme) kres" where
  "consoleread ip n s =
     kbind (iunlock ip s) (\<lambda>s1.
     kbind (acquire ConsLock s1) (\<lambda>s2.
     kbind (krun (consoleread_loop switch_away n n [] s2)) (\<lambda>(killed, m, bs, s3).
     kbind (release ConsLock s3) (\<lambda>s4.
     kbind (ilock ip s4) (\<lambda>s5.
     Ok (if killed then -1 else n - m, bs, s5))))))"

definition consolewrite :: "nat \<Rightarrow> byte list \<Rightarrow> int \<Rightarrow> 'z cin_st_scheme \<Rightarrow> (int \<times> 'z cin_st_scheme) kres" where
  "consolewrite ip bs n s =
     kbind (iunlock ip s) (\<lambda>s1.
     kbind (acquire ConsLock s1) (\<lambda>s2.
     kbind (foldk (\<lambda>i s. kbind (aread bs (int i)) (\<lambda>b. consputc (uint b) s)) [0..<nat n] s2) (\<lambda>s3.
     kbind (release ConsLock s3) (\<lambda>s4.
     kbind (ilock ip s4) (\<lambda>s5. Ok (n, s5))))))"

text \<open>\<^verbatim>\<open>consoleinit\<close> also routes the keyboard interrupt to processor 0 (\<^verbatim>\<open>ioapicenable\<close>), which is not in the state.\<close>

definition consoleinit :: "'z cin_st_scheme \<Rightarrow> 'z cin_st_scheme" where
  "consoleinit s =
     (initlock ConsLock ''console'' s)\<lparr>devsw := (devsw s)[CONSOLE := (True, True)], cons_locking := True\<rparr>"

text \<open>\<^verbatim>\<open>panic\<close> prints the message and the call stack (the list \<open>pcs\<close>), freezes the other processors and
  loops forever: the state is the last one before the loop.\<close>

definition panic :: "string \<Rightarrow> 32 word list \<Rightarrow> 'z con_st_scheme \<Rightarrow> 'z con_st_scheme kres" where
  "panic msg pcs s =
     (let s1 = (cli s)\<lparr>cons_locking := False\<rparr> in
      kbind (cprintf ''lapicid %d: panic: '' [PInt (ucast (me s1))] s1) (\<lambda>s2.
      kbind (cprintf msg [] s2) (\<lambda>s3.
      kbind (cprintf nl [] s3) (\<lambda>s4.
      kbind (foldk (\<lambda>pc. cprintf '' %p'' [PInt pc]) pcs s4) (\<lambda>s5.
      Ok (s5\<lparr>panicked := True\<rparr>))))))"

end
