(* ===== verification/Fs.thy ===== *)
theory Fs
  imports Console
begin

unbundle bit_operations_syntax

text \<open>
  Reading and writing inodes, directories and path names: the second half of \<^verbatim>\<open>fs.c\<close>.

  The buffers of \<^verbatim>\<open>readi\<close> and \<^verbatim>\<open>writei\<close> are byte lists: \<^verbatim>\<open>readi\<close> returns the bytes it stores at \<^verbatim>\<open>dst\<close>
  next to its result, and \<^verbatim>\<open>writei\<close> gets the bytes at \<^verbatim>\<open>src\<close>.  A NUL-terminated string is the list of
  its bytes before the NUL.  The array \<^verbatim>\<open>name[DIRSIZ]\<close> that holds a path element is the list of at most
  \<open>DIRSIZ\<close> bytes in front of its NUL (there is none when the element fills the array).
\<close>

definition DIRSIZ :: nat where "DIRSIZ = 14"
definition DIRENT_SIZE :: nat where "DIRENT_SIZE = 16"

section \<open>Reading and writing\<close>

definition io_chunk :: "32 word \<Rightarrow> 32 word \<Rightarrow> 32 word" where
  "io_chunk off r = min r (of_nat BSIZE - off mod of_nat BSIZE)"

lemma unat_io_chunk: "unat (io_chunk off r) = min (unat r) (BSIZE - unat off mod BSIZE)"
proof -
  have m: "unat (off mod 512) = unat off mod 512" by (simp add: unat_mod)
  have "off mod 512 \<le> 512" using m by (simp add: word_le_nat_alt)
  then have "unat (512 - off mod 512) = 512 - unat off mod 512" using m by (simp add: unat_sub)
  then show ?thesis by (simp add: io_chunk_def BSIZE_def min_def word_le_nat_alt)
qed

lemma io_chunk_decreases:
  assumes "r \<noteq> 0"
  shows "unat (r - io_chunk off r) < unat r"
proof -
  have "unat off mod BSIZE < BSIZE" by (simp add: BSIZE_def)
  then have c: "0 < unat (io_chunk off r)" "unat (io_chunk off r) \<le> unat r"
    using assms by (simp_all add: unat_io_chunk unat_gt_0)
  then have "unat (r - io_chunk off r) = unat r - unat (io_chunk off r)"
    by (simp add: unat_sub word_le_nat_alt)
  then show ?thesis using c by linarith
qed

function readi_loop ::
  "nat \<Rightarrow> 32 word \<Rightarrow> 32 word \<Rightarrow> byte list \<Rightarrow> 'z cin_st_scheme \<Rightarrow> (byte list \<times> 'z cin_st_scheme) kres"
where
  "readi_loop ip off r acc s =
     (if r = 0 then Ok (acc, s)
      else
        kbind (bmap ip (off div of_nat BSIZE) s) (\<lambda>(b, s1).
        kbind (bread (i_dev (icache s1 ip)) b s1) (\<lambda>(bp, s2).
        let m = io_chunk off r;
            bs = take (unat m) (drop (unat (off mod of_nat BSIZE)) (b_data (bufs s2 bp)))
        in kbind (brelse bp s2) (\<lambda>s3. readi_loop ip (off + m) (r - m) (acc @ bs) s3))))"
  by pat_completeness auto
termination
  by (relation "measure (\<lambda>(ip, off, r, acc, s). unat r)") (simp_all add: io_chunk_decreases)

declare readi_loop.simps [simp del]

definition readi ::
  "nat \<Rightarrow> 32 word \<Rightarrow> 32 word \<Rightarrow> 'z cin_st_scheme \<Rightarrow> (int \<times> byte list \<times> 'z cin_st_scheme) kres" where
  "readi ip off n s =
     (let x = icache s ip in
      if i_type x = T_DEV then
        if sint (i_major x) < 0 \<or> sint (i_major x) \<ge> int NDEV \<or> \<not> fst (devsw s ! nat (sint (i_major x)))
        then Ok (-1, [], s)
        else consoleread ip (sint n) s
      else if off > i_size x \<or> off + n < off then Ok (-1, [], s)
      else
        let n = (if off + n > i_size x then i_size x - off else n) in
        kbind (readi_loop ip off n [] s) (\<lambda>(bs, s1). Ok (sint n, bs, s1)))"

function writei_loop ::
  "nat \<Rightarrow> 32 word \<Rightarrow> 32 word \<Rightarrow> byte list \<Rightarrow> 'z cin_st_scheme \<Rightarrow> (32 word \<times> 'z cin_st_scheme) kres"
where
  "writei_loop ip off r src s =
     (if r = 0 then Ok (off, s)
      else
        kbind (bmap ip (off div of_nat BSIZE) s) (\<lambda>(b, s1).
        kbind (bread (i_dev (icache s1 ip)) b s1) (\<lambda>(bp, s2).
        let m = io_chunk off r;
            d = patch (b_data (bufs s2 bp)) (unat (off mod of_nat BSIZE)) (take (unat m) src)
        in kbind (log_write bp (set_data bp d s2)) (\<lambda>s3.
           kbind (brelse bp s3) (\<lambda>s4. writei_loop ip (off + m) (r - m) (drop (unat m) src) s4)))))"
  by pat_completeness auto
termination
  by (relation "measure (\<lambda>(ip, off, r, src, s). unat r)") (simp_all add: io_chunk_decreases)

declare writei_loop.simps [simp del]

definition writei ::
  "nat \<Rightarrow> byte list \<Rightarrow> 32 word \<Rightarrow> 32 word \<Rightarrow> 'z cin_st_scheme \<Rightarrow> (int \<times> 'z cin_st_scheme) kres" where
  "writei ip src off n s =
     (let x = icache s ip in
      if i_type x = T_DEV then
        if sint (i_major x) < 0 \<or> sint (i_major x) \<ge> int NDEV \<or> \<not> snd (devsw s ! nat (sint (i_major x)))
        then Ok (-1, s)
        else consolewrite ip src (sint n) s
      else if off > i_size x \<or> off + n < off then Ok (-1, s)
      else if off + n > of_nat (MAXFILE * BSIZE) then Ok (-1, s)
      else
        kbind (writei_loop ip off n src s) (\<lambda>(off, s1).
        if n > 0 \<and> off > i_size (icache s1 ip)
        then kbind (iupdate ip (upd_inode ip (\<lambda>x. x\<lparr>i_size := off\<rparr>) s1)) (\<lambda>s2. Ok (sint n, s2))
        else Ok (sint n, s1)))"

section \<open>Directories\<close>

record dirent =
  de_inum :: "16 word"
  de_name :: "byte list"

definition dirent_of :: "byte list \<Rightarrow> dirent" where
  "dirent_of bs = \<lparr>de_inum = rd16 bs 0, de_name = take DIRSIZ (drop 2 bs)\<rparr>"

definition dirent_bytes :: "dirent \<Rightarrow> byte list" where
  "dirent_bytes de = [ucast (de_inum de), ucast (drop_bit 8 (de_inum de))] @ de_name de"

definition first_byte :: "byte list \<Rightarrow> byte" where
  "first_byte bs = (case bs of [] \<Rightarrow> 0 | b # _ \<Rightarrow> b)"

text \<open>\<^verbatim>\<open>strncmp\<close> and \<^verbatim>\<open>strncpy\<close> on strings that end with the list or at a NUL.\<close>

fun strncmp_bytes :: "nat \<Rightarrow> byte list \<Rightarrow> byte list \<Rightarrow> int" where
  "strncmp_bytes 0 p q = 0"
| "strncmp_bytes (Suc n) p q =
     (if first_byte p \<noteq> 0 \<and> first_byte p = first_byte q then strncmp_bytes n (tl p) (tl q)
      else uint (first_byte p) - uint (first_byte q))"

fun strncpy_bytes :: "nat \<Rightarrow> byte list \<Rightarrow> byte list" where
  "strncpy_bytes 0 t = []"
| "strncpy_bytes (Suc n) t =
     (if first_byte t = 0 then replicate (Suc n) 0 else first_byte t # strncpy_bytes n (tl t))"

definition namecmp :: "byte list \<Rightarrow> byte list \<Rightarrow> int" where
  "namecmp s t = strncmp_bytes DIRSIZ s t"

text \<open>The loops over the entries: \<open>k\<close> bounds the number of entries left, \<^verbatim>\<open>dp->size\<close> divided by the size
  of an entry and rounded up.\<close>

definition entries_left :: "32 word \<Rightarrow> nat" where
  "entries_left sz = (unat sz + DIRENT_SIZE - 1) div DIRENT_SIZE"

primrec dirlookup_loop ::
  "nat \<Rightarrow> nat \<Rightarrow> byte list \<Rightarrow> 32 word \<Rightarrow> 'z cin_st_scheme \<Rightarrow> ((nat \<times> 32 word) option \<times> 'z cin_st_scheme) kres"
where
  "dirlookup_loop 0 dp nm off s = Ok (None, s)"
| "dirlookup_loop (Suc k) dp nm off s =
     kbind (readi dp off (of_nat DIRENT_SIZE) s) (\<lambda>(r, bs, s1).
     kbind (panic_if (r \<noteq> int DIRENT_SIZE) ''dirlookup read'') (\<lambda>_.
     let de = dirent_of bs in
     if de_inum de = 0 then dirlookup_loop k dp nm (off + of_nat DIRENT_SIZE) s1
     else if namecmp nm (de_name de) = 0 then
       kbind (iget (i_dev (icache s1 dp)) (ucast (de_inum de)) s1) (\<lambda>(ip, s2). Ok (Some (ip, off), s2))
     else dirlookup_loop k dp nm (off + of_nat DIRENT_SIZE) s1))"

definition dirlookup ::
  "nat \<Rightarrow> byte list \<Rightarrow> 'z cin_st_scheme \<Rightarrow> ((nat \<times> 32 word) option \<times> 'z cin_st_scheme) kres" where
  "dirlookup dp nm s =
     kbind (panic_if (i_type (icache s dp) \<noteq> T_DIR) ''dirlookup not DIR'') (\<lambda>_.
     dirlookup_loop (entries_left (i_size (icache s dp))) dp nm 0 s)"

primrec dirlink_loop ::
  "nat \<Rightarrow> nat \<Rightarrow> 32 word \<Rightarrow> 'z cin_st_scheme \<Rightarrow> (32 word \<times> 'z cin_st_scheme) kres"
where
  "dirlink_loop 0 dp off s = Ok (off, s)"
| "dirlink_loop (Suc k) dp off s =
     kbind (readi dp off (of_nat DIRENT_SIZE) s) (\<lambda>(r, bs, s1).
     kbind (panic_if (r \<noteq> int DIRENT_SIZE) ''dirlink read'') (\<lambda>_.
     if de_inum (dirent_of bs) = 0 then Ok (off, s1)
     else dirlink_loop k dp (off + of_nat DIRENT_SIZE) s1))"

definition dirlink ::
  "nat \<Rightarrow> byte list \<Rightarrow> 32 word \<Rightarrow> 'z cin_st_scheme \<Rightarrow> (int \<times> 'z cin_st_scheme) kres" where
  "dirlink dp nm inum s =
     kbind (dirlookup dp nm s) (\<lambda>(found, s1).
     case found of
       Some (ip, _) \<Rightarrow> kbind (iput ip s1) (\<lambda>s2. Ok (-1, s2))
     | None \<Rightarrow>
         kbind (dirlink_loop (entries_left (i_size (icache s1 dp))) dp 0 s1) (\<lambda>(off, s2).
         kbind (writei dp (dirent_bytes \<lparr>de_inum = ucast inum, de_name = strncpy_bytes DIRSIZ nm\<rparr>)
                  off (of_nat DIRENT_SIZE) s2) (\<lambda>(r, s3).
         kbind (panic_if (r \<noteq> int DIRENT_SIZE) ''dirlink'') (\<lambda>_. Ok (0, s3)))))"

section \<open>Paths\<close>

definition slash :: byte where "slash = 47"

definition skipelem :: "byte list \<Rightarrow> (byte list \<times> byte list) option" where
  "skipelem path =
     (let p1 = dropWhile (\<lambda>b. b = slash) path in
      if p1 = [] then None
      else let el = takeWhile (\<lambda>b. b \<noteq> slash) p1; p2 = dropWhile (\<lambda>b. b \<noteq> slash) p1 in
        Some (take DIRSIZ el, dropWhile (\<lambda>b. b = slash) p2))"

lemma skipelem_shorter: "skipelem path = Some (el, rest) \<Longrightarrow> length rest < length path"
proof -
  assume a: "skipelem path = Some (el, rest)"
  let ?p = "dropWhile (\<lambda>b. b = slash) path"
  have ne: "?p \<noteq> []" and r: "rest = dropWhile (\<lambda>b. b = slash) (dropWhile (\<lambda>b. b \<noteq> slash) ?p)"
    using a by (auto simp: skipelem_def Let_def split: if_splits)
  then obtain x xs where p: "?p = x # xs" by (cases ?p) auto
  then have "x \<noteq> slash" using hd_dropWhile [of "\<lambda>b. b = slash" path] ne by simp
  then have "length rest \<le> length xs" using p r
    by (simp add: le_trans [OF length_dropWhile_le length_dropWhile_le])
  moreover have "length ?p \<le> length path" by (rule length_dropWhile_le)
  ultimately show ?thesis using p by simp
qed

function namex_loop ::
  "byte list \<Rightarrow> byte list \<Rightarrow> bool \<Rightarrow> nat \<Rightarrow> 'z cin_st_scheme \<Rightarrow> ((nat \<times> byte list) option \<times> 'z cin_st_scheme) kres"
where
  "namex_loop path nm nameiparent ip s =
     (case skipelem path of
        None \<Rightarrow> if nameiparent then kbind (iput ip s) (\<lambda>s1. Ok (None, s1)) else Ok (Some (ip, nm), s)
      | Some (el, rest) \<Rightarrow>
          kbind (ilock ip s) (\<lambda>s1.
          if i_type (icache s1 ip) \<noteq> T_DIR then kbind (iunlockput ip s1) (\<lambda>s2. Ok (None, s2))
          else if nameiparent \<and> rest = [] then kbind (iunlock ip s1) (\<lambda>s2. Ok (Some (ip, el), s2))
          else
            kbind (dirlookup ip el s1) (\<lambda>(found, s2).
            case found of
              None \<Rightarrow> kbind (iunlockput ip s2) (\<lambda>s3. Ok (None, s3))
            | Some (nxt, _) \<Rightarrow> kbind (iunlockput ip s2) (\<lambda>s3. namex_loop rest el nameiparent nxt s3))))"
  by pat_completeness auto
termination
  by (relation "measure (\<lambda>(path, nm, np, ip, s). length path)") (auto dest: skipelem_shorter)

declare namex_loop.simps [simp del]

definition namex ::
  "byte list \<Rightarrow> bool \<Rightarrow> 'z cin_st_scheme \<Rightarrow> ((nat \<times> byte list) option \<times> 'z cin_st_scheme) kres" where
  "namex path nameiparent s =
     kbind (if first_byte path = slash then iget (of_nat ROOTDEV) ROOTINO s
            else kbind (myproc s) (\<lambda>(p, s1). kbind (deref p) (\<lambda>p.
                 kbind (deref (p_cwd (procs s1 ! p))) (\<lambda>cwd. idup cwd s1)))) (\<lambda>(ip, s1).
     namex_loop path [] nameiparent ip s1)"

definition namei :: "byte list \<Rightarrow> 'z cin_st_scheme \<Rightarrow> (nat option \<times> 'z cin_st_scheme) kres" where
  "namei path s = kbind (namex path False s) (\<lambda>(r, s1). Ok (map_option fst r, s1))"

definition nameiparent ::
  "byte list \<Rightarrow> 'z cin_st_scheme \<Rightarrow> ((nat \<times> byte list) option \<times> 'z cin_st_scheme) kres" where
  "nameiparent path s = namex path True s"

end
