(* ===== verification/File.thy ===== *)
theory File
  imports Fs
begin

unbundle bit_operations_syntax

text \<open>
  Open files and pipes: \<^verbatim>\<open>file.c\<close> and \<^verbatim>\<open>pipe.c\<close>.

  A \<^verbatim>\<open>struct pipe\<close> fills the page \<^verbatim>\<open>kalloc\<close> returned for it; it is kept as the record at the address of
  that page.  The kernel reads and writes user buffers through the page table of the running process;
  \<open>translate\<close> is that translation as the processor does it, and an access without a translation is
  a page fault in the kernel (\<open>Fault\<close>).  A file pointer is an index of \<^verbatim>\<open>ftable.file\<close>.
\<close>

section \<open>User memory\<close>

definition translate :: "bool \<Rightarrow> addr \<Rightarrow> 'z vm_st_scheme \<Rightarrow> addr kres" where
  "translate wr va s =
     (if va \<ge> KERNBASE then Ok va
      else
        let pde = load32 (mem s) (P2V (cr3 s (me s)) + 4 * PDX va) in
        if pde AND PTE_P = 0 then Fault ''page fault''
        else
          let pte = load32 (mem s) (P2V (PTE_ADDR pde) + 4 * PTX va) in
          if pte AND PTE_P = 0 \<or> (wr \<and> pte AND PTE_W = 0) then Fault ''page fault''
          else Ok (P2V (PTE_ADDR pte) + (va AND 0xFFF)))"

definition ld8 :: "addr \<Rightarrow> 'z vm_st_scheme \<Rightarrow> byte kres" where
  "ld8 va s = kbind (translate False va s) (\<lambda>a. Ok (mem s a))"

definition st8 :: "addr \<Rightarrow> byte \<Rightarrow> 'z vm_st_scheme \<Rightarrow> 'z vm_st_scheme kres" where
  "st8 va b s = kbind (translate True va s) (\<lambda>a. Ok (s\<lparr>mem := (mem s)(a := b)\<rparr>))"

primrec ld_bytes :: "addr \<Rightarrow> nat \<Rightarrow> 'z vm_st_scheme \<Rightarrow> byte list kres" where
  "ld_bytes va 0 s = Ok []"
| "ld_bytes va (Suc n) s = kbind (ld8 va s) (\<lambda>b. kbind (ld_bytes (va + 1) n s) (\<lambda>bs. Ok (b # bs)))"

primrec st_bytes :: "addr \<Rightarrow> byte list \<Rightarrow> 'z vm_st_scheme \<Rightarrow> 'z vm_st_scheme kres" where
  "st_bytes va [] s = Ok s"
| "st_bytes va (b # bs) s = kbind (st8 va b s) (st_bytes (va + 1) bs)"

section \<open>State\<close>

datatype ftype = FD_NONE | FD_PIPE | FD_INODE

record ofile =
  f_type :: ftype
  f_ref :: int
  f_readable :: bool
  f_writable :: bool
  f_pipe :: addr
  f_ip :: nat
  f_off :: "32 word"

definition PIPESIZE :: "32 word" where "PIPESIZE = 512"

record pipe =
  pi_data :: "byte list"
  pi_nread :: "32 word"
  pi_nwrite :: "32 word"
  pi_readopen :: bool
  pi_writeopen :: bool

record file_st = cin_st +
  ftable :: "ofile list"
  pipes :: "addr \<Rightarrow> pipe"

definition upd_file :: "nat \<Rightarrow> (ofile \<Rightarrow> ofile) \<Rightarrow> 'z file_st_scheme \<Rightarrow> 'z file_st_scheme" where
  "upd_file f g s = s\<lparr>ftable := (ftable s)[f := g (ftable s ! f)]\<rparr>"

definition upd_pipe :: "addr \<Rightarrow> (pipe \<Rightarrow> pipe) \<Rightarrow> 'z file_st_scheme \<Rightarrow> 'z file_st_scheme" where
  "upd_pipe p g s = s\<lparr>pipes := (pipes s)(p := g (pipes s p))\<rparr>"

section \<open>Files\<close>

definition fileinit :: "'z file_st_scheme \<Rightarrow> 'z file_st_scheme" where
  "fileinit s = initlock FtableLock ''ftable'' s"

definition filealloc :: "'z file_st_scheme \<Rightarrow> (nat option \<times> 'z file_st_scheme) kres" where
  "filealloc s =
     kbind (acquire FtableLock s) (\<lambda>s1.
     case find (\<lambda>f. f_ref (ftable s1 ! f) = 0) [0..<NFILE] of
       Some f \<Rightarrow> kbind (release FtableLock (upd_file f (\<lambda>x. x\<lparr>f_ref := 1\<rparr>) s1)) (\<lambda>s2. Ok (Some f, s2))
     | None \<Rightarrow> kbind (release FtableLock s1) (\<lambda>s2. Ok (None, s2)))"

definition filedup :: "nat \<Rightarrow> 'z file_st_scheme \<Rightarrow> (nat \<times> 'z file_st_scheme) kres" where
  "filedup f s =
     kbind (acquire FtableLock s) (\<lambda>s1.
     kbind (panic_if (f_ref (ftable s1 ! f) < 1) ''filedup'') (\<lambda>_.
     kbind (release FtableLock (upd_file f (\<lambda>x. x\<lparr>f_ref := f_ref x + 1\<rparr>) s1)) (\<lambda>s2. Ok (f, s2))))"

section \<open>Pipes\<close>

definition pipeclose :: "addr \<Rightarrow> bool \<Rightarrow> 'z file_st_scheme \<Rightarrow> 'z file_st_scheme kres" where
  "pipeclose p writable s =
     kbind (acquire (PipeLock p) s) (\<lambda>s1.
     kbind (if writable then wakeup (ChPipeRead p) (upd_pipe p (\<lambda>x. x\<lparr>pi_writeopen := False\<rparr>) s1)
            else wakeup (ChPipeWrite p) (upd_pipe p (\<lambda>x. x\<lparr>pi_readopen := False\<rparr>) s1)) (\<lambda>s2.
     if \<not> pi_readopen (pipes s2 p) \<and> \<not> pi_writeopen (pipes s2 p)
     then kbind (release (PipeLock p) s2) (kfree p)
     else release (PipeLock p) s2))"

text \<open>\<open>Inl\<close>: the loop returned -1 (the lock is released); \<open>Inr\<close>: all bytes are in the pipe.\<close>

partial_function (option) pipewrite_loop ::
  "('z file_st_scheme \<Rightarrow> 'z file_st_scheme kres) \<Rightarrow> addr \<Rightarrow> addr \<Rightarrow> int \<Rightarrow> int \<Rightarrow> 'z file_st_scheme \<Rightarrow>
     ('z file_st_scheme + 'z file_st_scheme) kres option"
where
  "pipewrite_loop sw p addr i n s =
     (if i < n then
        if pi_nwrite (pipes s p) = pi_nread (pipes s p) + PIPESIZE then
          kobind (myproc s) (\<lambda>(q, s1). kobind (deref q) (\<lambda>q.
          if \<not> pi_readopen (pipes s1 p) \<or> p_killed (procs s1 ! q)
          then kobind (release (PipeLock p) s1) (\<lambda>s2. Some (Ok (Inl s2)))
          else kobind (wakeup (ChPipeRead p) s1) (\<lambda>s2.
               kobind (sleep sw (ChPipeWrite p) (Some (PipeLock p)) s2) (\<lambda>s3. pipewrite_loop sw p addr i n s3))))
        else
          kobind (ld8 (addr + word_of_int i) s) (\<lambda>b.
          pipewrite_loop sw p addr (i + 1) n
            (upd_pipe p (\<lambda>x. x\<lparr>pi_data := (pi_data x)[unat (pi_nwrite x mod PIPESIZE) := b],
               pi_nwrite := pi_nwrite x + 1\<rparr>) s))
      else Some (Ok (Inr s)))"

definition pipewrite ::
  "('z file_st_scheme \<Rightarrow> 'z file_st_scheme kres) \<Rightarrow> addr \<Rightarrow> addr \<Rightarrow> int \<Rightarrow> 'z file_st_scheme \<Rightarrow>
     (int \<times> 'z file_st_scheme) kres" where
  "pipewrite sw p addr n s =
     kbind (acquire (PipeLock p) s) (\<lambda>s1.
     kbind (krun (pipewrite_loop sw p addr 0 n s1)) (\<lambda>r.
     case r of
       Inl s2 \<Rightarrow> Ok (-1, s2)
     | Inr s2 \<Rightarrow>
         kbind (wakeup (ChPipeRead p) s2) (\<lambda>s3.
         kbind (release (PipeLock p) s3) (\<lambda>s4. Ok (n, s4)))))"

partial_function (option) piperead_wait ::
  "('z file_st_scheme \<Rightarrow> 'z file_st_scheme kres) \<Rightarrow> addr \<Rightarrow> 'z file_st_scheme \<Rightarrow>
     ('z file_st_scheme + 'z file_st_scheme) kres option"
where
  "piperead_wait sw p s =
     (if pi_nread (pipes s p) = pi_nwrite (pipes s p) \<and> pi_writeopen (pipes s p) then
        kobind (myproc s) (\<lambda>(q, s1). kobind (deref q) (\<lambda>q.
        if p_killed (procs s1 ! q)
        then kobind (release (PipeLock p) s1) (\<lambda>s2. Some (Ok (Inl s2)))
        else kobind (sleep sw (ChPipeRead p) (Some (PipeLock p)) s1) (\<lambda>s2. piperead_wait sw p s2)))
      else Some (Ok (Inr s)))"

primrec piperead_copy ::
  "nat \<Rightarrow> addr \<Rightarrow> addr \<Rightarrow> int \<Rightarrow> 'z file_st_scheme \<Rightarrow> (int \<times> 'z file_st_scheme) kres"
where
  "piperead_copy 0 p addr i s = Ok (i, s)"
| "piperead_copy (Suc k) p addr i s =
     (let x = pipes s p in
      if pi_nread x = pi_nwrite x then Ok (i, s)
      else
        kbind (st8 (addr + word_of_int i) (pi_data x ! unat (pi_nread x mod PIPESIZE)) s) (\<lambda>s1.
        piperead_copy k p addr (i + 1) (upd_pipe p (\<lambda>x. x\<lparr>pi_nread := pi_nread x + 1\<rparr>) s1)))"

definition piperead ::
  "('z file_st_scheme \<Rightarrow> 'z file_st_scheme kres) \<Rightarrow> addr \<Rightarrow> addr \<Rightarrow> int \<Rightarrow> 'z file_st_scheme \<Rightarrow>
     (int \<times> 'z file_st_scheme) kres" where
  "piperead sw p addr n s =
     kbind (acquire (PipeLock p) s) (\<lambda>s1.
     kbind (krun (piperead_wait sw p s1)) (\<lambda>r.
     case r of
       Inl s2 \<Rightarrow> Ok (-1, s2)
     | Inr s2 \<Rightarrow>
         kbind (piperead_copy (nat n) p addr 0 s2) (\<lambda>(i, s3).
         kbind (wakeup (ChPipeWrite p) s3) (\<lambda>s4.
         kbind (release (PipeLock p) s4) (\<lambda>s5. Ok (i, s5))))))"

section \<open>Closing and transferring\<close>

definition fileclose :: "nat \<Rightarrow> 'z file_st_scheme \<Rightarrow> 'z file_st_scheme kres" where
  "fileclose f s =
     kbind (acquire FtableLock s) (\<lambda>s1.
     kbind (panic_if (f_ref (ftable s1 ! f) < 1) ''fileclose'') (\<lambda>_.
     let s2 = upd_file f (\<lambda>x. x\<lparr>f_ref := f_ref x - 1\<rparr>) s1; ff = ftable s2 ! f in
     if f_ref ff > 0 then release FtableLock s2
     else
       kbind (release FtableLock (upd_file f (\<lambda>x. x\<lparr>f_ref := 0, f_type := FD_NONE\<rparr>) s2)) (\<lambda>s3.
       case f_type ff of
         FD_PIPE \<Rightarrow> pipeclose (f_pipe ff) (f_writable ff) s3
       | FD_INODE \<Rightarrow> kbind (begin_op s3) (\<lambda>s4. kbind (iput (f_ip ff) s4) end_op)
       | FD_NONE \<Rightarrow> Ok s3)))"

definition pipealloc :: "'z file_st_scheme \<Rightarrow> ((nat \<times> nat) option \<times> 'z file_st_scheme) kres" where
  "pipealloc s =
     kbind (filealloc s) (\<lambda>(f0, s1).
     case f0 of
       None \<Rightarrow> Ok (None, s1)
     | Some f0 \<Rightarrow>
         kbind (filealloc s1) (\<lambda>(f1, s2).
         case f1 of
           None \<Rightarrow> kbind (fileclose f0 s2) (\<lambda>s3. Ok (None, s3))
         | Some f1 \<Rightarrow>
             kbind (kalloc s2) (\<lambda>(p, s3).
             if p = 0 then kbind (fileclose f0 s3) (\<lambda>s4. kbind (fileclose f1 s4) (\<lambda>s5. Ok (None, s5)))
             else
               let s4 = upd_pipe p (\<lambda>x. x\<lparr>pi_readopen := True, pi_writeopen := True, pi_nwrite := 0, pi_nread := 0\<rparr>) s3;
                   s5 = initlock (PipeLock p) ''pipe'' s4;
                   s6 = upd_file f0 (\<lambda>x. x\<lparr>f_type := FD_PIPE, f_readable := True, f_writable := False, f_pipe := p\<rparr>) s5;
                   s7 = upd_file f1 (\<lambda>x. x\<lparr>f_type := FD_PIPE, f_readable := False, f_writable := True, f_pipe := p\<rparr>) s6
               in Ok (Some (f0, f1), s7))))"

definition filestat :: "nat \<Rightarrow> 'z file_st_scheme \<Rightarrow> (stat option \<times> 'z file_st_scheme) kres" where
  "filestat f s =
     (if f_type (ftable s ! f) = FD_INODE then
        kbind (ilock (f_ip (ftable s ! f)) s) (\<lambda>s1.
        let st = stati (f_ip (ftable s1 ! f)) s1 in
        kbind (iunlock (f_ip (ftable s1 ! f)) s1) (\<lambda>s2. Ok (Some st, s2)))
      else Ok (None, s))"

definition fileread :: "nat \<Rightarrow> addr \<Rightarrow> int \<Rightarrow> 'z file_st_scheme \<Rightarrow> (int \<times> 'z file_st_scheme) kres" where
  "fileread f addr n s =
     (let x = ftable s ! f in
      if \<not> f_readable x then Ok (-1, s)
      else case f_type x of
        FD_PIPE \<Rightarrow> piperead switch_away (f_pipe x) addr n s
      | FD_INODE \<Rightarrow>
          kbind (ilock (f_ip x) s) (\<lambda>s1.
          kbind (readi (f_ip x) (f_off (ftable s1 ! f)) (word_of_int n) s1) (\<lambda>(r, bs, s2).
          kbind (st_bytes addr bs s2) (\<lambda>s3.
          let s4 = (if r > 0 then upd_file f (\<lambda>x. x\<lparr>f_off := f_off x + word_of_int r\<rparr>) s3 else s3) in
          kbind (iunlock (f_ip x) s4) (\<lambda>s5. Ok (r, s5)))))
      | FD_NONE \<Rightarrow> Panic ''fileread'')"

definition FILEWRITE_MAX :: int where
  "FILEWRITE_MAX = (int MAXOPBLOCKS - 1 - 1 - 2) div 2 * 512"

definition filewrite_chunk ::
  "nat \<Rightarrow> addr \<Rightarrow> int \<Rightarrow> 'z file_st_scheme \<Rightarrow> (int \<times> 'z file_st_scheme) kres" where
  "filewrite_chunk f addr n1 s =
     kbind (begin_op s) (\<lambda>s1.
     let ip = f_ip (ftable s1 ! f) in
     kbind (ilock ip s1) (\<lambda>s2.
     kbind (ld_bytes addr (nat n1) s2) (\<lambda>bs.
     kbind (writei ip bs (f_off (ftable s2 ! f)) (word_of_int n1) s2) (\<lambda>(r, s3).
     let s4 = (if r > 0 then upd_file f (\<lambda>x. x\<lparr>f_off := f_off x + word_of_int r\<rparr>) s3 else s3) in
     kbind (iunlock ip s4) (\<lambda>s5.
     kbind (end_op s5) (\<lambda>s6. Ok (r, s6)))))))"

function filewrite_loop ::
  "nat \<Rightarrow> addr \<Rightarrow> int \<Rightarrow> int \<Rightarrow> 'z file_st_scheme \<Rightarrow> (int \<times> 'z file_st_scheme) kres"
where
  "filewrite_loop f addr i n s =
     (if i < n then
        let n1 = min (n - i) FILEWRITE_MAX in
        kbind (filewrite_chunk f (addr + word_of_int i) n1 s) (\<lambda>(r, s1).
        if r < 0 then Ok (i, s1)
        else if r \<noteq> n1 then Panic ''short filewrite''
        else filewrite_loop f addr (i + r) n s1)
      else Ok (i, s))"
  by pat_completeness auto
termination
  by (relation "measure (\<lambda>(f, addr, i, n, s). nat (n - i))") (auto simp: FILEWRITE_MAX_def param_defs min_def split: if_splits)

declare filewrite_loop.simps [simp del]

definition filewrite :: "nat \<Rightarrow> addr \<Rightarrow> int \<Rightarrow> 'z file_st_scheme \<Rightarrow> (int \<times> 'z file_st_scheme) kres" where
  "filewrite f addr n s =
     (let x = ftable s ! f in
      if \<not> f_writable x then Ok (-1, s)
      else case f_type x of
        FD_PIPE \<Rightarrow> pipewrite switch_away (f_pipe x) addr n s
      | FD_INODE \<Rightarrow> kbind (filewrite_loop f addr 0 n s) (\<lambda>(i, s1). Ok (if i = n then n else -1, s1))
      | FD_NONE \<Rightarrow> Panic ''filewrite'')"

section \<open>User memory does not depend on the kernel's data\<close>

lemma translate_cong: "mem t = mem s \<Longrightarrow> cr3 t = cr3 s \<Longrightarrow> me t = me s \<Longrightarrow> translate wr va t = translate wr va s"
  by (simp add: translate_def Let_def)

lemma ld_bytes_cong: "mem t = mem s \<Longrightarrow> cr3 t = cr3 s \<Longrightarrow> me t = me s \<Longrightarrow> ld_bytes va n t = ld_bytes va n s"
  using translate_cong [of t s] by (induction n arbitrary: va) (simp_all add: ld8_def)

lemma ld_bytes_nth:
  "ld_bytes va n s = Ok bs \<Longrightarrow> length bs = n \<and> (\<forall>k<n. ld8 (va + of_nat k) s = Ok (bs ! k))"
proof (induction n arbitrary: va bs)
  case (Suc n)
  then obtain b cs where b: "ld8 va s = Ok b" "ld_bytes (va + 1) n s = Ok cs" "bs = b # cs" by (auto simp: kres_iff)
  have "ld8 (va + of_nat k) s = Ok (bs ! k)" if "k < Suc n" for k
    using that b Suc.IH [OF b(2)] by (cases k) (simp_all add: ac_simps)
  then show ?case using b Suc.IH [OF b(2)] by simp
qed simp

lemma st8_mem: "st8 va b s = Ok t \<Longrightarrow> t = s\<lparr>mem := mem t\<rparr>"
  by (auto simp: st8_def kres_iff)

lemma st_bytes_cong:
  "st_bytes va bs s = Ok s' \<Longrightarrow> mem t = mem s \<Longrightarrow> cr3 t = cr3 s \<Longrightarrow> me t = me s \<Longrightarrow> st_bytes va bs t = Ok (t\<lparr>mem := mem s'\<rparr>)"
proof (induction bs arbitrary: va s t)
  case (Cons b bs)
  then obtain a where a: "translate True va s = Ok a" "st_bytes (va + 1) bs (s\<lparr>mem := (mem s)(a := b)\<rparr>) = Ok s'"
    by (auto simp: st8_def kres_iff)
  have "translate True va t = Ok a" using a(1) translate_cong [of t s] Cons.prems by simp
  then show ?case using Cons.IH [OF a(2), of "t\<lparr>mem := (mem t)(a := b)\<rparr>"] Cons.prems by (simp add: st8_def)
qed simp

section \<open>The ring buffer of a pipe\<close>

text \<open>The bytes written to a pipe and not yet read, oldest first.  The counters run through the 32-bit integers and wrap around.\<close>

definition pipe_len :: "pipe \<Rightarrow> nat" where
  "pipe_len x = unat (pi_nwrite x - pi_nread x)"

definition pipe_slot :: "pipe \<Rightarrow> nat \<Rightarrow> nat" where
  "pipe_slot x k = unat ((pi_nread x + of_nat k) mod PIPESIZE)"

definition pipe_queue :: "pipe \<Rightarrow> byte list" where
  "pipe_queue x = map (\<lambda>k. pi_data x ! pipe_slot x k) [0..<pipe_len x]"

definition pipe_wf :: "pipe \<Rightarrow> bool" where
  "pipe_wf x \<longleftrightarrow> length (pi_data x) = 512 \<and> pipe_len x \<le> 512"

definition pipe_put :: "byte \<Rightarrow> pipe \<Rightarrow> pipe" where
  "pipe_put b x = x\<lparr>pi_data := (pi_data x)[unat (pi_nwrite x mod PIPESIZE) := b], pi_nwrite := pi_nwrite x + 1\<rparr>"

definition pipe_get :: "pipe \<Rightarrow> pipe" where
  "pipe_get x = x\<lparr>pi_nread := pi_nread x + 1\<rparr>"

lemma pipe_slot_nat: "pipe_slot x k = (unat (pi_nread x) + k) mod 512"
proof -
  have "pipe_slot x k = unat (pi_nread x + of_nat k) mod 512"
    by (simp add: pipe_slot_def PIPESIZE_def unat_mod)
  also have "unat (pi_nread x + of_nat k) = (unat (pi_nread x) + k) mod 2 ^ 32"
    by (simp add: unat_word_ariths(1) unat_of_nat mod_add_right_eq)
  also have "\<dots> mod 512 = (unat (pi_nread x) + k) mod 512"
    by (rule mod_mod_cancel) simp
  finally show ?thesis .
qed

lemma pipe_slot_bound: "pipe_slot x k < 512"
  by (simp add: pipe_slot_nat)

lemma pipe_slot_inj: "j < k \<Longrightarrow> k < j + 512 \<Longrightarrow> pipe_slot x j \<noteq> pipe_slot x k"
proof
  assume "j < k" "k < j + 512" "pipe_slot x j = pipe_slot x k"
  then have "512 dvd (unat (pi_nread x) + k) - (unat (pi_nread x) + j)"
    by (metis add_le_cancel_left less_imp_le mod_eq_dvd_iff_nat pipe_slot_nat)
  then show False using \<open>j < k\<close> \<open>k < j + 512\<close> by (auto dest: dvd_imp_le)
qed

lemma pipe_full: "pipe_wf x \<Longrightarrow> pi_nwrite x = pi_nread x + PIPESIZE \<longleftrightarrow> pipe_len x = 512"
proof -
  have "pipe_len x = 512 \<longleftrightarrow> pi_nwrite x - pi_nread x = 512"
    using word_unat_eq_iff [of "pi_nwrite x - pi_nread x" 512] by (simp add: pipe_len_def)
  then show ?thesis by (auto simp: PIPESIZE_def algebra_simps)
qed

lemma pipe_empty: "pi_nread x = pi_nwrite x \<longleftrightarrow> pipe_len x = 0"
  by (auto simp: pipe_len_def unat_eq_0)

lemma nwrite_slot: "unat (pi_nwrite x mod PIPESIZE) = pipe_slot x (pipe_len x)"
  by (simp add: pipe_slot_def pipe_len_def)

lemma pipe_put_ok:
  assumes "pipe_wf x" and "pipe_len x < 512"
  shows "pipe_wf (pipe_put b x)" and "pipe_queue (pipe_put b x) = pipe_queue x @ [b]"
proof -
  have "unat ((pi_nwrite x - pi_nread x) + 1) = pipe_len x + 1"
    using assms(2) unfolding pipe_len_def unat_word_ariths(1) by simp
  then have l: "pipe_len (pipe_put b x) = pipe_len x + 1"
    by (simp add: pipe_len_def pipe_put_def algebra_simps)
  have s: "pipe_slot (pipe_put b x) k = pipe_slot x k" for k by (simp add: pipe_slot_def pipe_put_def)
  have d: "pi_data (pipe_put b x) = (pi_data x)[pipe_slot x (pipe_len x) := b]"
    by (simp add: pipe_put_def nwrite_slot)
  show "pipe_wf (pipe_put b x)" using assms l d by (simp add: pipe_wf_def)
  have "pi_data (pipe_put b x) ! pipe_slot x k = pi_data x ! pipe_slot x k" if "k < pipe_len x" for k
    using pipe_slot_inj [of k "pipe_len x" x] that assms(2) d by simp
  moreover have "pi_data (pipe_put b x) ! pipe_slot x (pipe_len x) = b"
    using d assms(1) pipe_slot_bound [of x "pipe_len x"] by (simp add: pipe_wf_def)
  ultimately show "pipe_queue (pipe_put b x) = pipe_queue x @ [b]" by (simp add: pipe_queue_def l s)
qed

lemma pipe_get_ok:
  assumes "pipe_wf x" and "pipe_len x \<noteq> 0"
  shows "pipe_wf (pipe_get x)" and "pipe_queue x = pi_data x ! unat (pi_nread x mod PIPESIZE) # pipe_queue (pipe_get x)"
proof -
  obtain n where n: "pipe_len x = Suc n" using assms(2) not0_implies_Suc by blast
  have "pi_nwrite x - pi_nread x \<noteq> 0" using n by (auto simp: pipe_len_def)
  then have "unat (pi_nwrite x - pi_nread x - 1) = n"
    using n unat_minus_one [of "pi_nwrite x - pi_nread x"] by (simp add: pipe_len_def)
  then have l: "pipe_len (pipe_get x) = n" by (simp add: pipe_len_def pipe_get_def algebra_simps)
  have s: "pipe_slot (pipe_get x) k = pipe_slot x (Suc k)" for k by (simp add: pipe_slot_def pipe_get_def algebra_simps)
  show "pipe_wf (pipe_get x)" using assms(1) n l by (simp add: pipe_wf_def pipe_get_def)
  have "pipe_queue x = map (\<lambda>k. pi_data x ! pipe_slot x k) (0 # map Suc [0..<n])"
    by (simp only: pipe_queue_def n upt_conv_Cons [of 0 "Suc n"] map_Suc_upt zero_less_Suc)
  then show "pipe_queue x = pi_data x ! unat (pi_nread x mod PIPESIZE) # pipe_queue (pipe_get x)"
    by (simp add: pipe_queue_def l s) (simp add: pipe_slot_def pipe_get_def)
qed

lemma length_pipe_queue: "length (pipe_queue x) = pipe_len x"
  by (simp add: pipe_queue_def)

lemma pipe_puts_ok:
  "pipe_wf x \<Longrightarrow> pipe_len x + length bs \<le> 512 \<Longrightarrow>
     pipe_wf (fold pipe_put bs x) \<and> pipe_queue (fold pipe_put bs x) = pipe_queue x @ bs"
proof (induction bs arbitrary: x)
  case (Cons b bs)
  have l: "pipe_len x < 512" using Cons.prems by simp
  note p = pipe_put_ok [OF Cons.prems(1) l, of b]
  have "pipe_len (pipe_put b x) = pipe_len x + 1" using arg_cong [OF p(2), of length] by (simp add: pipe_queue_def)
  then show ?case using Cons.IH [OF p(1)] Cons.prems p(2) by simp
qed simp

lemma pipe_gets_ok:
  "pipe_wf x \<Longrightarrow> m \<le> pipe_len x \<Longrightarrow> pipe_wf ((pipe_get ^^ m) x) \<and> pipe_queue ((pipe_get ^^ m) x) = drop m (pipe_queue x)"
proof (induction m arbitrary: x)
  case (Suc m)
  then have g: "pipe_wf (pipe_get x)" "pipe_queue x = pi_data x ! unat (pi_nread x mod PIPESIZE) # pipe_queue (pipe_get x)"
    using pipe_get_ok [of x] by auto
  have "pipe_len x = Suc (pipe_len (pipe_get x))" using arg_cong [OF g(2), of length] by (simp only: length_pipe_queue list.size(4) plus_1_eq_Suc Suc_eq_plus1)
  then have "m \<le> pipe_len (pipe_get x)" using Suc.prems(2) by simp
  then show ?case using Suc.IH [OF g(1)] g(2) by (simp add: funpow_Suc_right del: funpow.simps)
qed simp

section \<open>Reading and writing pipes\<close>

lemma thr_pipe [simp]: "thr lo p q (upd_pipe a g s) = thr lo p q s" "thr lo p q (s\<lparr>pipes := x\<rparr>) = thr lo p q s"
  "thr lo p q (s\<lparr>mem := m\<rparr>) = thr lo p q s"
  by (rule thr_cong; simp add: same_core_def upd_pipe_def)+

lemma pipe_frame [simp]: "pipes (acq l s) = pipes s" "pipes (rel l s) = pipes s" "pipes (woken ch s) = pipes s"
  by (simp_all add: woken_def acq_def push_def rel_def pop_def Let_def)

lemma pipewrite_loop_ok:
  assumes "pipe_wf (pipes s a)" and "pipe_len (pipes s a) + length bs \<le> 512"
    and "\<And>k. k < length bs \<Longrightarrow> ld8 (src + word_of_int (i + int k)) s = Ok (bs ! k)" and "n = i + int (length bs)"
  shows "pipewrite_loop sw a src i n s = Some (Ok (Inr (s\<lparr>pipes := (pipes s)(a := fold pipe_put bs (pipes s a))\<rparr>)))"
  using assms
proof (induction bs arbitrary: i s)
  case Nil
  then show ?case by (simp add: pipewrite_loop.simps)
next
  case (Cons b bs)
  let ?x = "pipes s a"
  have l: "pipe_len ?x < 512" using Cons.prems(2) by simp
  note p = pipe_put_ok [OF Cons.prems(1) l, of b]
  let ?t = "upd_pipe a (pipe_put b) s"
  have len: "pipe_len (pipe_put b ?x) = pipe_len ?x + 1" using arg_cong [OF p(2), of length] by (simp add: pipe_queue_def)
  have ld: "ld8 (src + word_of_int (i + 1 + int k)) ?t = Ok (bs ! k)" if "k < length bs" for k
    using Cons.prems(3) [of "Suc k"] that translate_cong [of ?t s] by (simp add: ld8_def upd_pipe_def algebra_simps)
  have "pipewrite_loop sw a src (i + 1) n ?t = Some (Ok (Inr (?t\<lparr>pipes := (pipes ?t)(a := fold pipe_put bs (pipes ?t a))\<rparr>)))"
    by (rule Cons.IH) (use Cons.prems p len ld in \<open>simp_all add: upd_pipe_def\<close>)
  moreover have "pi_nwrite ?x \<noteq> pi_nread ?x + PIPESIZE" using pipe_full [OF Cons.prems(1)] l by simp
  moreover have "ld8 (src + word_of_int i) s = Ok b" using Cons.prems(3) [of 0] by simp
  ultimately show ?case
    using Cons.prems(4) by (subst pipewrite_loop.simps) (simp add: pipe_put_def upd_pipe_def)
qed

lemma pipewrite_ok:
  fixes s :: "'z file_st_scheme"
  assumes "thr None p q s" and "pipe_wf (pipes s a)" and "pipe_len (pipes s a) + length bs \<le> 512"
    and "ld_bytes src (length bs) s = Ok bs"
  shows "\<exists>t. pipewrite sw a src (int (length bs)) s = Ok (int (length bs), t) \<and> thr None p q t \<and> pipe_wf (pipes t a) \<and>
     pipe_queue (pipes t a) = pipe_queue (pipes s a) @ bs \<and> pi_writeopen (pipes t a) = pi_writeopen (pipes s a) \<and>
     mem t = mem s \<and> cr3 t = cr3 s \<and> me t = me s"
proof -
  note a = thr_acquire [OF assms(1), of "PipeLock a"]
  let ?a = "acq (PipeLock a) s"
  let ?b = "?a\<lparr>pipes := (pipes ?a)(a := fold pipe_put bs (pipes ?a a))\<rparr>"
  have "ld_bytes src (length bs) ?a = Ok bs" using ld_bytes_cong [of ?a s] assms(4) by simp
  then have ld: "ld8 (src + word_of_int (0 + int k)) ?a = Ok (bs ! k)" if "k < length bs" for k
    using ld_bytes_nth [of src "length bs" ?a bs] that by simp
  have run: "pipewrite_loop sw a src 0 (int (length bs)) ?a = Some (Ok (Inr ?b))"
    by (rule pipewrite_loop_ok) (use assms ld in simp_all)
  have b: "thr (Some (PipeLock a)) p q ?b" using a(2) by simp
  note w = thr_wakeup [OF b, of "ChPipeRead a"]
  note r = thr_release [OF w(2)]
  let ?t = "rel (PipeLock a) (woken (ChPipeRead a) ?b)"
  have "pipewrite sw a src (int (length bs)) s = Ok (int (length bs), ?t)"
    using a(1) run w(1) r(1) by (simp add: pipewrite_def)
  moreover have "pi_writeopen (fold pipe_put bs x) = pi_writeopen x" for x
    by (induction bs arbitrary: x) (simp_all add: pipe_put_def)
  ultimately show ?thesis
    using r(2) pipe_puts_ok [OF assms(2,3)] by (intro exI [of _ ?t]) simp
qed

lemma piperead_copy_ok:
  assumes "pipe_wf (pipes s a)" and "m = min k (pipe_len (pipes s a))"
    and "st_bytes (dst + word_of_int i) (take m (pipe_queue (pipes s a))) s = Ok s'"
  shows "piperead_copy k a dst i s = Ok (i + int m, s'\<lparr>pipes := (pipes s)(a := (pipe_get ^^ m) (pipes s a))\<rparr>)"
  using assms
proof (induction k arbitrary: i s m s')
  case 0
  then show ?case by simp
next
  case (Suc k)
  let ?x = "pipes s a"
  show ?case
  proof (cases "pipe_len ?x = 0")
    case True
    then show ?thesis using Suc.prems pipe_empty [of ?x] by (simp add: Let_def)
  next
    case False
    then have "m \<noteq> 0" using Suc.prems(2) by simp
    then obtain j where m: "m = Suc j" using not0_implies_Suc by blast
    note g = pipe_get_ok [OF Suc.prems(1) False]
    have len: "pipe_len ?x = Suc (pipe_len (pipe_get ?x))" using arg_cong [OF g(2), of length] by (simp add: pipe_queue_def)
    let ?b = "pi_data ?x ! unat (pi_nread ?x mod PIPESIZE)"
    obtain s1 where s1: "st8 (dst + word_of_int i) ?b s = Ok s1"
      and rest: "st_bytes (dst + word_of_int i + 1) (take j (pipe_queue (pipe_get ?x))) s1 = Ok s'"
      using Suc.prems(3) m g(2) by (auto simp: kres_iff)
    have e1: "s1 = s\<lparr>mem := mem s1\<rparr>" using st8_mem [OF s1] .
    let ?u = "upd_pipe a pipe_get s1"
    have pu: "pipes ?u a = pipe_get ?x" "pipes s1 = pipes s" by (subst e1, simp add: upd_pipe_def)+
    have st: "st_bytes (dst + word_of_int (i + 1)) (take j (pipe_queue (pipes ?u a))) ?u = Ok (?u\<lparr>mem := mem s'\<rparr>)"
      using st_bytes_cong [OF rest, of ?u] pu(1) by (simp add: upd_pipe_def algebra_simps)
    have wu: "pipe_wf (pipes ?u a)" using g(1) pu(1) by simp
    have mj: "j = min k (pipe_len (pipes ?u a))" using Suc.prems(2) m len pu(1) by simp
    have nu: "upd_pipe a (\<lambda>x. x\<lparr>pi_nread := pi_nread x + 1\<rparr>) s1 = ?u" by (simp add: pipe_get_def [abs_def])
    have e': "s' = s1\<lparr>mem := mem s'\<rparr>" using st_bytes_cong [OF rest, of s1] rest by simp
    have "?u\<lparr>mem := mem s', pipes := (pipes ?u)(a := (pipe_get ^^ j) (pipe_get ?x))\<rparr> =
        s1\<lparr>mem := mem s', pipes := (pipes s)(a := (pipe_get ^^ m) ?x)\<rparr>"
      using pu(2) m by (simp add: upd_pipe_def funpow_Suc_right del: funpow.simps)
    also have "\<dots> = s'\<lparr>pipes := (pipes s)(a := (pipe_get ^^ m) ?x)\<rparr>" by (subst (2) e') simp
    finally have fin: "?u\<lparr>mem := mem s', pipes := (pipes ?u)(a := (pipe_get ^^ j) (pipe_get ?x))\<rparr> =
        s'\<lparr>pipes := (pipes s)(a := (pipe_get ^^ m) ?x)\<rparr>" .
    have "pi_nread ?x \<noteq> pi_nwrite ?x" using False pipe_empty [of ?x] by simp
    then have "piperead_copy (Suc k) a dst i s = piperead_copy k a dst (i + 1) ?u" using s1 nu by (simp add: Let_def)
    then show ?thesis using Suc.IH [OF wu mj st, unfolded pu(1) fin] m by (simp only: of_nat_Suc ac_simps)
  qed
qed

lemma piperead_ok:
  fixes s :: "'z file_st_scheme"
  assumes "thr None p q s" and "pipe_wf (pipes s a)" and "pipe_queue (pipes s a) \<noteq> [] \<or> \<not> pi_writeopen (pipes s a)"
    and "m = min (nat n) (length (pipe_queue (pipes s a)))" and "st_bytes dst (take m (pipe_queue (pipes s a))) s = Ok s'"
  shows "\<exists>t. piperead sw a dst n s = Ok (int m, t) \<and> thr None p q t \<and> pipe_wf (pipes t a) \<and>
     pipe_queue (pipes t a) = drop m (pipe_queue (pipes s a)) \<and> mem t = mem s'"
proof -
  note a = thr_acquire [OF assms(1), of "PipeLock a"]
  let ?a = "acq (PipeLock a) s"
  have w0: "krun (piperead_wait sw a ?a) = Ok (Inr ?a)"
    using assms(3) pipe_empty [of "pipes s a"] by (subst piperead_wait.simps) (auto simp: pipe_queue_def)
  let ?b = "(?a\<lparr>mem := mem s'\<rparr>)\<lparr>pipes := (pipes ?a)(a := (pipe_get ^^ m) (pipes ?a a))\<rparr>"
  have st: "st_bytes (dst + word_of_int 0) (take m (pipe_queue (pipes ?a a))) ?a = Ok (?a\<lparr>mem := mem s'\<rparr>)"
    using st_bytes_cong [OF assms(5), of ?a] by simp
  have mm: "m = min (nat n) (pipe_len (pipes ?a a))" using assms(4) by (simp add: length_pipe_queue)
  have "pipe_wf (pipes ?a a)" using assms(2) by simp
  note c = piperead_copy_ok [OF this mm st]
  have b: "thr (Some (PipeLock a)) p q ?b" using a(2) by simp
  note w = thr_wakeup [OF b, of "ChPipeWrite a"]
  note r = thr_release [OF w(2)]
  have "piperead sw a dst n s = Ok (int m, rel (PipeLock a) (woken (ChPipeWrite a) ?b))"
    using a(1) w0 c w(1) r(1) by (simp add: piperead_def)
  moreover have "m \<le> pipe_len (pipes s a)" using assms(4) by (simp add: length_pipe_queue)
  then have "pipe_wf ((pipe_get ^^ m) (pipes s a)) \<and> pipe_queue ((pipe_get ^^ m) (pipes s a)) = drop m (pipe_queue (pipes s a))"
    using pipe_gets_ok [OF assms(2)] by simp
  ultimately show ?thesis
    using r(2) by (intro exI [of _ "rel (PipeLock a) (woken (ChPipeWrite a) ?b)"]) simp
qed

text \<open>A full pipe nobody reads any more, and an empty one that is still open for writing.\<close>

lemma pipewrite_full:
  fixes s :: "'z file_st_scheme"
  assumes "thr None p q s" and "pipe_wf (pipes s a)" and "pipe_len (pipes s a) = 512" and "0 < n"
    and "\<not> pi_readopen (pipes s a)"
  shows "\<exists>t. pipewrite sw a src n s = Ok (-1, t) \<and> pipes t = pipes s"
proof -
  note a = thr_acquire [OF assms(1), of "PipeLock a"]
  note r = thr_release [OF a(2)]
  have "krun (pipewrite_loop sw a src 0 n (acq (PipeLock a) s)) = Ok (Inl (rel (PipeLock a) (acq (PipeLock a) s)))"
    using assms(3-5) pipe_full [OF assms(2)] thr_myproc [OF a(2)] r(1)
    by (subst pipewrite_loop.simps) simp
  then show ?thesis using a(1) by (simp add: pipewrite_def)
qed

section \<open>The open-file table\<close>

text \<open>Every entry has a reference count that is not negative, and an entry without references is of no type.\<close>

definition ftable_ok :: "'z file_st_scheme \<Rightarrow> bool" where
  "ftable_ok s \<longleftrightarrow> length (ftable s) = NFILE \<and> (\<forall>x\<in>set (ftable s). 0 \<le> f_ref x \<and> (f_ref x = 0 \<longrightarrow> f_type x = FD_NONE))"

lemma ftable_frame [simp]: "ftable (acq l s) = ftable s" "ftable (rel l s) = ftable s"
  by (simp_all add: acq_def push_def rel_def pop_def Let_def)

lemma upd_file_fields [simp]: "ftable (upd_file f g s) = (ftable s)[f := g (ftable s ! f)]"
  "thr lo p q (upd_file f g s) = thr lo p q s"
proof -
  show "thr lo p q (upd_file f g s) = thr lo p q s" by (rule thr_cong) (simp_all add: same_core_def upd_file_def)
qed (simp add: upd_file_def)

lemma ftable_ok_upd:
  assumes "ftable_ok s" and "ftable t = (ftable s)[f := x]" and "0 \<le> f_ref x" and "f_ref x = 0 \<longrightarrow> f_type x = FD_NONE"
  shows "ftable_ok t"
  using assms set_update_subset_insert [of "ftable s" f x] by (fastforce simp: ftable_ok_def)

lemma filealloc_ok:
  fixes s :: "'z file_st_scheme"
  assumes "thr None p q s"
  shows "\<exists>t. thr None p q t \<and>
     (case find (\<lambda>f. f_ref (ftable s ! f) = 0) [0..<NFILE] of
        None \<Rightarrow> filealloc s = Ok (None, t) \<and> ftable t = ftable s
      | Some f \<Rightarrow> filealloc s = Ok (Some f, t) \<and> ftable t = (ftable s)[f := (ftable s ! f)\<lparr>f_ref := 1\<rparr>])"
proof -
  note a = thr_acquire [OF assms, of FtableLock]
  show ?thesis
  proof (cases "find (\<lambda>f. f_ref (ftable s ! f) = 0) [0..<NFILE]")
    case None
    then show ?thesis
      using a(1) thr_release [OF a(2)] by (intro exI [of _ "rel FtableLock (acq FtableLock s)"]) (simp add: filealloc_def)
  next
    case (Some f)
    let ?u = "upd_file f (\<lambda>x. x\<lparr>f_ref := 1\<rparr>) (acq FtableLock s)"
    have u: "thr (Some FtableLock) p q ?u" using a(2) by simp
    show ?thesis
      using Some a(1) thr_release [OF u] by (intro exI [of _ "rel FtableLock ?u"]) (simp add: filealloc_def)
  qed
qed

lemma filedup_ok:
  fixes s :: "'z file_st_scheme"
  assumes "thr None p q s" and "1 \<le> f_ref (ftable s ! f)"
  shows "\<exists>t. filedup f s = Ok (f, t) \<and> thr None p q t \<and> ftable t = (ftable s)[f := (ftable s ! f)\<lparr>f_ref := f_ref (ftable s ! f) + 1\<rparr>]"
proof -
  note a = thr_acquire [OF assms(1), of FtableLock]
  let ?u = "upd_file f (\<lambda>x. x\<lparr>f_ref := f_ref x + 1\<rparr>) (acq FtableLock s)"
  have u: "thr (Some FtableLock) p q ?u" using a(2) by simp
  show ?thesis
    using a(1) assms(2) thr_release [OF u] by (intro exI [of _ "rel FtableLock ?u"]) (simp add: filedup_def)
qed

lemma fileclose_shared:
  fixes s :: "'z file_st_scheme"
  assumes "thr None p q s" and "f < length (ftable s)" and "1 < f_ref (ftable s ! f)"
  shows "\<exists>t. fileclose f s = Ok t \<and> thr None p q t \<and> ftable t = (ftable s)[f := (ftable s ! f)\<lparr>f_ref := f_ref (ftable s ! f) - 1\<rparr>]"
proof -
  note a = thr_acquire [OF assms(1), of FtableLock]
  let ?u = "upd_file f (\<lambda>x. x\<lparr>f_ref := f_ref x - 1\<rparr>) (acq FtableLock s)"
  have u: "thr (Some FtableLock) p q ?u" using a(2) by simp
  show ?thesis
    using a(1) assms(2,3) thr_release [OF u] by (intro exI [of _ "rel FtableLock ?u"]) (simp add: fileclose_def Let_def)
qed

lemma fileclose_last:
  fixes s :: "'z file_st_scheme"
  assumes "thr None p q s" and "f < length (ftable s)" and "f_ref (ftable s ! f) = 1" and "f_type (ftable s ! f) = FD_NONE"
  shows "\<exists>t. fileclose f s = Ok t \<and> thr None p q t \<and> ftable t = (ftable s)[f := (ftable s ! f)\<lparr>f_ref := 0\<rparr>]"
proof -
  note a = thr_acquire [OF assms(1), of FtableLock]
  let ?u = "upd_file f (\<lambda>x. x\<lparr>f_ref := 0, f_type := FD_NONE\<rparr>) (upd_file f (\<lambda>x. x\<lparr>f_ref := f_ref x - 1\<rparr>) (acq FtableLock s))"
  have u: "thr (Some FtableLock) p q ?u" using a(2) by simp
  have "ftable ?u = (ftable s)[f := (ftable s ! f)\<lparr>f_ref := 0\<rparr>]" using assms(2,4) by (cases "ftable s ! f") simp
  then show ?thesis
    using a(1) assms(2-4) thr_release [OF u] by (intro exI [of _ "rel FtableLock ?u"]) (simp add: fileclose_def Let_def)
qed

section \<open>Sample state\<close>

text \<open>An open pipe at \<open>0x80300000\<close> with one byte in it, whose counters are about to wrap around.\<close>

definition pipe_ex :: pipe where
  "pipe_ex = \<lparr>pi_data = replicate 512 9, pi_nread = 0xFFFFFFFE, pi_nwrite = 0xFFFFFFFF, pi_readopen = True, pi_writeopen = True\<rparr>"

definition inode_ex :: inode where
  "inode_ex = \<lparr>i_dev = 0, i_inum = 0, i_ref = 0, i_valid = False, i_type = 0, i_major = 0, i_minor = 0, i_nlink = 0,
     i_size = 0, i_addrs = replicate 13 0\<rparr>"

definition ofile_ex :: ofile where
  "ofile_ex = \<lparr>f_type = FD_NONE, f_ref = 0, f_readable = False, f_writable = False, f_pipe = 0, f_ip = 0, f_off = 0\<rparr>"

definition file_of :: "log_st \<Rightarrow> file_st" where
  "file_of s = cin_st.extend (fs_st.extend (log_st.extend s
     (fs_st.fields (superblock_of (disk_ex 1)) (\<lambda>_. inode_ex)))
     (cin_st.fields \<lparr>in_buf = replicate 128 0, in_r = 0, in_w = 0, in_e = 0\<rparr> (replicate NDEV (False, False))))
     (file_st.fields (replicate NFILE ofile_ex) (\<lambda>_. pipe_ex))"

definition file_ex :: file_st where "file_ex = file_of log_ex"

lemmas file_defs = log_st.defs bio_defs fs_st.defs cin_st.defs file_st.defs

lemma file_ex_thr: "thr None 3 4 file_ex"
proof -
  have "same_core file_ex log_ex" "procs file_ex = procs log_ex"
    by (simp_all add: same_core_def file_ex_def file_of_def file_defs)
  then show ?thesis
    using log_ex_thr held_only_cong [of file_ex log_ex None] cur_proc_cong [of file_ex log_ex] by (simp add: thr_def)
qed

lemma file_ex_fields [simp]: "pipes file_ex a = pipe_ex" "ftable file_ex = replicate NFILE ofile_ex"
  by (simp_all add: file_ex_def file_of_def file_defs)

lemma pipe_ex_queue: "pipe_wf pipe_ex" "pipe_queue pipe_ex = [9]"
  by (simp_all add: pipe_wf_def pipe_len_def pipe_queue_def pipe_slot_def pipe_ex_def PIPESIZE_def)

lemma kernel_translate: "KERNBASE \<le> va \<Longrightarrow> translate wr va s = Ok va"
  by (simp add: translate_def)

section \<open>Properties\<close>





end
