(* ===== verification/Sysargs.thy ===== *)
theory Sysargs
  imports File
begin

unbundle bit_operations_syntax

text \<open>
  System call arguments: the first half of \<^verbatim>\<open>syscall.c\<close>.

  An argument that is fetched successfully is \<open>Some\<close> of it, the return value -1 is \<open>None\<close>.  \<^verbatim>\<open>fetchstr\<close> sets
  a pointer to a string that cannot change while the kernel uses it; it returns the bytes of the string.
\<close>

definition with_proc ::
  "(nat \<Rightarrow> 'z file_st_scheme \<Rightarrow> ('a \<times> 'z file_st_scheme) kres) \<Rightarrow> 'z file_st_scheme \<Rightarrow> ('a \<times> 'z file_st_scheme) kres" where
  "with_proc f s = kbind (myproc s) (\<lambda>(p, s1). kbind (deref p) (\<lambda>p. f p s1))"

definition fetchint :: "addr \<Rightarrow> 'z file_st_scheme \<Rightarrow> (32 word option \<times> 'z file_st_scheme) kres" where
  "fetchint addr = with_proc (\<lambda>p s.
     let sz = p_sz (procs s ! p) in
     if addr \<ge> sz \<or> addr + 4 > sz then Ok (None, s)
     else kbind (ld_bytes addr 4 s) (\<lambda>bs. Ok (Some (rd32 bs 0), s)))"

primrec fetchstr_loop :: "nat \<Rightarrow> addr \<Rightarrow> 'z file_st_scheme \<Rightarrow> byte list option kres" where
  "fetchstr_loop 0 a s = Ok None"
| "fetchstr_loop (Suc k) a s =
     kbind (ld8 a s) (\<lambda>b.
     if b = 0 then Ok (Some [])
     else kbind (fetchstr_loop k (a + 1) s) (\<lambda>r. Ok (map_option (\<lambda>bs. b # bs) r)))"

definition fetchstr :: "addr \<Rightarrow> 'z file_st_scheme \<Rightarrow> (byte list option \<times> 'z file_st_scheme) kres" where
  "fetchstr addr = with_proc (\<lambda>p s.
     let sz = p_sz (procs s ! p) in
     if addr \<ge> sz then Ok (None, s)
     else kbind (fetchstr_loop (unat (sz - addr)) addr s) (\<lambda>r. Ok (r, s)))"

definition argint :: "nat \<Rightarrow> 'z file_st_scheme \<Rightarrow> (32 word option \<times> 'z file_st_scheme) kres" where
  "argint n = with_proc (\<lambda>p s.
     fetchint (load32 (mem s) (tf_esp (p_tf (procs s ! p))) + 4 + 4 * of_nat n) s)"

definition argptr :: "nat \<Rightarrow> int \<Rightarrow> 'z file_st_scheme \<Rightarrow> (addr option \<times> 'z file_st_scheme) kres" where
  "argptr n size' = with_proc (\<lambda>p s.
     kbind (argint n s) (\<lambda>(i, s1).
     case i of
       None \<Rightarrow> Ok (None, s1)
     | Some i \<Rightarrow>
         if size' < 0 \<or> i \<ge> p_sz (procs s1 ! p) \<or> i + word_of_int size' > p_sz (procs s1 ! p)
         then Ok (None, s1) else Ok (Some i, s1)))"

definition argstr :: "nat \<Rightarrow> 'z file_st_scheme \<Rightarrow> (byte list option \<times> 'z file_st_scheme) kres" where
  "argstr n s =
     kbind (argint n s) (\<lambda>(a, s1).
     case a of None \<Rightarrow> Ok (None, s1) | Some a \<Rightarrow> fetchstr a s1)"

section \<open>The running process\<close>

text \<open>Asking for the running process changes nothing but the state of the processor.\<close>

definition same_more :: "'z kcore_scheme \<Rightarrow> 'z kcore_scheme \<Rightarrow> bool" where
  "same_more s t \<longleftrightarrow> kcore.more s = kcore.more t \<and> me s = me t"

lemma same_more_refl [simp]: "same_more s s"
  by (simp add: same_more_def)

lemma same_more_trans: "same_more s t \<Longrightarrow> same_more t u \<Longrightarrow> same_more s u"
  by (simp add: same_more_def)

lemma same_moreD:
  fixes s t :: "'z file_st_scheme"
  assumes "same_more t s"
  shows "mem t = mem s" and "cr3 t = cr3 s" and "me t = me s" and "procs t = procs s"
  using assms unfolding same_more_def by (cases s; cases t; simp)+

lemma thr_myproc_quiet:
  assumes "thr None p q s"
  shows "\<exists>s1. myproc s = Ok (Some p, s1) \<and> thr None p q s1 \<and> same_more s1 s"
proof -
  have q: "quiet s" and c: "cur_proc s = Some p" using assms by (simp_all add: thr_def)
  then have r: "cpu_ready s" by (simp add: quiet_def)
  note u = push_props [OF r]
  have d: "0 < depth (push s)" using u(3) q by (simp add: quiet_def)
  note o = pop_props [OF u(1) d]
  have "cur_proc (pop (push s)) = cur_proc (push s)"
    using o(2) cpu_ready_bound [OF u(1)] by (simp add: cur_proc_def) (simp add: pop_def Let_def)
  then have "cur_proc (pop (push s)) = Some p" using cur_proc_push [OF r] c by simp
  moreover have "quiet (pop (push s))" using o u q by (simp add: quiet_def)
  moreover have "procs (pop (push s)) = procs s" by (simp add: pop_def push_def Let_def)
  ultimately have "thr None p q (pop (push s))" using assms by (simp add: thr_def)
  moreover have "same_more (pop (push s)) s" using o(4,6) u(4,7) by (simp add: same_more_def)
  ultimately show ?thesis using myproc_ok [OF r] c by simp
qed

lemma with_proc_ok:
  assumes "thr None p q s"
  shows "\<exists>s1. with_proc f s = f p s1 \<and> thr None p q s1 \<and> same_more s1 s"
  using thr_myproc_quiet [OF assms] by (auto simp: with_proc_def)

section \<open>Arguments stay inside the memory of the process\<close>

text \<open>The word at user address \<open>a\<close>.\<close>

definition user_word :: "addr \<Rightarrow> 'z vm_st_scheme \<Rightarrow> 32 word kres" where
  "user_word a s = kbind (ld_bytes a 4 s) (\<lambda>bs. Ok (rd32 bs 0))"

lemma add_le_unat:
  fixes a sz k :: addr
  assumes "a < sz" and "sz \<le> KERNBASE" and "unat k < 2 ^ 31"
  shows "a + k \<le> sz \<longleftrightarrow> unat a + unat k \<le> unat sz"
proof -
  have "unat sz \<le> 2 ^ 31" using assms(2) by (simp add: word_le_nat_alt KERNBASE_def)
  moreover have "unat a < unat sz" using assms(1) by (simp add: word_less_nat_alt)
  ultimately have "unat (a + k) = unat a + unat k" using assms(3) by (simp add: unat_word_ariths(1))
  then show ?thesis by (simp add: word_le_nat_alt)
qed

lemma fetchint_ok:
  fixes s :: "'z file_st_scheme"
  assumes "thr None p q s" and "p_sz (procs s ! p) \<le> KERNBASE"
  shows "\<exists>t. thr None p q t \<and> same_more t s \<and> fetchint a s =
     (if unat a + 4 \<le> unat (p_sz (procs s ! p)) then kbind (user_word a s) (\<lambda>w. Ok (Some w, t)) else Ok (None, t))"
proof -
  let ?sz = "p_sz (procs s ! p)"
  let ?F = "\<lambda>p s. let sz = p_sz (procs s ! p) in if a \<ge> sz \<or> a + 4 > sz then Ok (None, s)
     else kbind (ld_bytes a 4 s) (\<lambda>bs. Ok (Some (rd32 bs 0), s))"
  obtain t where t: "thr None p q t" "same_more t s" and f': "fetchint a s = ?F p t"
    using with_proc_ok [OF assms(1), of ?F] unfolding fetchint_def by blast
  have f: "fetchint a s = (if a \<ge> ?sz \<or> a + 4 > ?sz then Ok (None, t) else kbind (ld_bytes a 4 t) (\<lambda>bs. Ok (Some (rd32 bs 0), t)))"
    using f' same_moreD(4) [OF t(2)] by (simp only: Let_def)
  have "a < ?sz \<and> a + 4 \<le> ?sz \<longleftrightarrow> unat a + 4 \<le> unat ?sz"
    using add_le_unat [of a ?sz 4] assms(2) by (auto simp: word_less_nat_alt)
  then have c: "(a \<ge> ?sz \<or> a + 4 > ?sz) = (\<not> unat a + 4 \<le> unat ?sz)" by (simp add: not_le) (metis linorder_not_less)
  have "ld_bytes a 4 t = ld_bytes a 4 s" using same_moreD [OF t(2)] by (intro ld_bytes_cong)
  then show ?thesis using t f c by (intro exI [of _ t]) (simp add: user_word_def)
qed

text \<open>The address of argument \<open>n\<close> on the user stack.\<close>

definition arg_addr :: "nat \<Rightarrow> nat \<Rightarrow> 'z file_st_scheme \<Rightarrow> addr" where
  "arg_addr p n s = load32 (mem s) (tf_esp (p_tf (procs s ! p))) + 4 + 4 * of_nat n"

lemma argint_ok:
  fixes s :: "'z file_st_scheme"
  assumes "thr None p q s" and "p_sz (procs s ! p) \<le> KERNBASE"
  shows "\<exists>t. thr None p q t \<and> same_more t s \<and> argint n s =
     (if unat (arg_addr p n s) + 4 \<le> unat (p_sz (procs s ! p))
      then kbind (user_word (arg_addr p n s) s) (\<lambda>w. Ok (Some w, t)) else Ok (None, t))"
proof -
  obtain s1 where s1: "argint n s = fetchint (arg_addr p n s1) s1" "thr None p q s1" "same_more s1 s"
    using with_proc_ok [OF assms(1), of "\<lambda>p s. fetchint (arg_addr p n s) s"] unfolding argint_def arg_addr_def by blast
  note e = same_moreD [OF s1(3)]
  have a: "arg_addr p n s1 = arg_addr p n s" using e by (simp add: arg_addr_def)
  have w: "user_word (arg_addr p n s) s1 = user_word (arg_addr p n s) s"
    using ld_bytes_cong [of s1 s] e by (simp add: user_word_def)
  obtain t where "thr None p q t" "same_more t s1" "fetchint (arg_addr p n s) s1 =
     (if unat (arg_addr p n s) + 4 \<le> unat (p_sz (procs s1 ! p))
      then kbind (user_word (arg_addr p n s) s1) (\<lambda>w. Ok (Some w, t)) else Ok (None, t))"
    using fetchint_ok [OF s1(2), of "arg_addr p n s"] assms(2) e(4) by auto
  then show ?thesis using s1(1) a w e(4) same_more_trans [OF _ s1(3)] by (intro exI [of _ t]) simp
qed

lemma fetchstr_loop_bounds:
  "fetchstr_loop k a s = Ok (Some bs) \<Longrightarrow> length bs < k \<and> 0 \<notin> set bs"
  by (induction k arbitrary: a bs) (auto simp: kres_iff split: if_splits)

lemma argptr_ok:
  fixes s :: "'z file_st_scheme"
  assumes "thr None p q s" and "p_sz (procs s ! p) \<le> KERNBASE" and "sz < 2 ^ 31"
    and "unat (arg_addr p n s) + 4 \<le> unat (p_sz (procs s ! p))" and "user_word (arg_addr p n s) s = Ok i"
  shows "\<exists>t. thr None p q t \<and> same_more t s \<and> argptr n sz s =
     Ok (if 0 \<le> sz \<and> unat i < unat (p_sz (procs s ! p)) \<and> unat i + nat sz \<le> unat (p_sz (procs s ! p)) then Some i else None, t)"
proof -
  let ?F = "\<lambda>p s. kbind (argint n s) (\<lambda>(i, s1). case i of None \<Rightarrow> Ok (None, s1)
     | Some i \<Rightarrow> if sz < 0 \<or> i \<ge> p_sz (procs s1 ! p) \<or> i + word_of_int sz > p_sz (procs s1 ! p)
         then Ok (None, s1) else Ok (Some i, s1))"
  obtain s1 where s1: "thr None p q s1" "same_more s1 s" "argptr n sz s = ?F p s1"
    using with_proc_ok [OF assms(1), of ?F] unfolding argptr_def by blast
  note e = same_moreD [OF s1(2)]
  have a: "arg_addr p n s1 = arg_addr p n s" "user_word (arg_addr p n s) s1 = Ok i"
    using e ld_bytes_cong [of s1 s] assms(5) by (simp_all add: arg_addr_def user_word_def)
  obtain t where t: "thr None p q t" "same_more t s1" "argint n s1 = Ok (Some i, t)"
    using argint_ok [OF s1(1), of n] assms(2,4) e(4) a by auto
  have pt: "procs t = procs s" using same_moreD(4) [OF t(2)] e(4) by simp
  let ?z = "p_sz (procs s ! p)"
  have u: "unat (word_of_int sz :: 32 word) = nat sz" if "0 \<le> sz"
  proof -
    have "(word_of_int sz :: 32 word) = of_nat (nat sz)" using that by simp
    moreover have "nat sz < 2 ^ 32" using assms(3) by simp
    ultimately show ?thesis by (simp only: unat_of_nat) (simp add: take_bit_nat_eq_self)
  qed
  have lt: "i < ?z \<longleftrightarrow> unat i < unat ?z" by (rule word_less_nat_alt)
  have "(i + word_of_int sz \<le> ?z) = (unat i + nat sz \<le> unat ?z)" if "0 \<le> sz" "i < ?z"
    using add_le_unat [OF that(2) assms(2), of "word_of_int sz"] u [OF that(1)] assms(3) by simp
  then have "(sz < 0 \<or> i \<ge> ?z \<or> i + word_of_int sz > ?z) = (\<not> (0 \<le> sz \<and> unat i < unat ?z \<and> unat i + nat sz \<le> unat ?z))"
    unfolding lt [symmetric] by (metis linorder_not_le)
  then have "argptr n sz s =
     Ok (if 0 \<le> sz \<and> unat i < unat ?z \<and> unat i + nat sz \<le> unat ?z then Some i else None, t)"
    using s1(3) t(3) pt by simp
  then show ?thesis using t same_more_trans [OF t(2) s1(2)] by blast
qed

lemma argstr_bounds:
  fixes s :: "'z file_st_scheme"
  assumes "thr None p q s" and "p_sz (procs s ! p) \<le> KERNBASE" and "argstr n s = Ok (Some bs, t)"
    and "user_word (arg_addr p n s) s = Ok i"
  shows "unat i + length bs < unat (p_sz (procs s ! p))" and "0 \<notin> set bs"
proof -
  let ?z = "p_sz (procs s ! p)"
  obtain s1 where s1: "thr None p q s1" "same_more s1 s" "argint n s = (if unat (arg_addr p n s) + 4 \<le> unat ?z then Ok (Some i, s1) else Ok (None, s1))"
    using argint_ok [OF assms(1,2), of n] assms(4) by auto
  have f: "fetchstr i s1 = Ok (Some bs, t)" using s1(3) assms(3) by (auto simp: argstr_def split: if_splits)
  let ?F = "\<lambda>p s. let sz = p_sz (procs s ! p) in if i \<ge> sz then Ok (None, s)
     else kbind (fetchstr_loop (unat (sz - i)) i s) (\<lambda>r. Ok (r, s))"
  obtain s2 where s2: "same_more s2 s1" "fetchstr i s1 = ?F p s2"
    using with_proc_ok [OF s1(1), of ?F] unfolding fetchstr_def by blast
  have z: "p_sz (procs s2 ! p) = ?z" using same_moreD(4) [OF s2(1)] same_moreD(4) [OF s1(2)] by simp
  have lt: "i < ?z" and r: "fetchstr_loop (unat (?z - i)) i s2 = Ok (Some bs)"
    using f s2(2) z by (auto simp: Let_def kres_iff split: if_splits)
  have "unat (?z - i) = unat ?z - unat i" using lt by (simp add: unat_sub less_imp_le)
  moreover have "unat i < unat ?z" using lt by (simp add: word_less_nat_alt)
  moreover have "length bs < unat (?z - i)" "0 \<notin> set bs" using fetchstr_loop_bounds [OF r] by simp_all
  ultimately show "unat i + length bs < unat ?z" "0 \<notin> set bs" by (linarith, simp)
qed

section \<open>Sample state\<close>

text \<open>Process 3 with one page of memory, at \<open>0x80402000\<close>, and the stack pointer at 16; argument 0 is the pointer 32.\<close>

definition user_mem_ex :: memory where
  "user_mem_ex = store32 (store32 (store32 (store32 (\<lambda>_. 0) 0x80400000 0x401007) 0x80401000 0x402007) 0x80500044 16) 0x80402014 32"

definition args_ex :: file_st where
  "args_ex = upd_proc 3 (\<lambda>x. x\<lparr>p_sz := 4096, p_tf := 0x80500000\<rparr>) (file_ex\<lparr>mem := user_mem_ex, cr3 := (\<lambda>_. 0x400000)\<rparr>)"

lemma args_ex_thr: "thr None 3 4 args_ex"
proof -
  have "same_core args_ex file_ex" by (simp add: same_core_def args_ex_def upd_proc_def)
  moreover have "length (procs args_ex) = NPROC" "p_pid (procs args_ex ! 3) = p_pid (procs file_ex ! 3)"
    using file_ex_thr by (simp_all add: args_ex_def upd_proc_def thr_def NPROC_def)
  ultimately show ?thesis
    using file_ex_thr held_only_cong [of args_ex file_ex None] cur_proc_cong [of args_ex file_ex] by (simp add: thr_def)
qed

lemma args_ex_fields: "p_sz (procs args_ex ! 3) = 4096" "p_tf (procs args_ex ! 3) = 0x80500000" "mem args_ex = user_mem_ex"
  "cr3 args_ex = (\<lambda>_. 0x400000)"
  using thr_procsD(2,3) [OF file_ex_thr] by (simp_all add: args_ex_def upd_proc_def)

lemma args_ex_addr: "arg_addr 3 0 args_ex = 20"
  by (simp add: arg_addr_def args_ex_fields tf_esp_def user_mem_ex_def)

lemma args_ex_word: "user_word 20 args_ex = Ok 32"
proof -
  have t: "translate False (20 + k) args_ex = Ok (0x80402014 + k)" if "k \<in> {0, 1, 2, 3}" for k
  proof -
    have "load32 user_mem_ex 0x80400000 = 0x401007" "load32 user_mem_ex 0x80401000 = 0x402007"
      by (simp_all add: user_mem_ex_def)
    then show ?thesis
      using that by (auto simp: translate_def args_ex_fields KERNBASE_def P2V_def PDX_def PTX_def PTE_P_def PTE_ADDR_def)
  qed
  have l: "ld8 (20 + k) args_ex = Ok (user_mem_ex (0x80402014 + k))" if "k \<in> {0, 1, 2, 3}" for k
    using t [OF that] by (simp add: ld8_def args_ex_fields)
  have "ld_bytes 20 4 args_ex = Ok (map (\<lambda>k. user_mem_ex (0x80402014 + k)) [0, 1, 2, 3])"
    using l [of 0] l [of 1] l [of 2] l [of 3] by (simp add: eval_nat_numeral)
  moreover have "map (\<lambda>k. user_mem_ex (0x80402014 + k)) [0, 1, 2, 3] = [32, 0, 0, 0]"
    by (simp add: user_mem_ex_def store32_def)
  ultimately show ?thesis by (simp add: user_word_def rd32_def)
qed

section \<open>Properties\<close>

text \<open>
  C35: the kernel only uses user pointers that lie inside the memory of the calling process.  For a process of at
  most 2 GB, \<^verbatim>\<open>argptr\<close> accepts the pointer argument \<open>i\<close> of a block of \<open>sz\<close> bytes exactly when the size is not
  negative and the whole block is below the size of the process: the unsigned sum in its test cannot overflow.
  And a string that \<^verbatim>\<open>argstr\<close> accepts ends, with its terminating zero, inside that memory.
\<close>

theorem syscall_pointers_in_bounds:
  fixes s :: "'z file_st_scheme"
  assumes "thr None p q s" and "p_sz (procs s ! p) \<le> KERNBASE" and "sz < 2 ^ 31"
    and "unat (arg_addr p n s) + 4 \<le> unat (p_sz (procs s ! p))" and "user_word (arg_addr p n s) s = Ok i"
  shows "(\<exists>t. argptr n sz s =
      Ok (if 0 \<le> sz \<and> unat i < unat (p_sz (procs s ! p)) \<and> unat i + nat sz \<le> unat (p_sz (procs s ! p)) then Some i else None, t)) \<and>
    (\<forall>bs t. argstr n s = Ok (Some bs, t) \<longrightarrow> unat i + length bs < unat (p_sz (procs s ! p)) \<and> 0 \<notin> set bs)"
  using argptr_ok [OF assms] argstr_bounds [OF assms(1,2) _ assms(5)] by blast

theorem syscall_pointers_in_bounds_witness:
  "(\<exists>t. argptr 0 4064 args_ex = Ok (Some 32, t)) \<and> (\<exists>t. argptr 0 4065 args_ex = Ok (None, t)) \<and>
     (\<exists>t. argptr 0 2147483647 args_ex = Ok (None, t))"
proof -
  have h: "p_sz (procs args_ex ! 3) \<le> KERNBASE" "unat (arg_addr 3 0 args_ex) + 4 \<le> unat (p_sz (procs args_ex ! 3))"
    "user_word (arg_addr 3 0 args_ex) args_ex = Ok 32"
    by (simp_all add: args_ex_fields args_ex_addr args_ex_word KERNBASE_def)
  have "(2147483647 :: int) < 2 ^ 31" "(4064 :: int) < 2 ^ 31" "(4065 :: int) < 2 ^ 31" by simp_all
  from this [THEN syscall_pointers_in_bounds [OF args_ex_thr h(1) _ h(2,3)]] show ?thesis
    by (simp add: args_ex_fields)
qed

end
