(* ===== verification/Exec.thy ===== *)
theory Exec
  imports Sysargs
begin

unbundle bit_operations_syntax

text \<open>
  Loading a program: \<^verbatim>\<open>exec.c\<close>, \<^verbatim>\<open>loaduvm\<close> of \<^verbatim>\<open>vm.c\<close> and the formats of \<^verbatim>\<open>elf.h\<close>.

  The path and the argument strings are byte lists.  \<open>copyout_bytes\<close> is \<^verbatim>\<open>copyout\<close> with the bytes to copy
  instead of their address: the arguments lie in the old address space and \<^verbatim>\<open>ustack\<close> on the kernel stack.
\<close>

definition ELF_MAGIC :: "32 word" where "ELF_MAGIC = 0x464C457F"
definition ELF_PROG_LOAD :: "32 word" where "ELF_PROG_LOAD = 1"
definition ELFHDR_SIZE :: nat where "ELFHDR_SIZE = 52"
definition PROGHDR_SIZE :: nat where "PROGHDR_SIZE = 32"

record elfhdr =
  elf_magic :: "32 word"
  elf_entry :: "32 word"
  elf_phoff :: "32 word"
  elf_phnum :: "16 word"

record proghdr =
  ph_type :: "32 word"
  ph_off :: "32 word"
  ph_vaddr :: "32 word"
  ph_filesz :: "32 word"
  ph_memsz :: "32 word"

definition elfhdr_of :: "byte list \<Rightarrow> elfhdr" where
  "elfhdr_of d = \<lparr>elf_magic = rd32 d 0, elf_entry = rd32 d 24, elf_phoff = rd32 d 28, elf_phnum = rd16 d 44\<rparr>"

definition proghdr_of :: "byte list \<Rightarrow> proghdr" where
  "proghdr_of d = \<lparr>ph_type = rd32 d 0, ph_off = rd32 d 4, ph_vaddr = rd32 d 8, ph_filesz = rd32 d 16,
     ph_memsz = rd32 d 20\<rparr>"

fun put_bytes :: "memory \<Rightarrow> addr \<Rightarrow> byte list \<Rightarrow> memory" where
  "put_bytes m a [] = m"
| "put_bytes m a (b # bs) = put_bytes (m(a := b)) (a + 1) bs"

function copyout_bytes ::
  "addr \<Rightarrow> addr \<Rightarrow> byte list \<Rightarrow> 'z kmem_st_scheme \<Rightarrow> (int \<times> 'z kmem_st_scheme) kres" where
  "copyout_bytes pgdir va bs s =
     (if bs \<noteq> [] then
        let va0 = PGROUNDDOWN va in
        kbind (uva2ka pgdir va0 s) (\<lambda>pa0.
        if pa0 = 0 then Ok (-1, s)
        else let n = min (PGSIZE - unat (va - va0)) (length bs);
                 s1 = s\<lparr>mem := put_bytes (mem s) (pa0 + (va - va0)) (take n bs)\<rparr>
             in copyout_bytes pgdir (va0 + pg) (drop n bs) s1)
      else Ok (0, s))"
  by pat_completeness auto
termination
proof (relation "measure (\<lambda>(pgdir, va, bs, s). length bs)")
  fix pgdir va va0 pa0 :: addr and bs :: "byte list" and s s1 :: "'z kmem_st_scheme" and n :: nat
  assume "bs \<noteq> []" and v: "va0 = PGROUNDDOWN va" and n: "n = min (PGSIZE - unat (va - va0)) (length bs)"
  have "unat va mod PGSIZE < PGSIZE" by (simp add: PGSIZE_def)
  then have "unat (va - va0) < PGSIZE" using unat_page_offset [of va] v by simp
  then have "0 < n" using \<open>bs \<noteq> []\<close> n by simp
  then show "((pgdir, va0 + pg, drop n bs, s1), pgdir, va, bs, s) \<in> measure (\<lambda>(pgdir, va, bs, s). length bs)"
    using \<open>bs \<noteq> []\<close> by simp
qed simp

declare copyout_bytes.simps [simp del]

partial_function (option) loaduvm_loop ::
  "addr \<Rightarrow> addr \<Rightarrow> nat \<Rightarrow> 32 word \<Rightarrow> 32 word \<Rightarrow> 32 word \<Rightarrow> 'z cin_st_scheme \<Rightarrow> (int \<times> 'z cin_st_scheme) kres option"
where
  "loaduvm_loop pgdir addr ip offset sz i s =
     (if i < sz then
        kobind (walkpgdir pgdir (addr + i) False s) (\<lambda>(pte, s1).
        if pte = 0 then Some (Panic ''loaduvm: address should exist'')
        else
          let pa = PTE_ADDR (load32 (mem s1) pte); n = (if sz - i < pg then sz - i else pg) in
          kobind (readi ip (offset + i) n s1) (\<lambda>(r, bs, s2).
          let s3 = s2\<lparr>mem := put_bytes (mem s2) (P2V pa) bs\<rparr> in
          if r \<noteq> uint n then Some (Ok (-1, s3))
          else loaduvm_loop pgdir addr ip offset sz (i + pg) s3))
      else Some (Ok (0, s)))"

definition loaduvm ::
  "addr \<Rightarrow> addr \<Rightarrow> nat \<Rightarrow> 32 word \<Rightarrow> 32 word \<Rightarrow> 'z cin_st_scheme \<Rightarrow> (int \<times> 'z cin_st_scheme) kres" where
  "loaduvm pgdir addr ip offset sz s =
     kbind (panic_if (addr mod pg \<noteq> 0) ''loaduvm: addr must be page aligned'') (\<lambda>_.
     krun (loaduvm_loop pgdir addr ip offset sz 0 s))"

text \<open>The loop over the program headers: \<open>None\<close> when it jumps to \<^verbatim>\<open>bad\<close>, otherwise the size reached.\<close>

primrec exec_load ::
  "nat \<Rightarrow> nat \<Rightarrow> addr \<Rightarrow> 32 word \<Rightarrow> 32 word \<Rightarrow> 'z cin_st_scheme \<Rightarrow> (32 word option \<times> 'z cin_st_scheme) kres"
where
  "exec_load 0 ip pgdir off sz s = Ok (Some sz, s)"
| "exec_load (Suc k) ip pgdir off sz s =
     kbind (readi ip off (of_nat PROGHDR_SIZE) s) (\<lambda>(r, bs, s1).
     let ph = proghdr_of bs; off' = off + of_nat PROGHDR_SIZE in
     if r \<noteq> int PROGHDR_SIZE then Ok (None, s1)
     else if ph_type ph \<noteq> ELF_PROG_LOAD then exec_load k ip pgdir off' sz s1
     else if ph_memsz ph < ph_filesz ph then Ok (None, s1)
     else if ph_vaddr ph + ph_memsz ph < ph_vaddr ph then Ok (None, s1)
     else
       kbind (allocuvm pgdir sz (ph_vaddr ph + ph_memsz ph) s1) (\<lambda>(sz1, s2).
       if sz1 = 0 then Ok (None, s2)
       else if ph_vaddr ph mod pg \<noteq> 0 then Ok (None, s2)
       else
         kbind (loaduvm pgdir (ph_vaddr ph) ip (ph_off ph) (ph_filesz ph) s2) (\<lambda>(r, s3).
         if r < 0 then Ok (None, s3) else exec_load k ip pgdir off' sz1 s3)))"

text \<open>Pushing the argument strings: the stack pointer and their addresses, in order.\<close>

fun push_args ::
  "addr \<Rightarrow> nat \<Rightarrow> byte list list \<Rightarrow> 32 word \<Rightarrow> 32 word list \<Rightarrow> 'z kmem_st_scheme \<Rightarrow>
     ((32 word \<times> 32 word list) option \<times> 'z kmem_st_scheme) kres"
where
  "push_args pgdir argc [] sp ustack s = Ok (Some (sp, ustack), s)"
| "push_args pgdir argc (a # rest) sp ustack s =
     (if argc \<ge> MAXARG then Ok (None, s)
      else
        let sp1 = (sp - (of_nat (length a) + 1)) AND NOT 3 in
        kbind (copyout_bytes pgdir sp1 (a @ [0]) s) (\<lambda>(r, s1).
        if r < 0 then Ok (None, s1) else push_args pgdir (Suc argc) rest sp1 (ustack @ [sp1]) s1))"

definition word_bytes :: "32 word \<Rightarrow> byte list" where
  "word_bytes w = [ucast w, ucast (drop_bit 8 w), ucast (drop_bit 16 w), ucast (drop_bit 24 w)]"

text \<open>The last element of a path: what follows its last slash.\<close>

definition last_elem :: "byte list \<Rightarrow> byte list" where
  "last_elem path = rev (takeWhile (\<lambda>b. b \<noteq> slash) (rev path))"

text \<open>\<^verbatim>\<open>safestrcpy\<close> into an array: the copied bytes, their NUL, and the rest of the array as it was.\<close>

definition safestrcpy_bytes :: "byte list \<Rightarrow> byte list \<Rightarrow> byte list" where
  "safestrcpy_bytes old t = (let c = take (length old - 1) t @ [0] in c @ drop (length c) old)"

definition exec_bad ::
  "addr \<Rightarrow> nat option \<Rightarrow> 'z file_st_scheme \<Rightarrow> (int \<times> 'z file_st_scheme) kres" where
  "exec_bad pgdir ip s =
     kbind (if pgdir \<noteq> 0 then freevm pgdir s else Ok s) (\<lambda>s1.
     case ip of
       None \<Rightarrow> Ok (-1, s1)
     | Some ip \<Rightarrow> kbind (iunlockput ip s1) (\<lambda>s2. kbind (end_op s2) (\<lambda>s3. Ok (-1, s3))))"

definition exec_stack ::
  "nat \<Rightarrow> byte list \<Rightarrow> byte list list \<Rightarrow> addr \<Rightarrow> 32 word \<Rightarrow> 32 word \<Rightarrow> 'z file_st_scheme \<Rightarrow>
     (int \<times> 'z file_st_scheme) kres" where
  "exec_stack cur path argv entry pgdir sz0 s =
     (let sz1 = PGROUNDUP sz0 in
      kbind (allocuvm pgdir sz1 (sz1 + 2 * pg) s) (\<lambda>(sz, s1).
      if sz = 0 then exec_bad pgdir None s1
      else
        kbind (clearpteu pgdir (sz - 2 * pg) s1) (\<lambda>s2.
        kbind (push_args pgdir 0 argv sz [] s2) (\<lambda>(r, s3).
        case r of
          None \<Rightarrow> exec_bad pgdir None s3
        | Some (sp, args) \<Rightarrow>
            let argc = of_nat (length args) :: 32 word;
                ustack = [0xffffffff, argc, sp - (argc + 1) * 4] @ args @ [0];
                sp1 = sp - (3 + argc + 1) * 4
            in kbind (copyout_bytes pgdir sp1 (concat (map word_bytes ustack)) s3) (\<lambda>(r, s4).
               if r < 0 then exec_bad pgdir None s4
               else
                 let oldpgdir = p_pgdir (procs s4 ! cur);
                     s5 = upd_proc cur (\<lambda>x. x\<lparr>p_name := safestrcpy_bytes (p_name x) (last_elem path),
                            p_pgdir := pgdir, p_sz := sz\<rparr>) s4;
                     tf = p_tf (procs s5 ! cur);
                     s6 = s5\<lparr>mem := store32 (store32 (mem s5) (tf_eip tf) entry) (tf_esp tf) sp1\<rparr>
                 in kbind (switchuvm (Some cur) s6) (\<lambda>s7.
                    kbind (freevm oldpgdir s7) (\<lambda>s8. Ok (0, s8))))))))"

definition exec :: "byte list \<Rightarrow> byte list list \<Rightarrow> 'z file_st_scheme \<Rightarrow> (int \<times> 'z file_st_scheme) kres" where
  "exec path argv = with_proc (\<lambda>cur s.
     kbind (begin_op s) (\<lambda>s1.
     kbind (namei path s1) (\<lambda>(ip, s2).
     case ip of
       None \<Rightarrow>
         kbind (end_op s2) (\<lambda>s3. kbind (cprintf (''exec: fail'' @ nl) [] s3) (\<lambda>s4. Ok (-1, s4)))
     | Some ip \<Rightarrow>
         kbind (ilock ip s2) (\<lambda>s3.
         kbind (readi ip 0 (of_nat ELFHDR_SIZE) s3) (\<lambda>(r, bs, s4).
         let elf = elfhdr_of bs in
         if r \<noteq> int ELFHDR_SIZE \<or> elf_magic elf \<noteq> ELF_MAGIC then exec_bad 0 (Some ip) s4
         else
           kbind (setupkvm s4) (\<lambda>(pgdir, s5).
           if pgdir = 0 then exec_bad 0 (Some ip) s5
           else
             kbind (exec_load (unat (elf_phnum elf)) ip pgdir (elf_phoff elf) 0 s5) (\<lambda>(sz, s6).
             case sz of
               None \<Rightarrow> exec_bad pgdir (Some ip) s6
             | Some sz \<Rightarrow>
                 kbind (iunlockput ip s6) (\<lambda>s7.
                 kbind (end_op s7) (\<lambda>s8.
                 exec_stack cur path argv (elf_entry elf) pgdir sz s8)))))))))"

end
