(* ===== verification/Sysfile.thy ===== *)
theory Sysfile
  imports Exec
begin

unbundle bit_operations_syntax

text \<open>
  File system calls: \<^verbatim>\<open>sysfile.c\<close>.  A system call returns its result and the state.
\<close>

definition O_RDONLY :: "32 word" where "O_RDONLY = 0x000"
definition O_WRONLY :: "32 word" where "O_WRONLY = 0x001"
definition O_RDWR :: "32 word" where "O_RDWR = 0x002"
definition O_CREATE :: "32 word" where "O_CREATE = 0x200"

section \<open>File descriptors\<close>

definition argfd :: "nat \<Rightarrow> 'z file_st_scheme \<Rightarrow> ((nat \<times> nat) option \<times> 'z file_st_scheme) kres" where
  "argfd n s =
     kbind (argint n s) (\<lambda>(fd, s1).
     case fd of
       None \<Rightarrow> Ok (None, s1)
     | Some fd \<Rightarrow>
         if sint fd < 0 \<or> sint fd \<ge> int NOFILE then Ok (None, s1)
         else with_proc (\<lambda>p s.
           case p_ofile (procs s ! p) ! nat (sint fd) of
             None \<Rightarrow> Ok (None, s)
           | Some f \<Rightarrow> Ok (Some (nat (sint fd), f), s)) s1)"

definition set_ofile :: "nat \<Rightarrow> nat \<Rightarrow> nat option \<Rightarrow> 'z proc_st_scheme \<Rightarrow> 'z proc_st_scheme" where
  "set_ofile p fd f s = upd_proc p (\<lambda>x. x\<lparr>p_ofile := (p_ofile x)[fd := f]\<rparr>) s"

definition fdalloc :: "nat \<Rightarrow> 'z file_st_scheme \<Rightarrow> (int \<times> 'z file_st_scheme) kres" where
  "fdalloc f = with_proc (\<lambda>p s.
     case find (\<lambda>fd. p_ofile (procs s ! p) ! fd = None) [0..<NOFILE] of
       Some fd \<Rightarrow> Ok (int fd, set_ofile p fd (Some f) s)
     | None \<Rightarrow> Ok (-1, s))"

definition sys_dup :: "'z file_st_scheme \<Rightarrow> (int \<times> 'z file_st_scheme) kres" where
  "sys_dup s =
     kbind (argfd 0 s) (\<lambda>(a, s1).
     case a of None \<Rightarrow> Ok (-1, s1)
     | Some (_, f) \<Rightarrow>
         kbind (fdalloc f s1) (\<lambda>(fd, s2).
         if fd < 0 then Ok (-1, s2)
         else kbind (filedup f s2) (\<lambda>(_, s3). Ok (fd, s3))))"

definition sys_read :: "'z file_st_scheme \<Rightarrow> (int \<times> 'z file_st_scheme) kres" where
  "sys_read s =
     kbind (argfd 0 s) (\<lambda>(a, s1).
     case a of None \<Rightarrow> Ok (-1, s1)
     | Some (_, f) \<Rightarrow>
         kbind (argint 2 s1) (\<lambda>(n, s2).
         case n of None \<Rightarrow> Ok (-1, s2)
         | Some n \<Rightarrow>
             kbind (argptr 1 (sint n) s2) (\<lambda>(p, s3).
             case p of None \<Rightarrow> Ok (-1, s3) | Some p \<Rightarrow> fileread f p (sint n) s3)))"

definition sys_write :: "'z file_st_scheme \<Rightarrow> (int \<times> 'z file_st_scheme) kres" where
  "sys_write s =
     kbind (argfd 0 s) (\<lambda>(a, s1).
     case a of None \<Rightarrow> Ok (-1, s1)
     | Some (_, f) \<Rightarrow>
         kbind (argint 2 s1) (\<lambda>(n, s2).
         case n of None \<Rightarrow> Ok (-1, s2)
         | Some n \<Rightarrow>
             kbind (argptr 1 (sint n) s2) (\<lambda>(p, s3).
             case p of None \<Rightarrow> Ok (-1, s3) | Some p \<Rightarrow> filewrite f p (sint n) s3)))"

definition sys_close :: "'z file_st_scheme \<Rightarrow> (int \<times> 'z file_st_scheme) kres" where
  "sys_close s =
     kbind (argfd 0 s) (\<lambda>(a, s1).
     case a of None \<Rightarrow> Ok (-1, s1)
     | Some (fd, f) \<Rightarrow>
         with_proc (\<lambda>p s. kbind (fileclose f (set_ofile p fd None s)) (\<lambda>s2. Ok (0, s2))) s1)"

text \<open>\<^verbatim>\<open>struct stat\<close> as \<^verbatim>\<open>filestat\<close> stores it: 20 bytes, of which the padding after the two shorts is left alone.\<close>

definition STAT_SIZE :: int where "STAT_SIZE = 20"

definition half_bytes :: "16 word \<Rightarrow> byte list" where
  "half_bytes w = [ucast w, ucast (drop_bit 8 w)]"

definition store_stat :: "addr \<Rightarrow> stat \<Rightarrow> 'z vm_st_scheme \<Rightarrow> 'z vm_st_scheme kres" where
  "store_stat a st s =
     kbind (st_bytes (a + 4) (word_bytes (st_dev st)) s) (\<lambda>s1.
     kbind (st_bytes (a + 8) (word_bytes (st_ino st)) s1) (\<lambda>s2.
     kbind (st_bytes a (half_bytes (st_type st)) s2) (\<lambda>s3.
     kbind (st_bytes (a + 12) (half_bytes (st_nlink st)) s3) (\<lambda>s4.
     st_bytes (a + 16) (word_bytes (st_size st)) s4))))"

definition sys_fstat :: "'z file_st_scheme \<Rightarrow> (int \<times> 'z file_st_scheme) kres" where
  "sys_fstat s =
     kbind (argfd 0 s) (\<lambda>(a, s1).
     case a of None \<Rightarrow> Ok (-1, s1)
     | Some (_, f) \<Rightarrow>
         kbind (argptr 1 STAT_SIZE s1) (\<lambda>(p, s2).
         case p of None \<Rightarrow> Ok (-1, s2)
         | Some p \<Rightarrow>
             kbind (filestat f s2) (\<lambda>(r, s3).
             case r of None \<Rightarrow> Ok (-1, s3)
             | Some st \<Rightarrow> kbind (store_stat p st s3) (\<lambda>s4. Ok (0, s4)))))"

section \<open>Links\<close>

definition fail_op :: "'z file_st_scheme \<Rightarrow> (int \<times> 'z file_st_scheme) kres" where
  "fail_op s = kbind (end_op s) (\<lambda>s1. Ok (-1, s1))"

definition link_bad :: "nat \<Rightarrow> 'z file_st_scheme \<Rightarrow> (int \<times> 'z file_st_scheme) kres" where
  "link_bad ip s =
     kbind (ilock ip s) (\<lambda>s1.
     kbind (iupdate ip (upd_inode ip (\<lambda>x. x\<lparr>i_nlink := i_nlink x - 1\<rparr>) s1)) (\<lambda>s2.
     kbind (iunlockput ip s2) fail_op))"

definition link_paths ::
  "byte list \<Rightarrow> byte list \<Rightarrow> 'z file_st_scheme \<Rightarrow> (int \<times> 'z file_st_scheme) kres" where
  "link_paths old new s =
     kbind (begin_op s) (\<lambda>s1.
     kbind (namei old s1) (\<lambda>(ip, s2).
     case ip of None \<Rightarrow> fail_op s2
     | Some ip \<Rightarrow>
         kbind (ilock ip s2) (\<lambda>s3.
         if i_type (icache s3 ip) = T_DIR then kbind (iunlockput ip s3) fail_op
         else
           kbind (iupdate ip (upd_inode ip (\<lambda>x. x\<lparr>i_nlink := i_nlink x + 1\<rparr>) s3)) (\<lambda>s4.
           kbind (iunlock ip s4) (\<lambda>s5.
           kbind (nameiparent new s5) (\<lambda>(r, s6).
           case r of None \<Rightarrow> link_bad ip s6
           | Some (dp, nm) \<Rightarrow>
               kbind (ilock dp s6) (\<lambda>s7.
               kbind (if i_dev (icache s7 dp) \<noteq> i_dev (icache s7 ip) then Ok (-1, s7)
                      else dirlink dp nm (i_inum (icache s7 ip)) s7) (\<lambda>(r, s8).
               if r < 0 then kbind (iunlockput dp s8) (link_bad ip)
               else
                 kbind (iunlockput dp s8) (\<lambda>s9.
                 kbind (iput ip s9) (\<lambda>s10.
                 kbind (end_op s10) (\<lambda>s11. Ok (0, s11))))))))))))"

definition sys_link :: "'z file_st_scheme \<Rightarrow> (int \<times> 'z file_st_scheme) kres" where
  "sys_link s =
     kbind (argstr 0 s) (\<lambda>(old, s1).
     case old of None \<Rightarrow> Ok (-1, s1)
     | Some old \<Rightarrow>
         kbind (argstr 1 s1) (\<lambda>(new, s2).
         case new of None \<Rightarrow> Ok (-1, s2) | Some new \<Rightarrow> link_paths old new s2))"

primrec isdirempty_loop :: "nat \<Rightarrow> nat \<Rightarrow> 32 word \<Rightarrow> 'z cin_st_scheme \<Rightarrow> (bool \<times> 'z cin_st_scheme) kres" where
  "isdirempty_loop 0 dp off s = Ok (True, s)"
| "isdirempty_loop (Suc k) dp off s =
     kbind (readi dp off (of_nat DIRENT_SIZE) s) (\<lambda>(r, bs, s1).
     kbind (panic_if (r \<noteq> int DIRENT_SIZE) ''isdirempty: readi'') (\<lambda>_.
     if de_inum (dirent_of bs) \<noteq> 0 then Ok (False, s1)
     else isdirempty_loop k dp (off + of_nat DIRENT_SIZE) s1))"

definition isdirempty :: "nat \<Rightarrow> 'z cin_st_scheme \<Rightarrow> (bool \<times> 'z cin_st_scheme) kres" where
  "isdirempty dp s =
     isdirempty_loop (entries_left (i_size (icache s dp)) - 2) dp (2 * of_nat DIRENT_SIZE) s"

definition unlink_bad :: "nat \<Rightarrow> 'z file_st_scheme \<Rightarrow> (int \<times> 'z file_st_scheme) kres" where
  "unlink_bad dp s = kbind (iunlockput dp s) fail_op"

definition unlink_entry ::
  "nat \<Rightarrow> nat \<Rightarrow> 32 word \<Rightarrow> 'z file_st_scheme \<Rightarrow> (int \<times> 'z file_st_scheme) kres" where
  "unlink_entry dp ip off s =
     kbind (writei dp (replicate DIRENT_SIZE 0) off (of_nat DIRENT_SIZE) s) (\<lambda>(r, s1).
     kbind (panic_if (r \<noteq> int DIRENT_SIZE) ''unlink: writei'') (\<lambda>_.
     kbind (if i_type (icache s1 ip) = T_DIR
            then iupdate dp (upd_inode dp (\<lambda>x. x\<lparr>i_nlink := i_nlink x - 1\<rparr>) s1) else Ok s1) (\<lambda>s2.
     kbind (iunlockput dp s2) (\<lambda>s3.
     kbind (iupdate ip (upd_inode ip (\<lambda>x. x\<lparr>i_nlink := i_nlink x - 1\<rparr>) s3)) (\<lambda>s4.
     kbind (iunlockput ip s4) (\<lambda>s5.
     kbind (end_op s5) (\<lambda>s6. Ok (0, s6))))))))"

definition dot :: "byte list" where "dot = [46]"
definition dotdot :: "byte list" where "dotdot = [46, 46]"

definition sys_unlink :: "'z file_st_scheme \<Rightarrow> (int \<times> 'z file_st_scheme) kres" where
  "sys_unlink s =
     kbind (argstr 0 s) (\<lambda>(path, s1).
     case path of None \<Rightarrow> Ok (-1, s1)
     | Some path \<Rightarrow>
         kbind (begin_op s1) (\<lambda>s2.
         kbind (nameiparent path s2) (\<lambda>(r, s3).
         case r of None \<Rightarrow> fail_op s3
         | Some (dp, nm) \<Rightarrow>
             kbind (ilock dp s3) (\<lambda>s4.
             if namecmp nm dot = 0 \<or> namecmp nm dotdot = 0 then unlink_bad dp s4
             else
               kbind (dirlookup dp nm s4) (\<lambda>(e, s5).
               case e of None \<Rightarrow> unlink_bad dp s5
               | Some (ip, off) \<Rightarrow>
                   kbind (ilock ip s5) (\<lambda>s6.
                   kbind (panic_if (sint (i_nlink (icache s6 ip)) < 1) ''unlink: nlink < 1'') (\<lambda>_.
                   kbind (if i_type (icache s6 ip) = T_DIR then isdirempty ip s6 else Ok (True, s6)) (\<lambda>(em, s7).
                   if \<not> em then kbind (iunlockput ip s7) (unlink_bad dp)
                   else unlink_entry dp ip off s7))))))))"

section \<open>Creating and opening\<close>

definition create ::
  "byte list \<Rightarrow> 16 word \<Rightarrow> 16 word \<Rightarrow> 16 word \<Rightarrow> 'z cin_st_scheme \<Rightarrow> (nat option \<times> 'z cin_st_scheme) kres" where
  "create path ty major minor s =
     kbind (nameiparent path s) (\<lambda>(r, s1).
     case r of None \<Rightarrow> Ok (None, s1)
     | Some (dp, nm) \<Rightarrow>
         kbind (ilock dp s1) (\<lambda>s2.
         kbind (dirlookup dp nm s2) (\<lambda>(e, s3).
         case e of
           Some (ip, _) \<Rightarrow>
             kbind (iunlockput dp s3) (\<lambda>s4.
             kbind (ilock ip s4) (\<lambda>s5.
             if ty = T_FILE \<and> i_type (icache s5 ip) = T_FILE then Ok (Some ip, s5)
             else kbind (iunlockput ip s5) (\<lambda>s6. Ok (None, s6))))
         | None \<Rightarrow>
             kbind (ialloc (i_dev (icache s3 dp)) ty s3) (\<lambda>(ip, s4).
             kbind (ilock ip s4) (\<lambda>s5.
             kbind (iupdate ip (upd_inode ip (\<lambda>x. x\<lparr>i_major := major, i_minor := minor, i_nlink := 1\<rparr>) s5)) (\<lambda>s6.
             kbind (if ty = T_DIR then
                 kbind (iupdate dp (upd_inode dp (\<lambda>x. x\<lparr>i_nlink := i_nlink x + 1\<rparr>) s6)) (\<lambda>s7.
                 kbind (dirlink ip dot (i_inum (icache s7 ip)) s7) (\<lambda>(r, s8).
                 kbind (panic_if (r < 0) ''create dots'') (\<lambda>_.
                 kbind (dirlink ip dotdot (i_inum (icache s8 dp)) s8) (\<lambda>(r, s9).
                 kbind (panic_if (r < 0) ''create dots'') (\<lambda>_. Ok s9)))))
               else Ok s6) (\<lambda>s10.
             kbind (dirlink dp nm (i_inum (icache s10 ip)) s10) (\<lambda>(r, s11).
             kbind (panic_if (r < 0) ''create: dirlink'') (\<lambda>_.
             kbind (iunlockput dp s11) (\<lambda>s12. Ok (Some ip, s12)))))))))))"

text \<open>The file of an opened inode; \<^verbatim>\<open>ip\<close> is locked.\<close>

definition open_file ::
  "nat \<Rightarrow> 32 word \<Rightarrow> 'z file_st_scheme \<Rightarrow> (int \<times> 'z file_st_scheme) kres" where
  "open_file ip omode s =
     kbind (filealloc s) (\<lambda>(f, s1).
     case f of None \<Rightarrow> kbind (iunlockput ip s1) fail_op
     | Some f \<Rightarrow>
         kbind (fdalloc f s1) (\<lambda>(fd, s2).
         if fd < 0 then kbind (fileclose f s2) (\<lambda>s3. kbind (iunlockput ip s3) fail_op)
         else
           kbind (iunlock ip s2) (\<lambda>s3.
           kbind (end_op s3) (\<lambda>s4.
           Ok (fd, upd_file f (\<lambda>x. x\<lparr>f_type := FD_INODE, f_ip := ip, f_off := 0,
             f_readable := (omode AND O_WRONLY = 0),
             f_writable := (omode AND O_WRONLY \<noteq> 0 \<or> omode AND O_RDWR \<noteq> 0)\<rparr>) s4)))))"

definition open_path ::
  "byte list \<Rightarrow> 32 word \<Rightarrow> 'z file_st_scheme \<Rightarrow> (int \<times> 'z file_st_scheme) kres" where
  "open_path path omode s =
     kbind (begin_op s) (\<lambda>s1.
     if omode AND O_CREATE \<noteq> 0 then
       kbind (create path T_FILE 0 0 s1) (\<lambda>(ip, s2).
       case ip of None \<Rightarrow> fail_op s2 | Some ip \<Rightarrow> open_file ip omode s2)
     else
       kbind (namei path s1) (\<lambda>(ip, s2).
       case ip of None \<Rightarrow> fail_op s2
       | Some ip \<Rightarrow>
           kbind (ilock ip s2) (\<lambda>s3.
           if i_type (icache s3 ip) = T_DIR \<and> omode \<noteq> O_RDONLY then kbind (iunlockput ip s3) fail_op
           else open_file ip omode s3)))"

definition sys_open :: "'z file_st_scheme \<Rightarrow> (int \<times> 'z file_st_scheme) kres" where
  "sys_open s =
     kbind (argstr 0 s) (\<lambda>(path, s1).
     case path of None \<Rightarrow> Ok (-1, s1)
     | Some path \<Rightarrow>
         kbind (argint 1 s1) (\<lambda>(omode, s2).
         case omode of None \<Rightarrow> Ok (-1, s2) | Some omode \<Rightarrow> open_path path omode s2))"

definition made :: "nat option \<times> 'z file_st_scheme \<Rightarrow> (int \<times> 'z file_st_scheme) kres" where
  "made = (\<lambda>(ip, s).
     case ip of None \<Rightarrow> fail_op s
     | Some ip \<Rightarrow> kbind (iunlockput ip s) (\<lambda>s1. kbind (end_op s1) (\<lambda>s2. Ok (0, s2))))"

definition sys_mkdir :: "'z file_st_scheme \<Rightarrow> (int \<times> 'z file_st_scheme) kres" where
  "sys_mkdir s =
     kbind (begin_op s) (\<lambda>s1.
     kbind (argstr 0 s1) (\<lambda>(path, s2).
     case path of None \<Rightarrow> fail_op s2
     | Some path \<Rightarrow> kbind (create path T_DIR 0 0 s2) made))"

definition sys_mknod :: "'z file_st_scheme \<Rightarrow> (int \<times> 'z file_st_scheme) kres" where
  "sys_mknod s =
     kbind (begin_op s) (\<lambda>s1.
     kbind (argstr 0 s1) (\<lambda>(path, s2).
     case path of None \<Rightarrow> fail_op s2
     | Some path \<Rightarrow>
         kbind (argint 1 s2) (\<lambda>(major, s3).
         case major of None \<Rightarrow> fail_op s3
         | Some major \<Rightarrow>
             kbind (argint 2 s3) (\<lambda>(minor, s4).
             case minor of None \<Rightarrow> fail_op s4
             | Some minor \<Rightarrow> kbind (create path T_DEV (ucast major) (ucast minor) s4) made))))"

definition sys_chdir :: "'z file_st_scheme \<Rightarrow> (int \<times> 'z file_st_scheme) kres" where
  "sys_chdir = with_proc (\<lambda>cur s.
     kbind (begin_op s) (\<lambda>s1.
     kbind (argstr 0 s1) (\<lambda>(path, s2).
     case path of None \<Rightarrow> fail_op s2
     | Some path \<Rightarrow>
         kbind (namei path s2) (\<lambda>(ip, s3).
         case ip of None \<Rightarrow> fail_op s3
         | Some ip \<Rightarrow>
             kbind (ilock ip s3) (\<lambda>s4.
             if i_type (icache s4 ip) \<noteq> T_DIR then kbind (iunlockput ip s4) fail_op
             else
               kbind (iunlock ip s4) (\<lambda>s5.
               kbind (deref (p_cwd (procs s5 ! cur))) (\<lambda>cwd.
               kbind (iput cwd s5) (\<lambda>s6.
               kbind (end_op s6) (\<lambda>s7.
               Ok (0, upd_proc cur (\<lambda>x. x\<lparr>p_cwd := Some ip\<rparr>) s7))))))))))"

section \<open>exec and pipe\<close>

primrec fetch_argv ::
  "nat \<Rightarrow> addr \<Rightarrow> 'z file_st_scheme \<Rightarrow> (byte list list option \<times> 'z file_st_scheme) kres"
where
  "fetch_argv 0 a s = Ok (None, s)"
| "fetch_argv (Suc k) a s =
     kbind (fetchint a s) (\<lambda>(u, s1).
     case u of None \<Rightarrow> Ok (None, s1)
     | Some u \<Rightarrow>
         if u = 0 then Ok (Some [], s1)
         else
           kbind (fetchstr u s1) (\<lambda>(str, s2).
           case str of None \<Rightarrow> Ok (None, s2)
           | Some str \<Rightarrow>
               kbind (fetch_argv k (a + 4) s2) (\<lambda>(r, s3). Ok (map_option (\<lambda>rest. str # rest) r, s3))))"

definition sys_exec :: "'z file_st_scheme \<Rightarrow> (int \<times> 'z file_st_scheme) kres" where
  "sys_exec s =
     kbind (argstr 0 s) (\<lambda>(path, s1).
     case path of None \<Rightarrow> Ok (-1, s1)
     | Some path \<Rightarrow>
         kbind (argint 1 s1) (\<lambda>(uargv, s2).
         case uargv of None \<Rightarrow> Ok (-1, s2)
         | Some uargv \<Rightarrow>
             kbind (fetch_argv MAXARG uargv s2) (\<lambda>(argv, s3).
             case argv of None \<Rightarrow> Ok (-1, s3) | Some argv \<Rightarrow> exec path argv s3)))"

definition sys_pipe :: "'z file_st_scheme \<Rightarrow> (int \<times> 'z file_st_scheme) kres" where
  "sys_pipe s =
     kbind (argptr 0 8 s) (\<lambda>(fd, s1).
     case fd of None \<Rightarrow> Ok (-1, s1)
     | Some fd \<Rightarrow>
         kbind (pipealloc s1) (\<lambda>(fs, s2).
         case fs of None \<Rightarrow> Ok (-1, s2)
         | Some (rf, wrf) \<Rightarrow>
             kbind (fdalloc rf s2) (\<lambda>(fd0, s3).
             kbind (if fd0 < 0 then Ok (-1, s3) else fdalloc wrf s3) (\<lambda>(fd1, s4).
             if fd0 < 0 \<or> fd1 < 0 then
               kbind (if fd0 \<ge> 0 then with_proc (\<lambda>p s. Ok ((), set_ofile p (nat fd0) None s)) s4 else Ok ((), s4)) (\<lambda>(_, s5).
               kbind (fileclose rf s5) (\<lambda>s6.
               kbind (fileclose wrf s6) (\<lambda>s7. Ok (-1, s7))))
             else
               kbind (st_bytes fd (word_bytes (word_of_int fd0)) s4) (\<lambda>s5.
               kbind (st_bytes (fd + 4) (word_bytes (word_of_int fd1)) s5) (\<lambda>s6. Ok (0, s6)))))))"

end
