(* ===== verification/Life.thy ===== *)
theory Life
  imports Sysfile
begin

unbundle bit_operations_syntax

text \<open>
  The life of a process: \<^verbatim>\<open>userinit\<close>, \<^verbatim>\<open>fork\<close>, \<^verbatim>\<open>exit\<close> and \<^verbatim>\<open>forkret\<close> of \<^verbatim>\<open>proc.c\<close>, and the system calls of
  \<^verbatim>\<open>sysproc.c\<close>.

  The variable \<^verbatim>\<open>first\<close> of \<^verbatim>\<open>forkret\<close> is a field of the state; the address and the size of the program
  \<^verbatim>\<open>initcode\<close>, which the linker provides, are arguments of \<^verbatim>\<open>userinit\<close>.
\<close>

record life_st = file_st +
  first_forkret :: bool

definition store16 :: "memory \<Rightarrow> addr \<Rightarrow> 16 word \<Rightarrow> memory" where
  "store16 m a v = m(a := ucast v, a + 1 := ucast (drop_bit 8 v))"

definition FL_IF :: "32 word" where "FL_IF = 0x00000200"

definition user_selector :: "nat \<Rightarrow> 16 word" where
  "user_selector seg = push_bit 3 (of_nat seg) OR ucast DPL_USER"

section \<open>Creation\<close>

definition user_frame :: "memory \<Rightarrow> addr \<Rightarrow> memory" where
  "user_frame m tf =
     (let m1 = memset m tf 0 (of_nat TF_SIZE);
          m2 = store16 m1 (tf_cs tf) (user_selector SEG_UCODE);
          m3 = store16 m2 (tf_ds tf) (user_selector SEG_UDATA);
          m4 = store16 m3 (tf_es tf) (user_selector SEG_UDATA);
          m5 = store16 m4 (tf_ss tf) (user_selector SEG_UDATA);
          m6 = store32 m5 (tf_eflags tf) FL_IF;
          m7 = store32 m6 (tf_esp tf) pg
      in store32 m7 (tf_eip tf) 0)"

definition userinit :: "addr \<Rightarrow> 32 word \<Rightarrow> 'z life_st_scheme \<Rightarrow> 'z life_st_scheme kres" where
  "userinit code codesize s =
     kbind (allocproc (init_queues s)) (\<lambda>(p, s1).
     let s2 = s1\<lparr>initproc := p\<rparr> in
     kbind (deref p) (\<lambda>p.
     kbind (setupkvm s2) (\<lambda>(pgdir, s3).
     let s4 = upd_proc p (\<lambda>x. x\<lparr>p_pgdir := pgdir\<rparr>) s3 in
     kbind (panic_if (pgdir = 0) ''userinit: out of memory?'') (\<lambda>_.
     kbind (inituvm pgdir code codesize s4) (\<lambda>s5.
     let s6 = upd_proc p (\<lambda>x. x\<lparr>p_sz := pg\<rparr>) s5;
         s7 = s6\<lparr>mem := user_frame (mem s6) (p_tf (procs s6 ! p))\<rparr>;
         s8 = upd_proc p (\<lambda>x. x\<lparr>p_name := safestrcpy_bytes (p_name x) (map (\<lambda>c. of_nat (of_char c)) ''initcode'')\<rparr>) s7
     in kbind (namei [slash] s8) (\<lambda>(cwd, s9).
        kbind (acquire PtableLock (upd_proc p (\<lambda>x. x\<lparr>p_cwd := cwd\<rparr>) s9)) (\<lambda>s10.
        release PtableLock (upd_proc p (\<lambda>x. x\<lparr>p_state := RUNNABLE\<rparr>) s10))))))))"

definition dup_files :: "nat \<Rightarrow> nat \<Rightarrow> 'z file_st_scheme \<Rightarrow> 'z file_st_scheme kres" where
  "dup_files cur np s =
     foldk (\<lambda>i s.
       case p_ofile (procs s ! cur) ! i of
         None \<Rightarrow> Ok s
       | Some f \<Rightarrow> kbind (filedup f s) (\<lambda>(f, s1). Ok (set_ofile np i (Some f) s1))) [0..<NOFILE] s"

definition fork :: "'z file_st_scheme \<Rightarrow> (int \<times> 'z file_st_scheme) kres" where
  "fork = with_proc (\<lambda>cur s.
     kbind (allocproc s) (\<lambda>(np, s1).
     case np of None \<Rightarrow> Ok (-1, s1)
     | Some np \<Rightarrow>
         kbind (copyuvm (p_pgdir (procs s1 ! cur)) (p_sz (procs s1 ! cur)) s1) (\<lambda>(pgdir, s2).
         let s3 = upd_proc np (\<lambda>x. x\<lparr>p_pgdir := pgdir\<rparr>) s2 in
         if pgdir = 0 then
           kbind (kfree (p_kstack (procs s3 ! np)) s3) (\<lambda>s4.
           Ok (-1, upd_proc np (\<lambda>x. x\<lparr>p_kstack := 0, p_state := UNUSED\<rparr>) s4))
         else
           let c = procs s3 ! cur;
               s4 = upd_proc np (\<lambda>x. x\<lparr>p_sz := p_sz c, p_parent := Some cur\<rparr>) s3;
               tf = p_tf (procs s4 ! np);
               s5 = s4\<lparr>mem := store32 (memmove (mem s4) tf (p_tf c) (of_nat TF_SIZE)) (tf_eax tf) 0\<rparr>
           in kbind (dup_files cur np s5) (\<lambda>s6.
              kbind (deref (p_cwd (procs s6 ! cur))) (\<lambda>cwd.
              kbind (idup cwd s6) (\<lambda>(cwd, s7).
              let s8 = upd_proc np (\<lambda>x. x\<lparr>p_cwd := Some cwd,
                         p_name := safestrcpy_bytes (p_name x) (takeWhile (\<lambda>b. b \<noteq> 0) (p_name (procs s7 ! cur)))\<rparr>) s7;
                  pid = p_pid (procs s8 ! np)
              in kbind (acquire PtableLock s8) (\<lambda>s9.
                 kbind (release PtableLock (upd_proc np (\<lambda>x. x\<lparr>p_state := RUNNABLE\<rparr>) s9)) (\<lambda>s10.
                 Ok (pid, s10))))))))) "

section \<open>Exit\<close>

definition close_files :: "nat \<Rightarrow> 'z file_st_scheme \<Rightarrow> 'z file_st_scheme kres" where
  "close_files cur s =
     foldk (\<lambda>fd s.
       case p_ofile (procs s ! cur) ! fd of
         None \<Rightarrow> Ok s
       | Some f \<Rightarrow> kbind (fileclose f s) (\<lambda>s1. Ok (set_ofile cur fd None s1))) [0..<NOFILE] s"

text \<open>Waking a process that may be null: \<^verbatim>\<open>wakeup1(0)\<close> finds no sleeper, since no process sleeps on the null channel.\<close>

definition wake_proc :: "nat option \<Rightarrow> 'z proc_st_scheme \<Rightarrow> 'z proc_st_scheme kres" where
  "wake_proc p s = (case p of None \<Rightarrow> Ok s | Some p \<Rightarrow> wakeup1 (ChProc p) s)"

definition reparent :: "nat \<Rightarrow> 'z proc_st_scheme \<Rightarrow> 'z proc_st_scheme kres" where
  "reparent cur s =
     foldk (\<lambda>p s.
       if p_parent (procs s ! p) = Some cur then
         let s1 = upd_proc p (\<lambda>x. x\<lparr>p_parent := initproc s\<rparr>) s in
         if pstate s1 p = ZOMBIE then wake_proc (initproc s1) s1 else Ok s1
       else Ok s) [0..<NPROC] s"

definition exit ::
  "('z file_st_scheme \<Rightarrow> 'z file_st_scheme kres) \<Rightarrow> 'z file_st_scheme \<Rightarrow> 'a kres" where
  "exit sw s =
     kbind (myproc s) (\<lambda>(p, s1).
     kbind (panic_if (p = initproc s1) ''init exiting'') (\<lambda>_.
     kbind (deref p) (\<lambda>cur.
     kbind (close_files cur s1) (\<lambda>s2.
     kbind (begin_op s2) (\<lambda>s3.
     kbind (deref (p_cwd (procs s3 ! cur))) (\<lambda>cwd.
     kbind (iput cwd s3) (\<lambda>s4.
     kbind (end_op s4) (\<lambda>s5.
     kbind (acquire PtableLock (upd_proc cur (\<lambda>x. x\<lparr>p_cwd := None\<rparr>) s5)) (\<lambda>s6.
     kbind (wake_proc (p_parent (procs s6 ! cur)) s6) (\<lambda>s7.
     kbind (reparent cur s7) (\<lambda>s8.
     kbind (sched sw (upd_proc cur (\<lambda>x. x\<lparr>p_state := ZOMBIE\<rparr>) s8)) (\<lambda>_.
     Panic ''zombie exit''))))))))))))"

definition forkret :: "'z life_st_scheme \<Rightarrow> 'z life_st_scheme kres" where
  "forkret s =
     kbind (release PtableLock s) (\<lambda>s1.
     if first_forkret s1 then
       kbind (iinit (of_nat ROOTDEV) (s1\<lparr>first_forkret := False\<rparr>)) (initlog (of_nat ROOTDEV))
     else Ok s1)"

section \<open>sysproc.c\<close>

definition sys_fork :: "'z file_st_scheme \<Rightarrow> (int \<times> 'z file_st_scheme) kres" where
  "sys_fork s = fork s"

definition sys_exit ::
  "('z file_st_scheme \<Rightarrow> 'z file_st_scheme kres) \<Rightarrow> 'z file_st_scheme \<Rightarrow> (int \<times> 'z file_st_scheme) kres" where
  "sys_exit sw s = kbind (exit sw s) (\<lambda>s1. Ok (0, s1))"

definition sys_wait ::
  "('z file_st_scheme \<Rightarrow> 'z file_st_scheme kres) \<Rightarrow> 'z file_st_scheme \<Rightarrow> (int \<times> 'z file_st_scheme) kres" where
  "sys_wait sw s = wait sw s"

definition sys_kill :: "'z file_st_scheme \<Rightarrow> (int \<times> 'z file_st_scheme) kres" where
  "sys_kill s =
     kbind (argint 0 s) (\<lambda>(pid, s1).
     case pid of None \<Rightarrow> Ok (-1, s1) | Some pid \<Rightarrow> kill (sint pid) s1)"

definition sys_getpid :: "'z file_st_scheme \<Rightarrow> (int \<times> 'z file_st_scheme) kres" where
  "sys_getpid = with_proc (\<lambda>p s. Ok (p_pid (procs s ! p), s))"

definition sys_sbrk :: "'z file_st_scheme \<Rightarrow> (int \<times> 'z file_st_scheme) kres" where
  "sys_sbrk s =
     kbind (argint 0 s) (\<lambda>(n, s1).
     case n of None \<Rightarrow> Ok (-1, s1)
     | Some n \<Rightarrow>
         with_proc (\<lambda>p s.
           let a = sint (p_sz (procs s ! p)) in
           kbind (growproc (sint n) s) (\<lambda>(r, s2). Ok (if r < 0 then -1 else a, s2))) s1)"

partial_function (option) sys_sleep_loop ::
  "('z file_st_scheme \<Rightarrow> 'z file_st_scheme kres) \<Rightarrow> 32 word \<Rightarrow> 32 word \<Rightarrow> 'z file_st_scheme \<Rightarrow>
     (int \<times> 'z file_st_scheme) kres option"
where
  "sys_sleep_loop sw ticks0 n s =
     (if ticks s - ticks0 < n then
        kobind (myproc s) (\<lambda>(p, s1). kobind (deref p) (\<lambda>p.
        if p_killed (procs s1 ! p) then kobind (release TicksLock s1) (\<lambda>s2. Some (Ok (-1, s2)))
        else kobind (sleep sw ChTicks (Some TicksLock) s1) (\<lambda>s2. sys_sleep_loop sw ticks0 n s2)))
      else kobind (release TicksLock s) (\<lambda>s1. Some (Ok (0, s1))))"

definition sys_sleep ::
  "('z file_st_scheme \<Rightarrow> 'z file_st_scheme kres) \<Rightarrow> 'z file_st_scheme \<Rightarrow> (int \<times> 'z file_st_scheme) kres" where
  "sys_sleep sw s =
     kbind (argint 0 s) (\<lambda>(n, s1).
     case n of None \<Rightarrow> Ok (-1, s1)
     | Some n \<Rightarrow> kbind (acquire TicksLock s1) (\<lambda>s2. krun (sys_sleep_loop sw (ticks s2) n s2)))"

definition sys_uptime :: "'z file_st_scheme \<Rightarrow> (int \<times> 'z file_st_scheme) kres" where
  "sys_uptime s =
     kbind (acquire TicksLock s) (\<lambda>s1.
     kbind (release TicksLock s1) (\<lambda>s2. Ok (sint (ticks s1), s2)))"

definition sys_getpinfo :: "'z file_st_scheme \<Rightarrow> (int \<times> 'z file_st_scheme) kres" where
  "sys_getpinfo s =
     kbind (argint 0 s) (\<lambda>(pid, s1).
     case pid of None \<Rightarrow> Ok (-1, s1) | Some pid \<Rightarrow> getpinfo (sint pid) s1)"

end
