(* ===== verification/Trap.thy ===== *)
theory Trap
  imports Life
begin

unbundle bit_operations_syntax

text \<open>
  System call dispatch and interrupts: \<^verbatim>\<open>syscall\<close> of \<^verbatim>\<open>syscall.c\<close> and \<^verbatim>\<open>trap.c\<close>.

  The trap frame is in memory at the address \<open>tf\<close>.  \<open>getc\<close> are the characters the interrupting device
  delivers and \<open>cr2\<close> is the register of that name.  Acknowledging the interrupt (\<^verbatim>\<open>lapiceoi\<close>) is not in the state.
\<close>

section \<open>Gates\<close>

record gatedesc =
  off_15_0 :: "16 word"
  gd_cs :: "16 word"
  gd_args :: "5 word"
  gd_rsv1 :: "3 word"
  gd_type :: "4 word"
  gd_s :: bool
  gd_dpl :: "2 word"
  gd_p :: bool
  off_31_16 :: "16 word"

definition STS_IG32 :: "4 word" where "STS_IG32 = 0xE"
definition STS_TG32 :: "4 word" where "STS_TG32 = 0xF"

definition SETGATE :: "bool \<Rightarrow> 16 word \<Rightarrow> 32 word \<Rightarrow> 2 word \<Rightarrow> gatedesc" where
  "SETGATE istrap sel off d =
     \<lparr>off_15_0 = ucast (off AND 0xffff), gd_cs = sel, gd_args = 0, gd_rsv1 = 0,
      gd_type = (if istrap then STS_TG32 else STS_IG32), gd_s = False, gd_dpl = d, gd_p = True,
      off_31_16 = ucast (drop_bit 16 off)\<rparr>"

definition T_SYSCALL :: nat where "T_SYSCALL = 64"
definition T_IRQ0 :: nat where "T_IRQ0 = 32"
definition IRQ_TIMER :: nat where "IRQ_TIMER = 0"
definition IRQ_KBD :: nat where "IRQ_KBD = 1"
definition IRQ_COM1 :: nat where "IRQ_COM1 = 4"
definition IRQ_IDE :: nat where "IRQ_IDE = 14"
definition IRQ_SPURIOUS :: nat where "IRQ_SPURIOUS = 31"

record trap_st = life_st +
  idt :: "gatedesc list"
  idtr :: "8 word \<Rightarrow> gatedesc list option"

definition tvinit :: "(nat \<Rightarrow> 32 word) \<Rightarrow> 'z trap_st_scheme \<Rightarrow> 'z trap_st_scheme" where
  "tvinit vectors s =
     initlock TicksLock ''time''
       (s\<lparr>idt := (map (\<lambda>i. SETGATE False (push_bit 3 (of_nat SEG_KCODE)) (vectors i) 0) [0..<256])
           [T_SYSCALL := SETGATE True (push_bit 3 (of_nat SEG_KCODE)) (vectors T_SYSCALL) DPL_USER]\<rparr>)"

definition idtinit :: "'z trap_st_scheme \<Rightarrow> 'z trap_st_scheme" where
  "idtinit s = s\<lparr>idtr := (idtr s)(me s := Some (idt s))\<rparr>"

section \<open>System calls\<close>

text \<open>The table \<^verbatim>\<open>syscalls\<close>, indexed by the numbers of \<^verbatim>\<open>syscall.h\<close>.\<close>

definition syscalls ::
  "('z file_st_scheme \<Rightarrow> 'z file_st_scheme kres) \<Rightarrow> ('z file_st_scheme \<Rightarrow> (int \<times> 'z file_st_scheme) kres) option list" where
  "syscalls sw =
     [None, Some sys_fork, Some (sys_exit sw), Some (sys_wait sw), Some sys_pipe, Some sys_read, Some sys_kill,
      Some sys_exec, Some sys_fstat, Some sys_chdir, Some sys_dup, Some sys_getpid, Some sys_sbrk,
      Some (sys_sleep sw), Some sys_uptime, Some sys_open, Some sys_write, Some sys_mknod, Some sys_unlink,
      Some sys_link, Some sys_mkdir, Some sys_close, Some sys_getpinfo]"

definition set_eax :: "nat \<Rightarrow> int \<Rightarrow> 'z file_st_scheme \<Rightarrow> 'z file_st_scheme" where
  "set_eax cur v s = s\<lparr>mem := store32 (mem s) (tf_eax (p_tf (procs s ! cur))) (word_of_int v)\<rparr>"

definition syscall ::
  "('z file_st_scheme \<Rightarrow> 'z file_st_scheme kres) \<Rightarrow> 'z file_st_scheme \<Rightarrow> 'z file_st_scheme kres" where
  "syscall sw s =
     kbind (myproc s) (\<lambda>(p, s1). kbind (deref p) (\<lambda>cur.
     let num = sint (load32 (mem s1) (tf_eax (p_tf (procs s1 ! cur)))) in
     case (if num > 0 \<and> num < int (length (syscalls sw)) then syscalls sw ! nat num else None) of
       Some call \<Rightarrow> kbind (call s1) (\<lambda>(r, s2). Ok (set_eax cur r s2))
     | None \<Rightarrow>
         kbind (cprintf (''%d %s: unknown sys call %d'' @ nl)
             [pint (p_pid (procs s1 ! cur)), PStr (Some (cstr (p_name (procs s1 ! cur)))), pint num] s1) (\<lambda>s2.
         Ok (set_eax cur (-1) s2))))"

section \<open>Traps\<close>

definition trap_syscall ::
  "('z file_st_scheme \<Rightarrow> 'z file_st_scheme kres) \<Rightarrow> addr \<Rightarrow> 'z file_st_scheme \<Rightarrow> 'z file_st_scheme kres" where
  "trap_syscall sw tf s =
     kbind (myproc s) (\<lambda>(p, s1). kbind (deref p) (\<lambda>p.
     if p_killed (procs s1 ! p) then exit sw s1
     else
       kbind (syscall sw (upd_proc p (\<lambda>x. x\<lparr>p_tf := tf\<rparr>) s1)) (\<lambda>s2.
       kbind (myproc s2) (\<lambda>(p, s3). kbind (deref p) (\<lambda>p.
       if p_killed (procs s3 ! p) then exit sw s3 else Ok s3)))))"

definition from_user :: "addr \<Rightarrow> 'z kmem_st_scheme \<Rightarrow> bool" where
  "from_user tf s \<longleftrightarrow> mem s (tf_cs tf) AND 3 = 3"

definition timer_tick :: "'z file_st_scheme \<Rightarrow> 'z file_st_scheme kres" where
  "timer_tick s =
     kbind (cpuid s) (\<lambda>c.
     if c = 0 then
       kbind (acquire TicksLock s) (\<lambda>s1.
       kbind (wakeup ChTicks (s1\<lparr>ticks := ticks s1 + 1\<rparr>)) (release TicksLock))
     else Ok s)"

definition bad_trap :: "32 word \<Rightarrow> addr \<Rightarrow> 'z file_st_scheme \<Rightarrow> 'z file_st_scheme kres" where
  "bad_trap cr2 tf s =
     kbind (myproc s) (\<lambda>(p, s1).
     kbind (cpuid s1) (\<lambda>c.
     let trapno = load32 (mem s1) (tf_trapno tf); eip = load32 (mem s1) (tf_eip tf) in
     case (if mem s1 (tf_cs tf) AND 3 = 0 then None else p) of
       None \<Rightarrow>
         kbind (cprintf (''unexpected trap %d from cpu %d eip %x (cr2=0x%x)'' @ nl)
             [PInt trapno, pint (int c), PInt eip, PInt cr2] s1) (\<lambda>s2. Panic ''trap'')
     | Some p \<Rightarrow>
         kbind (cprintf (''pid %d %s: trap %d err %d on cpu %d eip 0x%x addr 0x%x--kill proc'' @ nl)
             [pint (p_pid (procs s1 ! p)), PStr (Some (cstr (p_name (procs s1 ! p)))), PInt trapno,
              PInt (load32 (mem s1) (tf_err tf)), pint (int c), PInt eip, PInt cr2] s1) (\<lambda>s2.
         Ok (upd_proc p (\<lambda>x. x\<lparr>p_killed := True\<rparr>) s2))))"

definition trap_irq :: "int list \<Rightarrow> 32 word \<Rightarrow> addr \<Rightarrow> 'z file_st_scheme \<Rightarrow> 'z file_st_scheme kres" where
  "trap_irq getc cr2 tf s =
     (let trapno = unat (load32 (mem s) (tf_trapno tf)) in
      if trapno = T_IRQ0 + IRQ_TIMER then timer_tick s
      else if trapno = T_IRQ0 + IRQ_IDE then Ok (ideintr s)
      else if trapno = T_IRQ0 + IRQ_IDE + 1 then Ok s
      else if trapno = T_IRQ0 + IRQ_KBD then consoleintr getc s
      else if trapno = T_IRQ0 + IRQ_COM1 then consoleintr getc s
      else if trapno = T_IRQ0 + 7 \<or> trapno = T_IRQ0 + IRQ_SPURIOUS then
        kbind (cpuid s) (\<lambda>c.
        cprintf (''cpu%d: spurious interrupt at %x:%x'' @ nl)
          [pint (int c), PInt (ucast (load32 (mem s) (tf_cs tf)) AND 0xffff), PInt (load32 (mem s) (tf_eip tf))] s)
      else bad_trap cr2 tf s)"

text \<open>The tests at the end of \<^verbatim>\<open>trap\<close>.\<close>

definition exit_if_killed ::
  "('z file_st_scheme \<Rightarrow> 'z file_st_scheme kres) \<Rightarrow> addr \<Rightarrow> 'z file_st_scheme \<Rightarrow> 'z file_st_scheme kres" where
  "exit_if_killed sw tf s =
     kbind (myproc s) (\<lambda>(p, s1).
     case p of None \<Rightarrow> Ok s1
     | Some p \<Rightarrow> if p_killed (procs s1 ! p) \<and> from_user tf s1 then exit sw s1 else Ok s1)"

definition trap ::
  "('z file_st_scheme \<Rightarrow> 'z file_st_scheme kres) \<Rightarrow> int list \<Rightarrow> 32 word \<Rightarrow> addr \<Rightarrow> 'z file_st_scheme \<Rightarrow>
     'z file_st_scheme kres" where
  "trap sw getc cr2 tf s =
     (let trapno = unat (load32 (mem s) (tf_trapno tf)) in
      if trapno = T_SYSCALL then trap_syscall sw tf s
      else
        kbind (trap_irq getc cr2 tf s) (\<lambda>s1.
        kbind (exit_if_killed sw tf s1) (\<lambda>s2.
        kbind (myproc s2) (\<lambda>(p, s3).
        kbind (case p of None \<Rightarrow> Ok s3
               | Some p \<Rightarrow> if pstate s3 p = RUNNING \<and> trapno = T_IRQ0 + IRQ_TIMER then yield sw s3 else Ok s3) (\<lambda>s4.
        exit_if_killed sw tf s4)))))"

end
