(* ===== verification/Spec2Isabelle.thy ===== *)
theory Spec2Isabelle
  imports Trap
begin

text \<open>
  A verification development of the xv6 kernel with a multi-level feedback queue scheduler.
\<close>

end
